(* ===== verification/Prelude.thy ===== *)
theory Prelude
  imports Main "HOL-Library.Word"
begin

text \<open>
  Shared material of the development: the named theorem collections, the C conventions
  every component uses (results of code that can run into undefined behaviour, decimal
  printing, the \<open>size_t\<close> arithmetic) and the generic list lemmas of the ring buffers.
\<close>

named_theorems abs_simps \<open>equations that push an abstraction function through an operation\<close>
named_theorems step_defs \<open>definitions of single operations, unfolded together\<close>

section \<open>C conventions\<close>

text \<open>
  Code that can run into undefined behaviour (an index outside its array, a dereference
  of a wild pointer) or fail to return has a result of type \<open>'a option\<close>: \<^term>\<open>None\<close> says
  that the C program has no defined outcome.
\<close>

abbreviation guard :: "bool \<Rightarrow> 'a option \<Rightarrow> 'a option" where
  "guard b r \<equiv> (if b then r else None)"

text \<open>
  Code that can also stop the program, by a failed assertion or by \<open>exit\<close> and \<open>abort\<close>,
  has a result of type \<open>error + 'a\<close>.
\<close>

fun and_then :: "'e + 'a \<Rightarrow> ('a \<Rightarrow> 'e + 'b) \<Rightarrow> 'e + 'b" where
  "and_then (Inl e) f = Inl e"
| "and_then (Inr x) f = f x"

lemma and_then_eq_Inr: "and_then r f = Inr y \<longleftrightarrow> (\<exists>x. r = Inr x \<and> f x = Inr y)"
  by (cases r) auto

lemma and_then_cong [fundef_cong]:
  "r = r' \<Longrightarrow> (\<And>x. r' = Inr x \<Longrightarrow> f x = f' x) \<Longrightarrow> and_then r f = and_then r' f'"
  by (cases r') auto

text \<open>A cell of freshly allocated memory has no value until it is written.\<close>

datatype 'a cell = Uninit | Val 'a

fun cell_val :: "'a cell \<Rightarrow> 'a option" where
  "cell_val Uninit = None"
| "cell_val (Val x) = Some x"

text \<open>The remainder of C rounds towards zero: it has the sign of the dividend.\<close>

definition c_rem :: "int \<Rightarrow> int \<Rightarrow> int" where
  "c_rem a b = (if a < 0 then - ((- a) mod b) else a mod b)"

lemma c_rem_nat [simp]: "c_rem (int i) (int n) = int (i mod n)"
  by (simp add: c_rem_def zmod_int)

text \<open>\<open>size_t\<close> values are naturals below \<open>2 ^ 64\<close>; the wrap-around is written out.\<close>

definition SIZE_T :: nat where
  "SIZE_T = 2 ^ 64"

definition sz_add :: "nat \<Rightarrow> nat \<Rightarrow> nat" where
  "sz_add a b = (a + b) mod SIZE_T"

definition sz_sub :: "nat \<Rightarrow> nat \<Rightarrow> nat" where
  "sz_sub a b = (a + SIZE_T - b) mod SIZE_T"

definition sz_mul :: "nat \<Rightarrow> nat \<Rightarrow> nat" where
  "sz_mul a b = (a * b) mod SIZE_T"

lemma SIZE_T_pos [simp]: "0 < SIZE_T"
  by (simp add: SIZE_T_def)

lemma sz_add_small: "a + b < SIZE_T \<Longrightarrow> sz_add a b = a + b"
  by (simp add: sz_add_def)

lemma sz_mul_small: "a * b < SIZE_T \<Longrightarrow> sz_mul a b = a * b"
  by (simp add: sz_mul_def)

lemma sz_sub_small:
  assumes "b \<le> a" "a < SIZE_T"
  shows "sz_sub a b = a - b"
proof -
  have "a + SIZE_T - b = (a - b) + SIZE_T" using assms(1) by linarith
  moreover have "a - b < SIZE_T" using assms(2) by linarith
  ultimately show ?thesis
    unfolding sz_sub_def by (simp only: mod_add_self2 mod_less)
qed

lemma sz_sub_add_cancel:
  assumes "b \<le> a + c" "a + c < SIZE_T" "b < SIZE_T"
  shows "sz_add (sz_sub a b) c = a + c - b"
proof -
  have "sz_add (sz_sub a b) c = (a + SIZE_T - b + c) mod SIZE_T"
    unfolding sz_add_def sz_sub_def by (rule mod_add_left_eq)
  moreover have "a + SIZE_T - b + c = (a + c - b) + SIZE_T"
    using assms by linarith
  moreover have "a + c - b < SIZE_T" using assms by linarith
  ultimately show ?thesis by (simp only: mod_add_self2 mod_less)
qed

section \<open>Decimal printing\<close>

text \<open>What \<open>printf\<close> writes for \<open>%d\<close> and \<open>%lu\<close>.\<close>

definition digit_char :: "nat \<Rightarrow> char" where
  "digit_char d = char_of (48 + d)"

function show_nat :: "nat \<Rightarrow> string" where
  "show_nat n = (if n < 10 then [digit_char n]
     else show_nat (n div 10) @ [digit_char (n mod 10)])"
  by pat_completeness auto
termination
  by (relation "measure id") auto

declare show_nat.simps [simp del]

definition show_int :: "int \<Rightarrow> string" where
  "show_int i = (if i < 0 then ''-'' @ show_nat (nat (- i)) else show_nat (nat i))"

lemma digit_chars [simp]:
  "digit_char 0 = CHR ''0''" "digit_char (Suc 0) = CHR ''1''" "digit_char 1 = CHR ''1''"
  "digit_char 2 = CHR ''2''" "digit_char 3 = CHR ''3''" "digit_char 4 = CHR ''4''"
  "digit_char 5 = CHR ''5''" "digit_char 6 = CHR ''6''" "digit_char 7 = CHR ''7''"
  "digit_char 8 = CHR ''8''" "digit_char 9 = CHR ''9''"
  by code_simp+

lemma show_nat_numeral [simp]:
  "show_nat 0 = ''0''" "show_nat (Suc 0) = ''1''" "show_nat 1 = ''1''"
  "show_nat (numeral m) = (if (numeral m :: nat) < 10 then [digit_char (numeral m)]
     else show_nat (numeral m div 10) @ [digit_char (numeral m mod 10)])"
  by (subst show_nat.simps, simp)+

lemma show_nat_nonempty [simp]: "show_nat n \<noteq> []"
  by (subst show_nat.simps) simp

section \<open>Scanning\<close>

text \<open>The character classes of \<open>isspace\<close> and \<open>isdigit\<close>, and the value of a run of digits.\<close>

definition is_space :: "char \<Rightarrow> bool" where
  "is_space c \<longleftrightarrow> c \<in> {CHR 0x20, CHR 0x09, CHR 0x0A, CHR 0x0B, CHR 0x0C, CHR 0x0D}"

definition is_digit :: "char \<Rightarrow> bool" where
  "is_digit c \<longleftrightarrow> 48 \<le> (of_char c :: nat) \<and> (of_char c :: nat) \<le> 57"

definition digits_val :: "string \<Rightarrow> int" where
  "digits_val ds = foldl (\<lambda>n c. 10 * n + (of_char c - 48)) 0 ds"

lemma digits_val_snoc: "digits_val (ds @ [c]) = 10 * digits_val ds + (of_char c - 48)"
  by (simp add: digits_val_def)

lemma less_10: "d < 10 \<longleftrightarrow> d \<in> {0, 1, 2, 3, 4, 5, 6, 7, 8, 9 :: nat}"
  by auto

lemma of_char_digit:
  assumes "d < 10"
  shows "(of_char (digit_char d) :: nat) = 48 + d" "(of_char (digit_char d) :: int) = 48 + int d"
  using assms unfolding less_10 by auto

lemma is_digit_char: "d < 10 \<Longrightarrow> is_digit (digit_char d)"
  by (simp add: is_digit_def of_char_digit)

lemma show_nat_digits: "c \<in> set (show_nat n) \<Longrightarrow> is_digit c"
proof (induction n rule: show_nat.induct)
  case (1 n)
  then show ?case by (subst (asm) show_nat.simps) (auto simp: is_digit_char split: if_splits)
qed

lemma digits_val_show: "digits_val (show_nat n) = int n"
proof (induction n rule: show_nat.induct)
  case (1 n)
  show ?case
  proof (cases "n < 10")
    case True
    then show ?thesis by (subst show_nat.simps) (simp add: digits_val_def of_char_digit)
  next
    case False
    then have "digits_val (show_nat n) = 10 * int (n div 10) + int (n mod 10)"
      using 1 by (subst show_nat.simps) (simp add: digits_val_snoc of_char_digit)
    also have "\<dots> = int n" by presburger
    finally show ?thesis .
  qed
qed

lemma digit_not_space: "is_digit c \<Longrightarrow> \<not> is_space c"
  by (auto simp: is_digit_def is_space_def)

text \<open>\<open>strtol(s, NULL, 10)\<close> stored in an \<open>int\<close>, which is \<open>atoi\<close> too: saturated to 64 bits, then cut to 32.\<close>

definition strtol :: "string \<Rightarrow> int" where
  "strtol s = (let s1 = dropWhile is_space s;
       signed = (s1 \<noteq> [] \<and> (hd s1 = CHR ''-'' \<or> hd s1 = CHR ''+''));
       n = digits_val (takeWhile is_digit (if signed then tl s1 else s1));
       n = (if signed \<and> hd s1 = CHR ''-'' then - n else n)
     in max (- (2 ^ 63)) (min (2 ^ 63 - 1) n))"

definition strtol_int :: "string \<Rightarrow> int" where
  "strtol_int s = sint (of_int (strtol s) :: 32 word)"

text \<open>The conversion \<open>%d\<close> of \<open>scanf\<close>, with the rest of the input; a number that is not an \<open>int\<close> is undefined.\<close>

definition scan_digits :: "string \<Rightarrow> (int \<times> string) option" where
  "scan_digits s = (case takeWhile is_digit s of [] \<Rightarrow> None
     | d # ds \<Rightarrow> Some (digits_val (d # ds), dropWhile is_digit s))"

text \<open>\<open>%d\<close>: white space, an optional sign, and at least one digit.\<close>

definition scan_int :: "string \<Rightarrow> (int \<times> string) option" where
  "scan_int s = (case dropWhile is_space s of [] \<Rightarrow> None
     | c # r \<Rightarrow> if c = CHR ''-'' then map_option (\<lambda>(n, r). (- n, r)) (scan_digits r)
       else if c = CHR ''+'' then scan_digits r else scan_digits (c # r))"

definition int_range :: "int \<Rightarrow> bool" where
  "int_range n \<longleftrightarrow> - (2 ^ 31) \<le> n \<and> n < 2 ^ 31"

lemma scan_digits_show: "r = [] \<or> \<not> is_digit (hd r) \<Longrightarrow> scan_digits (show_nat n @ r) = Some (int n, r)"
proof -
  assume r: "r = [] \<or> \<not> is_digit (hd r)"
  then have "takeWhile is_digit r = []" "dropWhile is_digit r = r" by (cases r; simp)+
  then have "takeWhile is_digit (show_nat n @ r) = show_nat n" "dropWhile is_digit (show_nat n @ r) = r"
    using show_nat_digits[of _ n] by (simp_all add: takeWhile_append2 dropWhile_append2)
  then show ?thesis
    using show_nat_nonempty[of n] digits_val_show[of n] by (cases "show_nat n") (simp_all add: scan_digits_def)
qed

lemma scan_int_show:
  assumes "r = [] \<or> \<not> is_digit (hd r)"
  shows "scan_int (show_int n @ r) = Some (n, r)"
proof (cases "n < 0")
  case True
  then show ?thesis
    using scan_digits_show[OF assms, of "nat (- n)"] by (simp add: scan_int_def show_int_def is_space_def)
next
  case False
  obtain c cs where c: "show_nat (nat n) = c # cs" "is_digit c"
    using show_nat_digits[of _ "nat n"] show_nat_nonempty[of "nat n"] by (cases "show_nat (nat n)") auto
  then have "\<not> is_space c" "c \<noteq> CHR ''-''" "c \<noteq> CHR ''+''" by (auto simp: digit_not_space is_digit_def)
  then show ?thesis
    using scan_digits_show[OF assms, of "nat n"] False c by (simp add: scan_int_def show_int_def)
qed

section \<open>Lists\<close>

lemma nth_map_upt [simp]: "i < n \<Longrightarrow> map f [0..<n] ! i = f i"
  by simp

text \<open>Two lists given as images of the same interval are equal when they agree below \<open>n\<close>.\<close>

lemma map_upt_cong:
  "(\<And>i. i < n \<Longrightarrow> f i = g i) \<Longrightarrow> map f [0..<n] = map g [0..<n]"
  by simp

lemma map_upt_Suc_snoc: "map f [0..<Suc n] = map f [0..<n] @ [f n]"
  by simp

lemma map_upt_Suc_cons: "map f [0..<Suc n] = f 0 # map (\<lambda>i. f (Suc i)) [0..<n]"
proof -
  have "[0..<Suc n] = 0 # map Suc [0..<n]"
    by (simp only: upt_conv_Cons [OF zero_less_Suc] map_Suc_upt)
  then show ?thesis by simp
qed

text \<open>Recursion on a literal, to evaluate definitions at concrete numbers.\<close>

lemma list_update_numeral: "(x # xs)[numeral k := y] = x # xs[pred_numeral k := y]"
  by (simp add: numeral_eq_Suc)

lemma replicate_numeral: "replicate (numeral k) x = x # replicate (pred_numeral k) x"
  by (simp add: numeral_eq_Suc)

lemmas nat_literals = list_update_numeral replicate_numeral

text \<open>
  Distinct offsets below the capacity are distinct slots of a ring buffer.
\<close>

lemma ring_inj:
  fixes i j k n :: nat
  assumes "(k + i) mod n = (k + j) mod n" "i < n" "j < n"
  shows "i = j"
proof -
  have *: "i = j" if le: "i \<le> j" and eq: "(k + i) mod n = (k + j) mod n" and "j < n" for i j
  proof -
    have "(k + j) - (k + i) = j - i" using le by simp
    moreover have "n dvd (k + j) - (k + i)"
      using eq by (metis le mod_eq_dvd_iff_nat add_le_cancel_left)
    ultimately have "n dvd j - i" by simp
    moreover have "j - i < n" using \<open>j < n\<close> by simp
    ultimately have "j - i = 0" by (meson dvd_imp_le leD not_gr_zero)
    then show ?thesis using le by simp
  qed
  show ?thesis
    using *[of i j] *[of j i] assms by (cases "i \<le> j") auto
qed

end
