(* ===== verification/ListHead.thy ===== *)
theory ListHead
  imports Prelude
begin

text \<open>
  The doubly linked lists of \<open>buddy/list.h\<close>. A \<open>struct list_head\<close> lives at an address
  of type \<open>'n\<close>; the store maps every address to its \<open>next\<close> and \<open>prev\<close> pointers. A
  pointer is an address, \<open>NULL\<close> (a zeroed structure) or the poison value
  \<open>0x1010\<close> that \<open>list_del\<close> leaves behind. Following either of the last two is
  undefined, so every operation returns an option.

  \<open>dll h r xs\<close> is the representation predicate: from \<open>r\<close> the nodes \<open>xs\<close> follow in
  this order and the cycle closes, in both directions. The lemmas below say that each
  operation acts on \<open>xs\<close> as its comment promises and leaves all other nodes alone.
\<close>

section \<open>Stores, pointers and operations\<close>

datatype 'n ptr = At 'n | Null | Poison

record 'n links =
  next_of :: "'n \<Rightarrow> 'n ptr"
  prev_of :: "'n \<Rightarrow> 'n ptr"

definition set_next :: "'n \<Rightarrow> 'n ptr \<Rightarrow> 'n links \<Rightarrow> 'n links" where
  "set_next a p h = h\<lparr>next_of := (next_of h)(a := p)\<rparr>"

definition set_prev :: "'n \<Rightarrow> 'n ptr \<Rightarrow> 'n links \<Rightarrow> 'n links" where
  "set_prev a p h = h\<lparr>prev_of := (prev_of h)(a := p)\<rparr>"

text \<open>A zero-initialised global: every pointer is \<open>NULL\<close>.\<close>

definition zero_links :: "'n links" where
  "zero_links = \<lparr>next_of = (\<lambda>_. Null), prev_of = (\<lambda>_. Null)\<rparr>"

definition INIT_LIST_HEAD :: "'n \<Rightarrow> 'n links \<Rightarrow> 'n links" where
  "INIT_LIST_HEAD p h = set_prev p (At p) (set_next p (At p) h)"

text \<open>\<open>__list_add\<close>: the four stores, in the order of the code.\<close>

definition list_add_between :: "'n \<Rightarrow> 'n \<Rightarrow> 'n \<Rightarrow> 'n links \<Rightarrow> 'n links" where
  "list_add_between new prev nxt h =
     (let h1 = set_prev nxt (At new) h;
          h2 = set_next new (At nxt) h1;
          h3 = set_prev new (At prev) h2
      in set_next prev (At new) h3)"

definition list_add :: "'n \<Rightarrow> 'n \<Rightarrow> 'n links \<Rightarrow> 'n links option" where
  "list_add new head h =
     (case next_of h head of At n \<Rightarrow> Some (list_add_between new head n h) | _ \<Rightarrow> None)"

definition list_add_tail :: "'n \<Rightarrow> 'n \<Rightarrow> 'n links \<Rightarrow> 'n links option" where
  "list_add_tail new head h =
     (case prev_of h head of At p \<Rightarrow> Some (list_add_between new p head h) | _ \<Rightarrow> None)"

definition list_del_between :: "'n \<Rightarrow> 'n \<Rightarrow> 'n links \<Rightarrow> 'n links" where
  "list_del_between prev nxt h = set_next prev (At nxt) (set_prev nxt (At prev) h)"

definition unlink :: "'n \<Rightarrow> 'n links \<Rightarrow> 'n links option" where
  "unlink e h =
     (case (prev_of h e, next_of h e) of
        (At p, At n) \<Rightarrow> Some (list_del_between p n h)
      | _ \<Rightarrow> None)"

definition list_del :: "'n \<Rightarrow> 'n links \<Rightarrow> 'n links option" where
  "list_del e h =
     map_option (\<lambda>h. set_prev e Poison (set_next e Poison h)) (unlink e h)"

definition list_del_init :: "'n \<Rightarrow> 'n links \<Rightarrow> 'n links option" where
  "list_del_init e h = map_option (INIT_LIST_HEAD e) (unlink e h)"

definition list_move :: "'n \<Rightarrow> 'n \<Rightarrow> 'n links \<Rightarrow> 'n links option" where
  "list_move e head h = Option.bind (unlink e h) (list_add e head)"

definition list_move_tail :: "'n \<Rightarrow> 'n \<Rightarrow> 'n links \<Rightarrow> 'n links option" where
  "list_move_tail e head h = Option.bind (unlink e h) (list_add_tail e head)"

definition list_empty :: "'n \<Rightarrow> 'n links \<Rightarrow> bool" where
  "list_empty head h \<longleftrightarrow> next_of h head = At head"

definition list_splice_nonempty :: "'n \<Rightarrow> 'n \<Rightarrow> 'n links \<Rightarrow> 'n links option" where
  "list_splice_nonempty l head h =
     (case (next_of h l, prev_of h l, next_of h head) of
        (At first, At final, At at) \<Rightarrow>
          Some (set_prev at (At final) (set_next final (At at)
            (set_next head (At first) (set_prev first (At head) h))))
      | _ \<Rightarrow> None)"

definition list_splice :: "'n \<Rightarrow> 'n \<Rightarrow> 'n links \<Rightarrow> 'n links option" where
  "list_splice l head h =
     (if \<not> list_empty l h then list_splice_nonempty l head h else Some h)"

definition list_splice_init :: "'n \<Rightarrow> 'n \<Rightarrow> 'n links \<Rightarrow> 'n links option" where
  "list_splice_init l head h =
     (if \<not> list_empty l h
      then map_option (INIT_LIST_HEAD l) (list_splice_nonempty l head h)
      else Some h)"

text \<open>
  \<open>list_for_each\<close> visits the nodes from a position up to the head; the loop may run
  forever on a list that does not lead back to its head, so it is a partial function, and
  the nodes it visits are its result. \<open>list_for_each_prev\<close> goes the other way.
\<close>

partial_function (option) list_for_each_from :: "'n links \<Rightarrow> 'n \<Rightarrow> 'n ptr \<Rightarrow> 'n list option" where
  "list_for_each_from h head pos =
     (case pos of
        At n \<Rightarrow> (if n = head then Some []
                  else Option.bind (list_for_each_from h head (next_of h n))
                         (\<lambda>ns. Some (n # ns)))
      | _ \<Rightarrow> None)"

declare list_for_each_from.simps [code]

definition list_for_each :: "'n links \<Rightarrow> 'n \<Rightarrow> 'n list option" where
  "list_for_each h head = list_for_each_from h head (next_of h head)"

partial_function (option) list_for_each_prev_from :: "'n links \<Rightarrow> 'n \<Rightarrow> 'n ptr \<Rightarrow> 'n list option" where
  "list_for_each_prev_from h head pos =
     (case pos of
        At n \<Rightarrow> (if n = head then Some []
                  else Option.bind (list_for_each_prev_from h head (prev_of h n))
                         (\<lambda>ns. Some (n # ns)))
      | _ \<Rightarrow> None)"

declare list_for_each_prev_from.simps [code]

definition list_for_each_prev :: "'n links \<Rightarrow> 'n \<Rightarrow> 'n list option" where
  "list_for_each_prev h head = list_for_each_prev_from h head (prev_of h head)"

section \<open>Representation\<close>

fun seg :: "'n links \<Rightarrow> 'n \<Rightarrow> 'n list \<Rightarrow> 'n \<Rightarrow> bool" where
  "seg h a [] b \<longleftrightarrow> next_of h a = At b \<and> prev_of h b = At a"
| "seg h a (x # xs) b \<longleftrightarrow> next_of h a = At x \<and> prev_of h x = At a \<and> seg h x xs b"

definition dll :: "'n links \<Rightarrow> 'n \<Rightarrow> 'n list \<Rightarrow> bool" where
  "dll h r xs \<longleftrightarrow> distinct (r # xs) \<and> seg h r xs r"

lemma seg_append [simp]:
  "seg h a (xs @ y # ys) b \<longleftrightarrow> seg h a xs y \<and> seg h y ys b"
  by (induction xs arbitrary: a) auto

text \<open>A store that agrees on the nodes of a segment represents it too.\<close>

lemma seg_frame:
  assumes "seg h a xs b"
    and "\<And>n. n \<in> insert a (set xs) \<Longrightarrow> next_of h' n = next_of h n"
    and "\<And>n. n \<in> insert b (set xs) \<Longrightarrow> prev_of h' n = prev_of h n"
  shows "seg h' a xs b"
  using assms by (induction xs arbitrary: a) auto

definition same_at :: "'n set \<Rightarrow> 'n links \<Rightarrow> 'n links \<Rightarrow> bool" where
  "same_at S h h' \<longleftrightarrow> (\<forall>n\<in>S. next_of h' n = next_of h n \<and> prev_of h' n = prev_of h n)"

lemma same_at_refl [simp]: "same_at S h h"
  by (simp add: same_at_def)

lemma same_at_trans [trans]: "same_at S h h' \<Longrightarrow> same_at S h' h'' \<Longrightarrow> same_at S h h''"
  by (simp add: same_at_def)

lemma same_at_mono: "same_at S h h' \<Longrightarrow> T \<subseteq> S \<Longrightarrow> same_at T h h'"
  by (auto simp: same_at_def)

lemma dll_frame: "dll h r xs \<Longrightarrow> same_at (insert r (set xs)) h h' \<Longrightarrow> dll h' r xs"
  unfolding dll_def same_at_def by (auto intro: seg_frame)

lemma dll_empty_iff: "dll h r xs \<Longrightarrow> list_empty r h \<longleftrightarrow> xs = []"
  by (cases xs) (auto simp: dll_def list_empty_def)

lemma dll_next_hd: "dll h r (x # xs) \<Longrightarrow> next_of h r = At x"
  by (simp add: dll_def)

lemmas links_defs = set_next_def set_prev_def list_add_between_def list_del_between_def

lemma same_at_set [simp]:
  "a \<notin> S \<Longrightarrow> same_at S h (set_next a p h') \<longleftrightarrow> same_at S h h'"
  "a \<notin> S \<Longrightarrow> same_at S h (set_prev a p h') \<longleftrightarrow> same_at S h h'"
  by (auto simp: same_at_def links_defs)

section \<open>Insertion and removal\<close>

text \<open>
  The node before and the node after a position of a list, the head standing at both ends.
\<close>

definition before :: "'n \<Rightarrow> 'n list \<Rightarrow> 'n" where
  "before r xs = last (r # xs)"

definition after :: "'n \<Rightarrow> 'n list \<Rightarrow> 'n" where
  "after r ys = List.hd (ys @ [r])"

lemma before_simps [simp]: "before r [] = r" "before r (xs @ [x]) = x"
  by (simp_all add: before_def)

lemma after_simps [simp]: "after r [] = r" "after r (y # ys) = y"
  by (simp_all add: after_def)

lemma before_in: "before r xs \<in> insert r (set xs)"
  by (cases xs rule: rev_cases) auto

lemma after_in: "after r ys \<in> insert r (set ys)"
  by (cases ys) auto

lemma seg_ends:
  assumes "seg h a (xs @ ys) b"
  shows "ys \<noteq> [] \<Longrightarrow> prev_of h (after b ys) = At (before a xs)"
    and "xs \<noteq> [] \<Longrightarrow> next_of h (before a xs) = At (after b ys)"
  using assms by (cases ys; cases xs rule: rev_cases; auto)+

lemma dll_prev_after: "dll h r (xs @ ys) \<Longrightarrow> prev_of h (after r ys) = At (before r xs)"
  unfolding dll_def by (cases ys; cases xs rule: rev_cases; auto)

lemma dll_next_before: "dll h r (xs @ ys) \<Longrightarrow> next_of h (before r xs) = At (after r ys)"
  unfolding dll_def by (cases ys; cases xs rule: rev_cases; auto)

lemma dll_insert:
  assumes "dll h r (xs @ ys)" "n \<notin> insert r (set (xs @ ys))"
  shows "dll (list_add_between n (before r xs) (after r ys) h) r (xs @ n # ys)"
proof (cases xs rule: rev_cases)
  case Nil
  then show ?thesis
    using assms by (cases ys) (auto simp: dll_def links_defs elim!: seg_frame)
next
  case (snoc xs' p)
  then show ?thesis
    using assms by (cases ys) (auto simp: dll_def links_defs elim!: seg_frame)
qed

lemma same_at_list_add_between [simp]:
  "n \<notin> S \<Longrightarrow> p \<notin> S \<Longrightarrow> q \<notin> S \<Longrightarrow> same_at S h (list_add_between n p q h)"
  by (auto simp: same_at_def links_defs)

lemma same_at_list_del_between [simp]:
  "p \<notin> S \<Longrightarrow> q \<notin> S \<Longrightarrow> same_at S h (list_del_between p q h)"
  by (auto simp add: same_at_def links_defs)

lemma dll_remove:
  assumes "dll h r (xs @ e # ys)"
  shows "dll (list_del_between (before r xs) (after r ys) h) r (xs @ ys)"
proof (cases xs rule: rev_cases)
  case Nil
  then show ?thesis
    using assms by (cases ys) (auto simp: dll_def links_defs elim!: seg_frame)
next
  case (snoc xs' p)
  then show ?thesis
    using assms by (cases ys) (auto simp: dll_def links_defs elim!: seg_frame)
qed

subsection \<open>The operations, by their effect on the represented list\<close>

lemma INIT_LIST_HEAD_dll [simp]: "dll (INIT_LIST_HEAD r h) r []"
  by (simp add: dll_def INIT_LIST_HEAD_def links_defs)

lemma same_at_INIT_LIST_HEAD [simp]: "r \<notin> S \<Longrightarrow> same_at S h (INIT_LIST_HEAD r h)"
  by (simp add: INIT_LIST_HEAD_def)

lemma list_add_refines:
  assumes "dll h r xs" "n \<notin> insert r (set xs)"
  obtains h' where "list_add n r h = Some h'" "dll h' r (n # xs)"
    "same_at (- insert n (insert r (set xs))) h h'"
proof -
  have "next_of h r = At (after r xs)"
    using dll_next_before[of h r "[]" xs] assms(1) by simp
  then have "list_add n r h = Some (list_add_between n r (after r xs) h)"
    by (simp add: list_add_def)
  moreover have "dll (list_add_between n r (after r xs) h) r (n # xs)"
    using dll_insert[of h r "[]" xs n] assms by simp
  moreover have "same_at (- insert n (insert r (set xs))) h (list_add_between n r (after r xs) h)"
    using after_in[of r xs] by simp
  ultimately show thesis by (rule that)
qed

text \<open>\<open>list_add_tail\<close> inserts before the given node, which is the head or an element.\<close>

lemma list_add_tail_refines:
  assumes "dll h r (xs @ ys)" "n \<notin> insert r (set (xs @ ys))"
  obtains h' where "list_add_tail n (after r ys) h = Some h'" "dll h' r (xs @ n # ys)"
    "same_at (- insert n (insert r (set (xs @ ys)))) h h'"
proof -
  let ?h' = "list_add_between n (before r xs) (after r ys) h"
  have "list_add_tail n (after r ys) h = Some ?h'"
    using dll_prev_after[OF assms(1)] by (simp add: list_add_tail_def)
  moreover have "dll ?h' r (xs @ n # ys)"
    using assms by (rule dll_insert)
  moreover have "same_at (- insert n (insert r (set (xs @ ys)))) h ?h'"
    using after_in[of r ys] before_in[of r xs] by auto
  ultimately show thesis by (rule that)
qed

lemma unlink_refines:
  assumes "dll h r (xs @ e # ys)"
  shows "unlink e h = Some (list_del_between (before r xs) (after r ys) h)"
proof -
  have "prev_of h e = At (before r xs)"
    using dll_prev_after[OF assms] by simp
  moreover have "next_of h e = At (after r ys)"
    using dll_next_before[of h r "xs @ [e]" ys] assms by simp
  ultimately show ?thesis by (simp add: unlink_def)
qed

lemma unlink_dll:
  assumes "dll h r (xs @ e # ys)"
  obtains h' where "unlink e h = Some h'" "dll h' r (xs @ ys)"
    "same_at (- insert r (set (xs @ ys))) h h'"
proof -
  have "same_at (- insert r (set (xs @ ys))) h
      (list_del_between (before r xs) (after r ys) h)"
    using after_in[of r ys] before_in[of r xs] by auto
  then show thesis
    using that unlink_refines[OF assms] dll_remove[OF assms] by blast
qed

lemma list_del_refines:
  assumes "dll h r (xs @ e # ys)"
  obtains h' where "list_del e h = Some h'" "dll h' r (xs @ ys)"
    "same_at (- insert e (insert r (set (xs @ ys)))) h h'"
proof -
  from assms obtain h1 where h1: "unlink e h = Some h1" "dll h1 r (xs @ ys)"
    "same_at (- insert r (set (xs @ ys))) h h1"
    by (rule unlink_dll)
  let ?h' = "set_prev e Poison (set_next e Poison h1)"
  have e: "e \<notin> insert r (set (xs @ ys))"
    using assms by (auto simp: dll_def)
  have "same_at (insert r (set (xs @ ys))) h1 ?h'"
    using e by simp
  with h1(2) have "dll ?h' r (xs @ ys)"
    by (rule dll_frame)
  moreover have "same_at (- insert e (insert r (set (xs @ ys)))) h ?h'"
    using h1(3) by (auto intro: same_at_mono)
  ultimately show thesis
    using that h1(1) by (simp add: list_del_def)
qed

lemma list_del_poisons: "list_del e h = Some h' \<Longrightarrow> next_of h' e = Poison \<and> prev_of h' e = Poison"
  by (auto simp: list_del_def links_defs)

lemma list_for_each_from_seg:
  "seg h a xs r \<Longrightarrow> r \<notin> set xs \<Longrightarrow> list_for_each_from h r (next_of h a) = Some xs"
proof (induction xs arbitrary: a)
  case Nil
  then show ?case by (subst list_for_each_from.simps) simp
next
  case (Cons x xs)
  then show ?case by (subst list_for_each_from.simps) auto
qed

lemma list_for_each_dll: "dll h r xs \<Longrightarrow> list_for_each h r = Some xs"
  by (simp add: dll_def list_for_each_def list_for_each_from_seg)

lemma list_for_each_prev_from_seg:
  "seg h r xs b \<Longrightarrow> r \<notin> set xs \<Longrightarrow> list_for_each_prev_from h r (prev_of h b) = Some (rev xs)"
proof (induction xs arbitrary: b rule: rev_induct)
  case Nil
  then show ?case by (subst list_for_each_prev_from.simps) simp
next
  case (snoc x xs)
  then show ?case by (subst list_for_each_prev_from.simps) auto
qed

lemma list_for_each_prev_dll: "dll h r xs \<Longrightarrow> list_for_each_prev h r = Some (rev xs)"
  by (simp add: dll_def list_for_each_prev_def list_for_each_prev_from_seg)

lemma dll_unique: "dll h r xs \<Longrightarrow> dll h r ys \<Longrightarrow> xs = ys"
  using list_for_each_dll[of h r xs] list_for_each_dll[of h r ys] by simp

lemma list_del_init_refines:
  assumes "dll h r (xs @ e # ys)"
  obtains h' where "list_del_init e h = Some h'" "dll h' r (xs @ ys)" "dll h' e []"
proof -
  from assms obtain h1 where h1: "unlink e h = Some h1" "dll h1 r (xs @ ys)"
    by (rule unlink_dll)
  have "e \<notin> insert r (set (xs @ ys))"
    using assms by (auto simp: dll_def)
  then have "dll (INIT_LIST_HEAD e h1) r (xs @ ys)"
    by (intro dll_frame[OF h1(2)]) simp
  then show thesis
    using that h1(1) by (simp add: list_del_init_def)
qed

lemma list_move_refines:
  assumes "dll h r (xs @ e # ys)"
  obtains h' where "list_move e r h = Some h'" "dll h' r (e # xs @ ys)"
proof -
  from assms obtain h1 where h1: "unlink e h = Some h1" "dll h1 r (xs @ ys)"
    by (rule unlink_dll)
  moreover have "e \<notin> insert r (set (xs @ ys))"
    using assms by (auto simp: dll_def)
  ultimately obtain h2 where "list_add e r h1 = Some h2" "dll h2 r (e # xs @ ys)"
    by (rule_tac list_add_refines)
  then show thesis
    using that h1(1) by (simp add: list_move_def)
qed

lemma list_move_tail_refines:
  assumes "dll h r (xs @ e # ys)"
  obtains h' where "list_move_tail e r h = Some h'" "dll h' r (xs @ ys @ [e])"
proof -
  from assms obtain h1 where h1: "unlink e h = Some h1" "dll h1 r (xs @ ys)"
    by (rule unlink_dll)
  moreover have "e \<notin> insert r (set (xs @ ys))"
    using assms by (auto simp: dll_def)
  ultimately obtain h2 where "list_add_tail e r h1 = Some h2" "dll h2 r (xs @ ys @ [e])"
    using list_add_tail_refines[of h1 r "xs @ ys" "[]" e] by auto
  then show thesis
    using that h1(1) by (simp add: list_move_tail_def)
qed

text \<open>
  Splicing moves the whole list, in its order, to the front of the other one.
\<close>

lemma list_splice_init_refines:
  assumes l: "dll h l xs" and r: "dll h r ys"
    and disj: "insert l (set xs) \<inter> insert r (set ys) = {}"
  obtains h' where "list_splice_init l r h = Some h'" "dll h' r (xs @ ys)" "dll h' l []"
proof (cases xs rule: rev_cases)
  case Nil
  with l r show thesis
    using that dll_empty_iff[OF l] by (simp add: list_splice_init_def)
next
  case (snoc xs' z)
  let ?x = "after l xs" and ?at = "after r ys"
  let ?h = "set_prev ?at (At z) (set_next z (At ?at)
      (set_next r (At ?x) (set_prev ?x (At r) h)))"
  have ends: "next_of h l = At ?x" "prev_of h l = At z" "next_of h r = At ?at"
    using dll_next_before[of h l "[]" xs] dll_prev_after[of h l xs "[]"]
      dll_next_before[of h r "[]" ys] l r snoc by simp_all
  have "?at \<notin> insert l (set xs)"
    using after_in[of r ys] disj by auto
  then have "seg ?h r xs' z"
    using l disj snoc
    by (cases xs') (auto simp: dll_def links_defs elim!: seg_frame)
  moreover have "seg ?h z ys r"
  proof -
    have "xs \<noteq> []" "z \<in> set xs"
      using snoc by simp_all
    then have "?x \<in> set xs"
      by (cases xs) simp_all
    with disj \<open>z \<in> set xs\<close> have "?x \<notin> insert r (set ys)" "z \<notin> insert r (set ys)"
      by auto
    with r show ?thesis
      by (cases ys) (auto simp: dll_def links_defs elim!: seg_frame)
  qed
  moreover have "distinct (r # xs @ ys)"
    using l r disj by (auto simp: dll_def)
  ultimately have "dll ?h r (xs @ ys)"
    using snoc by (simp add: dll_def)
  moreover have "l \<notin> insert r (set (xs @ ys))"
    using l disj by (auto simp: dll_def)
  then have "same_at (insert r (set (xs @ ys))) ?h (INIT_LIST_HEAD l ?h)"
    by (simp del: same_at_set)
  ultimately have "dll (INIT_LIST_HEAD l ?h) r (xs @ ys)"
    by (rule dll_frame)
  moreover have "list_splice_init l r h = Some (INIT_LIST_HEAD l ?h)"
    using dll_empty_iff[OF l] snoc ends
    by (simp add: list_splice_init_def list_splice_nonempty_def)
  ultimately show thesis
    using that by simp
qed

end
