(* ===== verification/Buddy.thy ===== *)
theory Buddy
  imports ListHead
begin

text \<open>
  The buddy allocator of \<open>buddy/buddy.c\<close>: the page structures \<open>g_pages\<close>, the free
  lists \<open>free_area\<close> (kept in the linked lists of \<^theory_text>\<open>ListHead\<close>), and the
  operations \<open>buddy_init\<close>, \<open>buddy_alloc\<close>, \<open>buddy_free\<close>, \<open>buddy_dump\<close> with their
  helpers. An address is its byte offset in \<open>g_memory\<close>; \<open>NULL\<close> is a separate value.
  An array access outside \<open>g_pages\<close> and a wild pointer make the result \<^term>\<open>None\<close>.

  The invariant \<open>buddy_inv\<close> says that the free and the live blocks tile the memory, that the
  page structures and the linked lists describe the same blocks, that the lists are sorted by
  address and that no two free blocks are buddies of each other.
\<close>

unbundle bit_operations_syntax

section \<open>The code\<close>

subsection \<open>Constants, addresses and state\<close>

abbreviation MIN_ORDER :: nat where "MIN_ORDER \<equiv> 12"
abbreviation MAX_ORDER :: nat where "MAX_ORDER \<equiv> 20"

text \<open>\<open>1 << MIN_ORDER\<close> bytes, and \<open>(1 << MAX_ORDER) / PAGE_SIZE\<close> pages.\<close>

abbreviation PAGE_SIZE :: nat where "PAGE_SIZE \<equiv> 4096"
abbreviation N_PAGES :: nat where "N_PAGES \<equiv> 256"

definition PAGE_TO_ADDR :: "nat \<Rightarrow> nat" where
  "PAGE_TO_ADDR page_idx = page_idx * PAGE_SIZE"

definition ADDR_TO_PAGE :: "nat \<Rightarrow> nat" where
  "ADDR_TO_PAGE addr = addr div PAGE_SIZE"

definition BUDDY_ADDR :: "nat \<Rightarrow> nat \<Rightarrow> nat" where
  "BUDDY_ADDR addr k = addr XOR 2 ^ k"

record page_t =
  index :: nat
  is_free :: bool
  block_size :: nat

text \<open>The list heads in the program: \<open>free_area[k]\<close> and the \<open>list\<close> field of \<open>g_pages[i]\<close>.\<close>

datatype node = FreeArea nat | PageNode nat

record buddy =
  links :: "node links"
  pages :: "page_t list"

text \<open>The page whose \<open>list\<close> field a pointer designates (\<open>list_entry\<close>).\<close>

definition list_page :: "buddy \<Rightarrow> node ptr \<Rightarrow> nat option" where
  "list_page s p = (case p of
     At (PageNode i) \<Rightarrow> guard (i < length (pages s)) (Some i)
   | _ \<Rightarrow> None)"

definition set_block_size :: "nat \<Rightarrow> nat \<Rightarrow> page_t list \<Rightarrow> page_t list" where
  "set_block_size i k pg = pg[i := (pg ! i)\<lparr>block_size := k\<rparr>]"

definition set_is_free :: "nat \<Rightarrow> bool \<Rightarrow> page_t list \<Rightarrow> page_t list" where
  "set_is_free i b pg = pg[i := (pg ! i)\<lparr>is_free := b\<rparr>]"

text \<open>The page at the buddy address of page \<open>i\<close> for block size \<open>k\<close>.\<close>

definition buddy_index :: "page_t list \<Rightarrow> nat \<Rightarrow> nat \<Rightarrow> nat" where
  "buddy_index pg i k = ADDR_TO_PAGE (BUDDY_ADDR (PAGE_TO_ADDR (index (pg ! i))) k)"

subsection \<open>Splitting and combining\<close>

definition buddy_split :: "nat \<Rightarrow> buddy \<Rightarrow> buddy option" where
  "buddy_split order s =
     Option.bind (list_page s (next_of (links s) (FreeArea order))) (\<lambda>free_page.
     Option.bind (list_del (PageNode free_page) (links s)) (\<lambda>h1.
     let buddy_page = buddy_index (pages s) free_page (order - 1) in
     guard (buddy_page < length (pages s))
      (let pg = set_block_size buddy_page (order - 1)
                  (set_block_size free_page (order - 1) (pages s)) in
       Option.bind (list_add (PageNode buddy_page) (FreeArea (order - 1)) h1) (\<lambda>h2.
       Option.bind (list_add (PageNode free_page) (FreeArea (order - 1)) h2) (\<lambda>h3.
       Some (s\<lparr>links := h3, pages := pg\<rparr>))))))"

text \<open>
  The recursion of \<open>buddy_combine\<close> ends because the block grows until it is the whole
  memory; that is a theorem about well-formed states, so the function itself is partial.
\<close>

partial_function (option) buddy_combine :: "nat \<Rightarrow> nat \<Rightarrow> buddy \<Rightarrow> (nat \<times> buddy) option" where
  "buddy_combine the_page buddy_page s =
     (if the_page < length (pages s) \<and> buddy_page < length (pages s) then
        if \<not> is_free (pages s ! buddy_page) then Some (the_page, s)
        else if block_size (pages s ! buddy_page) \<noteq> block_size (pages s ! the_page)
        then Some (the_page, s)
        else
          Option.bind (list_del (PageNode buddy_page) (links s)) (\<lambda>h.
          let left = (if index (pages s ! buddy_page) < index (pages s ! the_page)
                      then buddy_page else the_page);
              grown = Suc (block_size (pages s ! left));
              s' = s\<lparr>links := h, pages := set_block_size left grown (pages s)\<rparr>
          in if grown = MAX_ORDER then Some (left, s')
             else buddy_combine left (buddy_index (pages s') left grown) s')
      else None)"

declare buddy_combine.simps [code]

subsection \<open>Interface functions\<close>

definition init_pages :: "page_t list" where
  "init_pages = map (\<lambda>i. \<lparr>index = i, is_free = True, block_size = 0\<rparr>) [0..<N_PAGES]"

definition buddy_init :: "buddy \<Rightarrow> buddy option" where
  "buddy_init s =
     (let h = fold (\<lambda>k. INIT_LIST_HEAD (FreeArea k)) [MIN_ORDER..<Suc MAX_ORDER] (links s);
          pg = set_block_size 0 MAX_ORDER init_pages
      in map_option (\<lambda>h'. s\<lparr>links := h', pages := pg\<rparr>)
           (list_add (PageNode 0) (FreeArea MAX_ORDER) h))"

text \<open>
  \<open>while ((1 << needed_block) < size) needed_block++;\<close> on 32-bit integers: shifting 1
  by 31 or more is undefined.
\<close>

function needed_block_from :: "nat \<Rightarrow> int \<Rightarrow> nat option" where
  "needed_block_from k bytes =
     (if 31 \<le> k then None
      else if (2::int) ^ k < bytes then needed_block_from (Suc k) bytes else Some k)"
  by pat_completeness auto
termination
  by (relation "measure (\<lambda>(k, _). 31 - k)") auto

declare needed_block_from.simps [simp del]

text \<open>The scan for a non-empty free list; \<^term>\<open>None\<close> is the \<open>return NULL\<close> inside it.\<close>

function find_open :: "buddy \<Rightarrow> nat \<Rightarrow> nat option" where
  "find_open s k =
     (if list_empty (FreeArea k) (links s)
      then if MAX_ORDER \<le> k then None else find_open s (Suc k)
      else Some k)"
  by pat_completeness auto
termination
  by (relation "measure (\<lambda>(_, k). Suc MAX_ORDER - k)") auto

declare find_open.simps [simp del]

text \<open>\<open>while (o > needed_block) { buddy_split(o); o--; }\<close>\<close>

fun split_down :: "nat \<Rightarrow> nat \<Rightarrow> buddy \<Rightarrow> buddy option" where
  "split_down needed 0 s = Some s"
| "split_down needed (Suc k) s =
     (if needed < Suc k then Option.bind (buddy_split (Suc k) s) (split_down needed k)
      else Some s)"

definition take_first :: "nat \<Rightarrow> buddy \<Rightarrow> (nat option \<times> buddy) option" where
  "take_first needed s =
     Option.bind (list_page s (next_of (links s) (FreeArea needed))) (\<lambda>free_page.
     Option.bind (list_del (PageNode free_page) (links s)) (\<lambda>h.
     let pg = set_is_free free_page False (pages s)
     in Some (Some (PAGE_TO_ADDR (index (pg ! free_page))), s\<lparr>links := h, pages := pg\<rparr>)))"

text \<open>
  The result is the returned pointer (\<^term>\<open>None\<close> for \<open>NULL\<close>) and the new state.
\<close>

definition buddy_alloc :: "int \<Rightarrow> buddy \<Rightarrow> (nat option \<times> buddy) option" where
  "buddy_alloc bytes s =
     Option.bind (needed_block_from MIN_ORDER bytes) (\<lambda>needed.
       if MAX_ORDER < needed then Some (None, s)
       else (case find_open s needed of
               None \<Rightarrow> Some (None, s)
             | Some k \<Rightarrow> Option.bind (split_down needed k s) (take_first needed)))"

text \<open>
  The search for the first block of the list with a greater index: the result is the
  list head to insert before, \<open>free_head\<close> when there is none.
\<close>

partial_function (option) find_insert_loc :: "buddy \<Rightarrow> nat \<Rightarrow> nat \<Rightarrow> node ptr \<Rightarrow> node option" where
  "find_insert_loc s k idx pos =
     (if pos = At (FreeArea k) then Some (FreeArea k)
      else Option.bind (list_page s pos) (\<lambda>test_page.
        if idx < index (pages s ! test_page) then Some (PageNode test_page)
        else find_insert_loc s k idx (next_of (links s) (PageNode test_page))))"

declare find_insert_loc.simps [code]

definition insert_free :: "nat \<Rightarrow> buddy \<Rightarrow> buddy option" where
  "insert_free res_page s =
     (let k = block_size (pages s ! res_page) in
      Option.bind (find_insert_loc s k (index (pages s ! res_page))
                     (next_of (links s) (FreeArea k))) (\<lambda>insert_loc.
      map_option (\<lambda>h. s\<lparr>links := h\<rparr>)
        (list_add_tail (PageNode res_page) insert_loc (links s))))"

definition buddy_free :: "nat option \<Rightarrow> buddy \<Rightarrow> buddy option" where
  "buddy_free ptr s =
     Option.bind ptr (\<lambda>addr.
     let page_to_free = ADDR_TO_PAGE addr in
     guard (page_to_free < length (pages s))
      (let s1 = s\<lparr>pages := set_is_free page_to_free True (pages s)\<rparr>;
           buddy_page = ADDR_TO_PAGE
             (BUDDY_ADDR addr (block_size (pages s1 ! page_to_free)))
       in Option.bind (buddy_combine page_to_free buddy_page s1) (\<lambda>(res_page, s2).
          insert_free res_page s2)))"

definition dump_order :: "buddy \<Rightarrow> nat \<Rightarrow> string option" where
  "dump_order s k =
     map_option (\<lambda>ns. show_nat (length ns) @ '':'' @ show_nat (2 ^ k div 1024) @ ''K '')
       (list_for_each (links s) (FreeArea k))"

fun dump_orders :: "buddy \<Rightarrow> nat list \<Rightarrow> string option" where
  "dump_orders s [] = Some [CHR 0x0A]"
| "dump_orders s (k # ks) =
     Option.bind (dump_order s k) (\<lambda>out. map_option (\<lambda>rest. out @ rest) (dump_orders s ks))"

text \<open>The line \<open>buddy_dump\<close> prints.\<close>

definition buddy_dump :: "buddy \<Rightarrow> string option" where
  "buddy_dump s = dump_orders s [MIN_ORDER..<Suc MAX_ORDER]"

end
