(* ===== verification/Tiling.thy ===== *)
theory Tiling
  imports Prelude
begin

text \<open>
  The abstract view of buddy memory: a block is a pair of its first page and its order
  (the base-2 logarithm of its size in bytes), and a set of blocks tiles the memory when
  the blocks are aligned, disjoint and cover it. This is the specification the allocator of
  \<open>buddy/buddy.c\<close> is proved against; it does not mention lists or page structures.
\<close>

unbundle bit_operations_syntax

type_synonym block = "nat \<times> nat"

text \<open>The number of pages of a block of order \<open>k\<close>: pages are \<open>2 ^ 12\<close> bytes.\<close>

definition pages_of :: "nat \<Rightarrow> nat" where
  "pages_of k = 2 ^ (k - 12)"

definition area :: "block \<Rightarrow> nat set" where
  "area b = {fst b..<fst b + pages_of (snd b)}"

definition aligned :: "block \<Rightarrow> bool" where
  "aligned b \<longleftrightarrow> 12 \<le> snd b \<and> snd b \<le> 20 \<and> pages_of (snd b) dvd fst b"

definition buddy_of :: "nat \<Rightarrow> nat \<Rightarrow> nat" where
  "buddy_of i k = (if even (i div pages_of k) then i + pages_of k else i - pages_of k)"

definition tiles :: "block set \<Rightarrow> bool" where
  "tiles T \<longleftrightarrow> (\<forall>b\<in>T. aligned b) \<and> (\<forall>b\<in>T. \<forall>c\<in>T. b \<noteq> c \<longrightarrow> area b \<inter> area c = {})
     \<and> (\<Union>b\<in>T. area b) = {..<256}"

lemma pages_of_pos [simp]: "0 < pages_of k"
  by (simp add: pages_of_def)

lemma pages_of_Suc: "12 \<le> k \<Longrightarrow> pages_of (Suc k) = 2 * pages_of k"
  by (simp add: pages_of_def Suc_diff_le flip: power_Suc)

lemma pages_of_dvd: "k \<le> l \<Longrightarrow> pages_of k dvd pages_of l"
  by (simp add: pages_of_def le_imp_power_dvd diff_le_mono)

lemma pages_of_bound: "k \<le> 20 \<Longrightarrow> pages_of k dvd 256"
  using pages_of_dvd[of k 20] by (simp add: pages_of_def)

lemma mem_area: "j \<in> area (i, k) \<longleftrightarrow> i \<le> j \<and> j < i + pages_of k"
  by (simp add: area_def)

lemma start_in_area [simp]: "i \<in> area (i, k)"
  by (simp add: area_def)

text \<open>An aligned block holds the pages with the same quotient.\<close>

lemma aligned_mem_area:
  assumes "pages_of k dvd i"
  shows "j \<in> area (i, k) \<longleftrightarrow> j div pages_of k = i div pages_of k"
proof -
  obtain q where q: "i = q * pages_of k"
    using assms by (metis dvd_div_mult_self)
  have "j \<in> area (i, k) \<longleftrightarrow> q * pages_of k \<le> j \<and> j < Suc q * pages_of k"
    by (simp add: mem_area q add.commute)
  also have "\<dots> \<longleftrightarrow> j div pages_of k = q"
    by (metis div_nat_eqI div_less_iff_less_mult less_eq_div_iff_mult_less_eq lessI
        pages_of_pos mult.commute order_refl less_Suc_eq_le le_antisym)
  finally show ?thesis using q by simp
qed

lemma tiles_aligned: "tiles T \<Longrightarrow> b \<in> T \<Longrightarrow> aligned b"
  by (simp add: tiles_def)

lemma tiles_overlap: "tiles T \<Longrightarrow> b \<in> T \<Longrightarrow> c \<in> T \<Longrightarrow> j \<in> area b \<Longrightarrow> j \<in> area c \<Longrightarrow> b = c"
  unfolding tiles_def by blast

lemma tiles_fun: "tiles T \<Longrightarrow> (i, k) \<in> T \<Longrightarrow> (i, l) \<in> T \<Longrightarrow> k = l"
  using tiles_overlap[of T "(i, k)" "(i, l)" i] by simp

lemma tiles_order: "tiles T \<Longrightarrow> (i, k) \<in> T \<Longrightarrow> 12 \<le> k \<and> k \<le> 20"
  using tiles_aligned[of T "(i, k)"] by (simp add: aligned_def)

lemma tiles_within: "tiles T \<Longrightarrow> (i, k) \<in> T \<Longrightarrow> i + pages_of k \<le> 256"
proof -
  assume T: "tiles T" "(i, k) \<in> T"
  have "i + pages_of k - 1 \<in> area (i, k)"
    using pages_of_pos[of k] by (simp add: mem_area del: pages_of_pos)
  then have "i + pages_of k - 1 \<in> {..<256}"
    using T unfolding tiles_def by blast
  then show ?thesis by simp
qed

lemma tiles_start: "tiles T \<Longrightarrow> (i, k) \<in> T \<Longrightarrow> i < 256"
  using tiles_within[of T i k] pages_of_pos[of k] by linarith

lemma tiles_cover: "tiles T \<Longrightarrow> j < 256 \<Longrightarrow> \<exists>b\<in>T. j \<in> area b"
  unfolding tiles_def by (metis UN_E lessThan_iff)

section \<open>Buddies\<close>

text \<open>In units of the block size, a buddy differs in the lowest bit.\<close>

definition mate :: "nat \<Rightarrow> nat" where
  "mate q = (if even q then q + 1 else q - 1)"

lemma XOR_1_mate: "q XOR 1 = mate q" "q XOR Suc 0 = mate q"
  by (simp_all add: mate_def xor_Suc_0_eq)

lemma mate_mate [simp]: "mate (mate q) = q"
  by (auto simp: mate_def)

lemma mate_neq [simp]: "mate q \<noteq> q"
  by (auto simp: mate_def elim: oddE)

lemma mate_div_2 [simp]: "mate q div 2 = q div 2"
  by (auto simp: mate_def elim: oddE evenE)

lemma buddy_of_mult: "buddy_of (q * pages_of k) k = mate q * pages_of k"
  by (simp add: buddy_of_def mate_def algebra_simps)

lemma aligned_mult:
  assumes "aligned (i, k)"
  obtains q where "i = q * pages_of k"
  using assms unfolding aligned_def by (metis dvd_div_mult_self snd_conv fst_conv)

lemma buddy_of_buddy_of: "aligned (i, k) \<Longrightarrow> buddy_of (buddy_of i k) k = i"
  by (elim aligned_mult) (simp add: buddy_of_mult)

lemma buddy_of_neq: "aligned (i, k) \<Longrightarrow> buddy_of i k \<noteq> i"
  by (elim aligned_mult) (simp add: buddy_of_mult)

lemma aligned_buddy: "aligned (i, k) \<Longrightarrow> aligned (buddy_of i k, k)"
  by (rule aligned_mult) (auto simp: buddy_of_mult aligned_def)

text \<open>A block is the union of its two halves, and the merger of two buddies.\<close>

lemma area_halves: "12 \<le> k \<Longrightarrow> area (i, Suc k) = area (i, k) \<union> area (i + pages_of k, k)"
  by (auto simp: area_def pages_of_Suc)

lemma halves_disjoint: "area (i, k) \<inter> area (i + pages_of k, k) = {}"
  by (auto simp: area_def)

lemma aligned_halves:
  assumes "aligned (i, Suc k)" "12 \<le> k"
  shows "aligned (i, k)" "aligned (i + pages_of k, k)" "buddy_of i k = i + pages_of k"
proof -
  obtain q where q: "i = q * pages_of (Suc k)"
    using assms(1) by (rule aligned_mult)
  then have i: "i = (2 * q) * pages_of k"
    using assms(2) by (simp add: pages_of_Suc)
  then show "buddy_of i k = i + pages_of k"
    by (simp only: buddy_of_mult) (simp add: mate_def)
  show "aligned (i, k)" "aligned (i + pages_of k, k)"
    using assms i by (auto simp: aligned_def)
qed

lemma buddy_left:
  assumes "aligned (i, k)" "k < 20"
  shows "aligned (min i (buddy_of i k), Suc k)"
    and "max i (buddy_of i k) = min i (buddy_of i k) + pages_of k"
proof -
  obtain q where q: "i = q * pages_of k"
    using assms(1) by (rule aligned_mult)
  have k: "12 \<le> k"
    using assms(1) by (simp add: aligned_def)
  show "aligned (min i (buddy_of i k), Suc k)"
  proof (cases "even q")
    case True
    then have "min i (buddy_of i k) = q * pages_of k"
      using q by (simp add: buddy_of_def)
    with True k assms(2) show ?thesis by (auto simp: aligned_def pages_of_Suc elim!: evenE)
  next
    case False
    then have "min i (buddy_of i k) = (q - 1) * pages_of k"
      using q by (simp add: buddy_of_def algebra_simps)
    with False k assms(2) show ?thesis by (auto simp: aligned_def pages_of_Suc elim!: oddE)
  qed
  show "max i (buddy_of i k) = min i (buddy_of i k) + pages_of k"
    using q by (auto simp: buddy_of_def elim!: oddE)
qed

section \<open>Operations on tilings\<close>

lemma tiles_replace:
  assumes T: "tiles T" and S: "S \<subseteq> T"
    and R: "\<forall>b\<in>R. aligned b" "\<forall>b\<in>R. \<forall>c\<in>R. b \<noteq> c \<longrightarrow> area b \<inter> area c = {}"
    and eq: "(\<Union>b\<in>R. area b) = (\<Union>b\<in>S. area b)"
  shows "tiles (R \<union> (T - S))"
proof -
  have cross: "area b \<inter> area c = {}" if "b \<in> R" "c \<in> T - S" for b c
  proof -
    have "area b \<subseteq> (\<Union>b\<in>S. area b)" using eq that(1) by blast
    moreover have "area s \<inter> area c = {}" if "s \<in> S" for s
      using T S that \<open>c \<in> T - S\<close> unfolding tiles_def by (metis DiffE subsetD)
    ultimately show ?thesis by fastforce
  qed
  have "(\<Union>b\<in>R \<union> (T - S). area b) = (\<Union>b\<in>T. area b)"
    using eq S by blast
  moreover have "area b \<inter> area c = {}"
    if "b \<in> R \<union> (T - S)" "c \<in> R \<union> (T - S)" "b \<noteq> c" for b c
  proof -
    have "area b \<inter> area c = {}" if "b \<in> T" "c \<in> T"
      using T that \<open>b \<noteq> c\<close> unfolding tiles_def by blast
    then show ?thesis
      using that R(2) cross[of b c] cross[of c b] by (auto simp: Int_commute)
  qed
  ultimately show ?thesis
    using T R(1) unfolding tiles_def by auto
qed

lemma tiles_split:
  assumes "tiles T" "(i, Suc k) \<in> T" "12 \<le> k"
  shows "tiles ({(i, k), (buddy_of i k, k)} \<union> (T - {(i, Suc k)}))"
proof (rule tiles_replace[OF assms(1)])
  have al: "aligned (i, Suc k)" using assms(1,2) by (rule tiles_aligned)
  note h = aligned_halves[OF al assms(3)]
  show "{(i, Suc k)} \<subseteq> T" using assms(2) by simp
  show "\<forall>b\<in>{(i, k), (buddy_of i k, k)}. aligned b" using h by simp
  show "\<forall>b\<in>{(i, k), (buddy_of i k, k)}. \<forall>c\<in>{(i, k), (buddy_of i k, k)}.
      b \<noteq> c \<longrightarrow> area b \<inter> area c = {}"
    using h(3) halves_disjoint[of i k] by (auto simp: Int_commute)
  show "(\<Union>b\<in>{(i, k), (buddy_of i k, k)}. area b) = (\<Union>b\<in>{(i, Suc k)}. area b)"
    using h(3) area_halves[OF assms(3), of i] by simp
qed

lemma tiles_merge:
  assumes "tiles T" "(i, k) \<in> T" "(buddy_of i k, k) \<in> T" "k < 20"
  shows "tiles ({(min i (buddy_of i k), Suc k)} \<union> (T - {(i, k), (buddy_of i k, k)}))"
proof (rule tiles_replace[OF assms(1)])
  have al: "aligned (i, k)" using assms(1,2) by (rule tiles_aligned)
  let ?l = "min i (buddy_of i k)"
  have "{i, buddy_of i k} = {?l, ?l + pages_of k}"
    using buddy_left(2)[OF al assms(4)] by (auto simp: min_def max_def split: if_splits)
  then have "{(i, k), (buddy_of i k, k)} = {(?l, k), (?l + pages_of k, k)}"
    by (auto simp: doubleton_eq_iff)
  moreover have "12 \<le> k" using al by (simp add: aligned_def)
  ultimately show "(\<Union>b\<in>{(?l, Suc k)}. area b) = (\<Union>b\<in>{(i, k), (buddy_of i k, k)}. area b)"
    using area_halves[of k ?l] by simp
  show "\<forall>b\<in>{(?l, Suc k)}. aligned b" using buddy_left(1)[OF al assms(4)] by simp
qed (use assms in auto)

text \<open>
  The buddy of a block of the tiling starts a block itself, one that is not larger.
\<close>

lemma tiles_buddy:
  assumes T: "tiles T" and b: "(i, k) \<in> T" "k < 20"
  shows "\<exists>l\<le>k. (buddy_of i k, l) \<in> T"
proof -
  have al: "aligned (i, k)" using T b(1) by (rule tiles_aligned)
  then obtain q where q: "i = q * pages_of k"
    by (rule aligned_mult)
  have k: "12 \<le> k" using al by (simp add: aligned_def)
  let ?P = "pages_of k" and ?b = "buddy_of i k"
  have bq: "?b = mate q * ?P" using q by (simp add: buddy_of_mult)
  have same: "?b div pages_of l = i div pages_of l" if "k < l" for l
  proof -
    have "pages_of (Suc k) dvd pages_of l" using that by (intro pages_of_dvd) simp
    then obtain m where "pages_of l = 2 * ?P * m"
      using k by (auto simp: pages_of_Suc elim: dvdE)
    then have "x div pages_of l = x div ?P div 2 div m" for x
      by (simp only: mult.commute[of 2] div_mult2_eq)
    then show ?thesis using q bq by simp
  qed
  have "?b < 256"
  proof -
    have "?b div 256 = i div 256"
      using same[of 20] b(2) by (simp add: pages_of_def)
    then show ?thesis using tiles_start[OF T b(1)] by (simp add: div_eq_0_iff)
  qed
  then obtain j l where c: "(j, l) \<in> T" "?b \<in> area (j, l)"
    using tiles_cover[OF T, of ?b] by auto
  have l: "pages_of l dvd j" using tiles_aligned[OF T c(1)] by (simp add: aligned_def)
  have div: "?b div pages_of l = j div pages_of l"
    using c(2) aligned_mem_area[OF l] by simp
  show ?thesis
  proof (cases "k < l")
    case True
    then have "i \<in> area (j, l)"
      using div same aligned_mem_area[OF l] by simp
    then have "(i, k) = (j, l)"
      using tiles_overlap[OF T b(1) c(1), of i] by simp
    with True show ?thesis by simp
  next
    case False
    then have "pages_of l dvd ?b"
      using bq pages_of_dvd[of l k] by (simp add: dvd_mult)
    then have "?b = j" using div l by (metis dvd_div_mult_self)
    with False c(1) show ?thesis by (intro exI[of _ l]) simp
  qed
qed

text \<open>
  A tiling without a pair of buddies of equal size is the whole memory as one block.
\<close>

lemma tiles_coalesced:
  assumes T: "tiles T" and co: "\<forall>(i, k)\<in>T. k < 20 \<longrightarrow> (buddy_of i k, k) \<notin> T"
  shows "T = {(0, 20)}"
proof -
  have all20: "k = 20" if "(i, k) \<in> T" for i k
    using that
  proof (induction k arbitrary: i rule: less_induct)
    case (less k)
    show ?case
    proof (rule ccontr)
      assume "k \<noteq> 20"
      with tiles_order[OF T less.prems] have "k < 20" by simp
      then obtain l where l: "l \<le> k" "(buddy_of i k, l) \<in> T"
        using tiles_buddy[OF T less.prems] by auto
      moreover have "l \<noteq> k" using co less.prems \<open>k < 20\<close> l(2) by auto
      ultimately have "l = 20" by (intro less.IH) auto
      with l(1) \<open>k < 20\<close> show False by simp
    qed
  qed
  have "(i, k) = (0, 20)" if "(i, k) \<in> T" for i k
    using all20[OF that] tiles_within[OF T that] by (simp add: pages_of_def)
  moreover have "T \<noteq> {}" using tiles_cover[OF T, of 0] by auto
  ultimately show ?thesis by auto
qed

text \<open>Aligned blocks are nested or disjoint, and the buddy of a nested block is nested too.\<close>

lemma div_pages_of_mono:
  assumes "l \<le> k" "x div pages_of l = y div pages_of l"
  shows "x div pages_of k = y div pages_of k"
proof -
  obtain m where "pages_of k = pages_of l * m"
    using pages_of_dvd[OF assms(1)] by (auto elim: dvdE)
  then show ?thesis using assms(2) by (simp add: div_mult2_eq)
qed

lemma aligned_nested:
  assumes "aligned (i, l)" "aligned (j, k)" "l \<le> k" "x \<in> area (i, l)" "x \<in> area (j, k)"
  shows "area (i, l) \<subseteq> area (j, k)"
proof
  fix y assume "y \<in> area (i, l)"
  moreover have d: "pages_of l dvd i" "pages_of k dvd j"
    using assms(1,2) by (simp_all add: aligned_def)
  ultimately have "y div pages_of l = x div pages_of l"
    using assms(4) aligned_mem_area by simp
  then have "y div pages_of k = x div pages_of k" by (rule div_pages_of_mono[OF assms(3)])
  then show "y \<in> area (j, k)" using assms(5) aligned_mem_area[OF d(2)] by simp
qed

lemma buddy_in_area:
  assumes "aligned (i, l)" "aligned (j, k)" "l < k" "i \<in> area (j, k)"
  shows "buddy_of i l \<in> area (j, k)"
proof -
  have l: "12 \<le> l" and d: "pages_of k dvd j" using assms(1,2) by (simp_all add: aligned_def)
  obtain q where q: "i = q * pages_of l" using assms(1) by (rule aligned_mult)
  have "pages_of (Suc l) = pages_of l * 2" using l by (simp add: pages_of_Suc)
  then have "buddy_of i l div pages_of (Suc l) = i div pages_of (Suc l)"
    by (simp add: q buddy_of_mult div_mult2_eq)
  then have "buddy_of i l div pages_of k = i div pages_of k"
    by (rule div_pages_of_mono[rotated]) (use assms(3) in simp)
  then show ?thesis using assms(4) aligned_mem_area[OF d] by simp
qed

text \<open>
  In a tiling whose blocks \<open>F\<close> hold no two buddies, an aligned area that only blocks of
  \<open>F\<close> meet lies in one of them: coalescing leaves no fragmented room.
\<close>

lemma tiles_room:
  assumes T: "tiles T" and F: "F \<subseteq> T" and co: "\<forall>(i, k)\<in>F. k < 20 \<longrightarrow> (buddy_of i k, k) \<notin> F"
    and al: "aligned (j, k)" and j: "j < 256"
    and free: "\<And>b. b \<in> T - F \<Longrightarrow> area b \<inter> area (j, k) = {}"
  shows "\<exists>i l. (i, l) \<in> F \<and> k \<le> l \<and> area (j, k) \<subseteq> area (i, l)"
proof -
  have k: "k \<le> 20" using al by (simp add: aligned_def)
  have none: "i \<notin> area (j, k)" if "(i, l) \<in> T" "l < k" for i l
    using that
  proof (induction l arbitrary: i rule: less_induct)
    case (less l)
    show ?case
    proof
      assume i: "i \<in> area (j, k)"
      then have iF: "(i, l) \<in> F" using free[of "(i, l)"] less.prems start_in_area by blast
      have "l < 20" using less.prems(2) k by simp
      from tiles_buddy[OF T less.prems(1) this] obtain m where m: "m \<le> l" "(buddy_of i l, m) \<in> T"
        by blast
      have b: "buddy_of i l \<in> area (j, k)"
        by (rule buddy_in_area[OF tiles_aligned[OF T less.prems(1)] al less.prems(2) i])
      then have "m = l" using less.IH[OF _ m(2)] m(1) less.prems(2) by fastforce
      moreover have "(buddy_of i l, m) \<in> F" using free[OF DiffI[OF m(2)]] b start_in_area by blast
      ultimately show False using co iF \<open>l < 20\<close> by auto
    qed
  qed
  obtain i l where b: "(i, l) \<in> T" "j \<in> area (i, l)" using tiles_cover[OF T j] by auto
  then have iF: "(i, l) \<in> F" using free[of "(i, l)"] start_in_area[of j k] by blast
  show ?thesis
  proof (cases "k \<le> l")
    case True
    from aligned_nested[OF al tiles_aligned[OF T b(1)] True start_in_area b(2)]
    show ?thesis using iF True by blast
  next
    case False
    then have l: "l < k" by simp
    from aligned_nested[OF tiles_aligned[OF T b(1)] al less_imp_le[OF l] b(2) start_in_area]
    have "i \<in> area (j, k)" by auto
    with none[OF b(1) l] show ?thesis by simp
  qed
qed

text \<open>The free blocks of a coalesced tiling are determined by the other blocks.\<close>

lemma area_antisym: "area (i, k) = area (j, l) \<Longrightarrow> i = j"
  by (metis order_antisym start_in_area mem_area)

lemma coalesced_unique_subset:
  assumes "tiles (F \<union> A)" "tiles (G \<union> A)" "F \<inter> A = {}" "G \<inter> A = {}"
    and co: "\<forall>(i, k)\<in>F. k < 20 \<longrightarrow> (buddy_of i k, k) \<notin> F"
      "\<forall>(i, k)\<in>G. k < 20 \<longrightarrow> (buddy_of i k, k) \<notin> G"
  shows "F \<subseteq> G"
proof
  have room: "\<exists>i l. (i, l) \<in> G' \<and> k \<le> l \<and> area (j, k) \<subseteq> area (i, l)"
    if "(j, k) \<in> F'" "tiles (F' \<union> A)" "tiles (G' \<union> A)" "F' \<inter> A = {}"
      "\<forall>(i, k)\<in>G'. k < 20 \<longrightarrow> (buddy_of i k, k) \<notin> G'" for F' G' j k
  proof (rule tiles_room[OF that(3) _ that(5)])
    have T: "(j, k) \<in> F' \<union> A" using that(1) by simp
    show "aligned (j, k)" "j < 256" using tiles_aligned[OF that(2) T] tiles_start[OF that(2) T] .
    show "area b \<inter> area (j, k) = {}" if b: "b \<in> G' \<union> A - G'" for b
    proof -
      have "b \<in> F' \<union> A" "b \<noteq> (j, k)" using b \<open>(j, k) \<in> F'\<close> \<open>F' \<inter> A = {}\<close> by blast+
      then show ?thesis using T \<open>tiles (F' \<union> A)\<close> unfolding tiles_def by blast
    qed
  qed blast
  fix b assume "b \<in> F"
  then obtain j k where b: "b = (j, k)" "(j, k) \<in> F" by (cases b) auto
  from room[OF b(2) assms(1,2,3) co(2)] obtain i l where
    g: "(i, l) \<in> G" "k \<le> l" "area (j, k) \<subseteq> area (i, l)" by blast
  from room[OF g(1) assms(2,1,4) co(1)] obtain i' l' where
    f: "(i', l') \<in> F" "l \<le> l'" "area (i, l) \<subseteq> area (i', l')" by blast
  have "j \<in> area (i', l')" using g(3) f(3) start_in_area by blast
  then have "(j, k) = (i', l')"
    using tiles_overlap[OF assms(1), of "(j, k)" "(i', l')" j] b(2) f(1) start_in_area by blast
  then have "area (j, k) = area (i, l)" "k = l" using g f by auto
  then show "b \<in> G" using g(1) b(1) area_antisym by blast
qed

lemma tiles_whole: "tiles {(0, 20)}"
  by (auto simp: tiles_def aligned_def area_def pages_of_def)

end
