(* ===== verification/Buddy_Correct.thy ===== *)
theory Buddy_Correct
  imports Buddy Tiling
begin

text \<open>
  Correctness of the buddy allocator. \<open>buddy_inv A P fl s\<close> relates a state \<open>s\<close> to the
  free lists \<open>fl\<close> it represents, the live blocks \<open>A\<close> and the blocks \<open>P\<close> in transit inside
  an operation. The first part moves each list operation to \<open>fl\<close>; the second follows the
  helpers \<open>buddy_split\<close>, \<open>buddy_combine\<close> and \<open>insert_free\<close>; the third states the contract
  of the interface functions.
\<close>

section \<open>The invariant\<close>

definition lists_ok :: "node links \<Rightarrow> (nat \<Rightarrow> nat list) \<Rightarrow> bool" where
  "lists_ok h fl \<longleftrightarrow>
     (\<forall>k. 12 \<le> k \<and> k \<le> 20 \<longrightarrow> dll h (FreeArea k) (map PageNode (fl k))) \<and>
     (\<forall>k. \<not> (12 \<le> k \<and> k \<le> 20) \<longrightarrow> fl k = []) \<and>
     (\<forall>i k l. i \<in> set (fl k) \<longrightarrow> i \<in> set (fl l) \<longrightarrow> k = l)"

definition free_blocks :: "(nat \<Rightarrow> nat list) \<Rightarrow> block set" where
  "free_blocks fl = {(i, k). i \<in> set (fl k)}"

text \<open>
  \<open>T\<close> holds all blocks, \<open>A\<close> the live ones. The flag \<open>is_free\<close> is cleared exactly at the
  first page of a live block: \<open>buddy_split\<close> relies on it being set everywhere else.
\<close>

definition pages_ok :: "block set \<Rightarrow> block set \<Rightarrow> page_t list \<Rightarrow> bool" where
  "pages_ok T A pg \<longleftrightarrow> length pg = N_PAGES
     \<and> (\<forall>i<N_PAGES. index (pg ! i) = i \<and> (is_free (pg ! i) \<longleftrightarrow> i \<notin> fst ` A))
     \<and> (\<forall>b\<in>T. block_size (pg ! fst b) = snd b)"

definition all_blocks :: "block set \<Rightarrow> block set \<Rightarrow> (nat \<Rightarrow> nat list) \<Rightarrow> block set" where
  "all_blocks A P fl = free_blocks fl \<union> P \<union> A"

definition buddy_inv :: "block set \<Rightarrow> block set \<Rightarrow> (nat \<Rightarrow> nat list) \<Rightarrow> buddy \<Rightarrow> bool" where
  "buddy_inv A P fl s \<longleftrightarrow> lists_ok (links s) fl \<and> tiles (all_blocks A P fl)
     \<and> free_blocks fl \<inter> P = {} \<and> (free_blocks fl \<union> P) \<inter> A = {}
     \<and> pages_ok (all_blocks A P fl) A (pages s) \<and> (\<forall>k. sorted_wrt (<) (fl k))"

definition coalesced :: "block set \<Rightarrow> bool" where
  "coalesced F \<longleftrightarrow> (\<forall>(i, k)\<in>F. k < MAX_ORDER \<longrightarrow> (buddy_of i k, k) \<notin> F)"

text \<open>The invariant between two calls, for the set of live blocks.\<close>

definition buddy_ok :: "block set \<Rightarrow> buddy \<Rightarrow> bool" where
  "buddy_ok A s \<longleftrightarrow> (\<exists>fl. buddy_inv A {} fl s \<and> coalesced (free_blocks fl))"

lemma mem_free_blocks [simp]: "(i, k) \<in> free_blocks fl \<longleftrightarrow> i \<in> set (fl k)"
  by (simp add: free_blocks_def)

lemma free_blocks_upd:
  "free_blocks (fl(k := xs)) = (free_blocks fl - {(i, l). l = k}) \<union> {(i, l). l = k \<and> i \<in> set xs}"
  by (auto simp: free_blocks_def split: if_splits)

lemma coalesced_subset: "coalesced F \<Longrightarrow> G \<subseteq> F \<Longrightarrow> coalesced G"
  unfolding coalesced_def by blast

section \<open>The linked lists as a family of lists\<close>

lemma PageNode_image [simp]: "PageNode i \<in> PageNode ` S \<longleftrightarrow> i \<in> S" "FreeArea k \<notin> PageNode ` S"
  by auto

lemma lists_ok_dll: "lists_ok h fl \<Longrightarrow> 12 \<le> k \<Longrightarrow> k \<le> 20 \<Longrightarrow> dll h (FreeArea k) (map PageNode (fl k))"
  by (simp add: lists_ok_def)

lemma lists_ok_order: "lists_ok h fl \<Longrightarrow> i \<in> set (fl k) \<Longrightarrow> 12 \<le> k \<and> k \<le> 20"
  unfolding lists_ok_def by (metis empty_iff list.set(1))

lemma lists_ok_inj: "lists_ok h fl \<Longrightarrow> i \<in> set (fl k) \<Longrightarrow> i \<in> set (fl l) \<Longrightarrow> k = l"
  unfolding lists_ok_def by blast

lemma lists_ok_distinct: "lists_ok h fl \<Longrightarrow> distinct (fl k)"
  unfolding lists_ok_def dll_def by (metis distinct.simps distinct_map)

text \<open>Replacing one list, when the stores changed only at nodes of this list and \<open>i\<close>.\<close>

lemma lists_ok_upd:
  assumes ok: "lists_ok h fl" and k: "12 \<le> k" "k \<le> 20"
    and d: "dll h' (FreeArea k) (map PageNode xs)"
    and same: "same_at (- insert (PageNode i) (insert (FreeArea k) (PageNode ` set (fl k)))) h h'"
    and xs: "set xs \<subseteq> insert i (set (fl k))" and i: "\<And>l. l \<noteq> k \<Longrightarrow> i \<notin> set (fl l)"
  shows "lists_ok h' (fl(k := xs))"
proof -
  have "dll h' (FreeArea l) (map PageNode (fl l))" if "12 \<le> l" "l \<le> 20" "l \<noteq> k" for l
  proof (rule dll_frame)
    show "dll h (FreeArea l) (map PageNode (fl l))" using ok that by (simp add: lists_ok_def)
    show "same_at (insert (FreeArea l) (set (map PageNode (fl l)))) h h'"
      using same by (rule same_at_mono) (use that i lists_ok_inj[OF ok] in auto)
  qed
  then show ?thesis
    using ok k d xs i unfolding lists_ok_def
    by (auto simp: subset_iff)
qed

lemma lists_ok_del:
  assumes ok: "lists_ok h fl" and k: "12 \<le> k" "k \<le> 20" and fl: "fl k = xs @ i # ys"
  obtains h' where "list_del (PageNode i) h = Some h'" "lists_ok h' (fl(k := xs @ ys))"
proof -
  have "dll h (FreeArea k) (map PageNode xs @ PageNode i # map PageNode ys)"
    using lists_ok_dll[OF ok k] fl by simp
  then obtain h' where h': "list_del (PageNode i) h = Some h'"
    "dll h' (FreeArea k) (map PageNode xs @ map PageNode ys)"
    "same_at (- insert (PageNode i) (insert (FreeArea k) (set (map PageNode xs @ map PageNode ys)))) h h'"
    by (rule list_del_refines)
  have "lists_ok h' (fl(k := xs @ ys))"
  proof (rule lists_ok_upd[OF ok k])
    show "same_at (- insert (PageNode i) (insert (FreeArea k) (PageNode ` set (fl k)))) h h'"
      using h'(3) by (rule same_at_mono) (auto simp: fl)
  qed (use h' fl lists_ok_inj[OF ok, of i] in auto)
  then show thesis using that h'(1) by blast
qed

lemma lists_ok_add:
  assumes ok: "lists_ok h fl" and k: "12 \<le> k" "k \<le> 20" and i: "\<And>l. i \<notin> set (fl l)"
  obtains h' where "list_add (PageNode i) (FreeArea k) h = Some h'" "lists_ok h' (fl(k := i # fl k))"
proof -
  obtain h' where h': "list_add (PageNode i) (FreeArea k) h = Some h'"
    "dll h' (FreeArea k) (PageNode i # map PageNode (fl k))"
    "same_at (- insert (PageNode i) (insert (FreeArea k) (set (map PageNode (fl k))))) h h'"
    by (rule list_add_refines[OF lists_ok_dll[OF ok k], of "PageNode i"]) (use i in auto)
  have "lists_ok h' (fl(k := i # fl k))"
    by (rule lists_ok_upd[OF ok k, of _ _ i]) (use h' i in auto)
  then show thesis using that h'(1) by blast
qed

lemma lists_ok_add_tail:
  assumes ok: "lists_ok h fl" and k: "12 \<le> k" "k \<le> 20" and i: "\<And>l. i \<notin> set (fl l)"
    and fl: "fl k = xs @ ys"
  obtains h' where "list_add_tail (PageNode i) (after (FreeArea k) (map PageNode ys)) h = Some h'"
    "lists_ok h' (fl(k := xs @ i # ys))"
proof -
  have d: "dll h (FreeArea k) (map PageNode xs @ map PageNode ys)"
    using lists_ok_dll[OF ok k] fl by simp
  have n: "PageNode i \<notin> insert (FreeArea k) (set (map PageNode xs @ map PageNode ys))"
    using i[of k] fl by auto
  obtain h' where h': "list_add_tail (PageNode i) (after (FreeArea k) (map PageNode ys)) h = Some h'"
    "dll h' (FreeArea k) (map PageNode xs @ PageNode i # map PageNode ys)"
    "same_at (- insert (PageNode i) (insert (FreeArea k) (set (map PageNode xs @ map PageNode ys)))) h h'"
    by (rule list_add_tail_refines[OF d n])
  have "lists_ok h' (fl(k := xs @ i # ys))"
  proof (rule lists_ok_upd[OF ok k])
    show "same_at (- insert (PageNode i) (insert (FreeArea k) (PageNode ` set (fl k)))) h h'"
      using h'(3) by (rule same_at_mono) (auto simp: fl)
  qed (use h' fl i in auto)
  then show thesis using that h'(1) by blast
qed

section \<open>Addresses\<close>

lemma PAGE_TO_ADDR_mult: "12 \<le> k \<Longrightarrow> PAGE_TO_ADDR (q * pages_of k) = q * 2 ^ k"
proof -
  assume "12 \<le> k"
  then have "(2::nat) ^ k = 2 ^ (k - 12) * 2 ^ 12"
    by (simp only: le_add_diff_inverse2 flip: power_add)
  then show ?thesis by (simp add: PAGE_TO_ADDR_def pages_of_def)
qed

lemma ADDR_TO_PAGE_TO_ADDR [simp]: "ADDR_TO_PAGE (PAGE_TO_ADDR i) = i"
  by (simp add: ADDR_TO_PAGE_def PAGE_TO_ADDR_def)

lemma BUDDY_ADDR_mult: "BUDDY_ADDR (q * 2 ^ k) k = mate q * 2 ^ k"
proof -
  have "push_bit k q XOR push_bit k 1 = push_bit k (q XOR 1)"
    by (simp only: push_bit_xor)
  then show ?thesis
    by (simp add: BUDDY_ADDR_def push_bit_eq_mult XOR_1_mate)
qed

lemma BUDDY_ADDR_page:
  assumes "aligned (i, k)"
  shows "ADDR_TO_PAGE (BUDDY_ADDR (PAGE_TO_ADDR i) k) = buddy_of i k"
proof -
  obtain q where q: "i = q * pages_of k" using assms by (rule aligned_mult)
  have k: "12 \<le> k" using assms by (simp add: aligned_def)
  have "BUDDY_ADDR (PAGE_TO_ADDR i) k = PAGE_TO_ADDR (mate q * pages_of k)"
    using k q by (simp add: PAGE_TO_ADDR_mult BUDDY_ADDR_mult)
  then show ?thesis using q by (simp add: buddy_of_mult)
qed

section \<open>The helpers\<close>

lemma buddy_invD:
  assumes "buddy_inv A P fl s"
  shows "lists_ok (links s) fl" "tiles (all_blocks A P fl)"
    "free_blocks fl \<inter> P = {}" "(free_blocks fl \<union> P) \<inter> A = {}"
    "pages_ok (all_blocks A P fl) A (pages s)" "sorted_wrt (<) (fl k)"
  using assms by (simp_all add: buddy_inv_def)

lemma buddy_inv_disjoint:
  assumes "buddy_inv A P fl s"
  shows "i \<in> set (fl k) \<Longrightarrow> (i, k) \<notin> P" "i \<in> set (fl k) \<Longrightarrow> (i, k) \<notin> A"
    "(i, k) \<in> P \<Longrightarrow> (i, k) \<notin> A"
  using buddy_invD(3,4)[OF assms] by (metis IntI Un_iff empty_iff mem_free_blocks)+

lemma pages_okD:
  assumes "pages_ok T A pg"
  shows "length pg = 256" "i < 256 \<Longrightarrow> index (pg ! i) = i"
    "i < 256 \<Longrightarrow> is_free (pg ! i) \<longleftrightarrow> i \<notin> fst ` A"
    "(i, k) \<in> T \<Longrightarrow> block_size (pg ! i) = k"
  using assms unfolding pages_ok_def by fastforce+

lemma mem_all_blocks:
  "(i, k) \<in> all_blocks A P fl \<longleftrightarrow> i \<in> set (fl k) \<or> (i, k) \<in> P \<or> (i, k) \<in> A"
  by (auto simp: all_blocks_def)

text \<open>A page that starts a block other than the listed ones is on no list.\<close>

lemma not_listed:
  assumes "buddy_inv A P fl s" "(i, k) \<in> P \<union> A"
  shows "i \<notin> set (fl l)"
proof
  assume i: "i \<in> set (fl l)"
  note I = buddy_invD[OF assms(1)]
  have "l = k"
    using i assms(2) by (intro tiles_fun[OF I(2), of i]) (auto simp: mem_all_blocks)
  with i assms(2) buddy_inv_disjoint[OF assms(1), of i k] show False by auto
qed

text \<open>A free or pending block is not the start of a live one.\<close>

lemma not_live:
  assumes "buddy_inv A P fl s" "i \<in> set (fl k) \<or> (i, k) \<in> P"
  shows "i \<notin> fst ` A"
proof
  assume "i \<in> fst ` A"
  then obtain l where l: "(i, l) \<in> A" by auto
  note I = buddy_invD[OF assms(1)]
  have "l = k"
    using l assms(2) by (intro tiles_fun[OF I(2), of i]) (auto simp: mem_all_blocks)
  with l assms(2) buddy_inv_disjoint[OF assms(1), of i k] show False by auto
qed

lemma set_block_size_simps [simp]:
  "length (set_block_size i k pg) = length pg"
  "length (set_is_free i b pg) = length pg"
  by (simp_all add: set_block_size_def set_is_free_def)

lemma nth_set_block_size [simp]:
  "i < length pg \<Longrightarrow> set_block_size i k pg ! j = (if j = i then (pg ! i)\<lparr>block_size := k\<rparr> else pg ! j)"
  "i < length pg \<Longrightarrow> set_is_free i b pg ! j = (if j = i then (pg ! i)\<lparr>is_free := b\<rparr> else pg ! j)"
  by (simp_all add: set_block_size_def set_is_free_def nth_list_update)

text \<open>Setting the size of the pages that start new blocks.\<close>

lemma pages_ok_set_block_size:
  assumes "pages_ok T A pg" "i < 256" "\<And>l. (i, l) \<notin> T"
  shows "pages_ok (insert (i, k) T) A (set_block_size i k pg)"
  using assms unfolding pages_ok_def by (auto split: prod.splits)

lemma pages_ok_mono: "pages_ok T A pg \<Longrightarrow> U \<subseteq> T \<Longrightarrow> pages_ok U A pg"
  unfolding pages_ok_def by blast

lemma list_page_first:
  assumes "buddy_inv A P fl s" "fl k = i # is"
  shows "list_page s (next_of (links s) (FreeArea k)) = Some i"
proof -
  note I = buddy_invD[OF assms(1)]
  have k: "12 \<le> k" "k \<le> 20" using lists_ok_order[OF I(1), of i k] assms(2) by auto
  have "next_of (links s) (FreeArea k) = At (PageNode i)"
    using lists_ok_dll[OF I(1) k] assms(2) by (auto simp: dll_def)
  moreover have "i < 256"
    using tiles_start[OF I(2), of i k] assms(2) by (simp add: mem_all_blocks)
  ultimately show ?thesis
    using pages_okD(1)[OF I(5)] by (simp add: list_page_def)
qed

text \<open>
  \<open>buddy_split\<close> on a non-empty list replaces its first block by the two halves, left half
  first, on the next lower list.
\<close>

lemma buddy_split_ok:
  assumes inv: "buddy_inv A {} fl s" and k: "12 \<le> k"
    and fl: "fl (Suc k) = i # is" "fl k = []"
  obtains s' where "buddy_split (Suc k) s = Some s'"
    "buddy_inv A {} (fl(Suc k := is, k := [i, buddy_of i k])) s'"
proof -
  note I = buddy_invD[OF inv]
  let ?b = "buddy_of i k" and ?T = "all_blocks A {} fl"
  let ?fl1 = "fl(Suc k := is)" and ?fl = "fl(Suc k := is, k := [i, buddy_of i k])"
  have k': "Suc k \<le> 20" using lists_ok_order[OF I(1), of i "Suc k"] fl by simp
  have mem: "(i, Suc k) \<in> ?T" using fl by (simp add: mem_all_blocks)
  have al: "aligned (i, Suc k)" using I(2) mem by (rule tiles_aligned)
  note half = aligned_halves[OF al k]
  have T': "tiles ({(i, k), (?b, k)} \<union> (?T - {(i, Suc k)}))"
    using tiles_split[OF I(2) mem k] .
  have i: "i < 256" and b: "?b < 256"
    using tiles_start[OF T', of i k] tiles_start[OF T', of ?b k] by simp_all
  have d: "i \<notin> set is" using lists_ok_distinct[OF I(1), of "Suc k"] fl by simp
  have eq: "all_blocks A {} ?fl = {(i, k), (?b, k)} \<union> (?T - {(i, Suc k)})"
    using fl d buddy_inv_disjoint(2)[OF inv, of i "Suc k"]
    by (auto simp: mem_all_blocks split: if_splits)
  \<comment> \<open>neither half starts another block\<close>
  have fresh: "(x, l) \<notin> ?T - {(i, Suc k)}" if "x \<in> {i, ?b}" for x l
  proof
    assume x: "(x, l) \<in> ?T - {(i, Suc k)}"
    with that have "l = k" by (intro tiles_fun[OF T', of x]) auto
    with x fl(2) have "(x, k) \<in> A" by (simp add: mem_all_blocks)
    have "(x, k) \<in> ?T" using x \<open>l = k\<close> by simp
    moreover have "x \<in> area (i, Suc k)"
      using that half(3) k by (auto simp: mem_area pages_of_Suc)
    ultimately have "(x, k) = (i, Suc k)" using mem by (intro tiles_overlap[OF I(2)]) auto
    then show False by simp
  qed
  have other: "x \<notin> set (?fl1 l)" if "x \<in> {i, ?b}" for x l
  proof
    assume x: "x \<in> set (?fl1 l)"
    then have "(x, l) \<in> ?T" using fl by (auto simp: mem_all_blocks split: if_splits)
    moreover have "(x, l) \<noteq> (i, Suc k)" using x d by auto
    ultimately show False using fresh[OF that] by blast
  qed
  obtain h1 where h1: "list_del (PageNode i) (links s) = Some h1" "lists_ok h1 ?fl1"
    using lists_ok_del[OF I(1), of "Suc k" "[]" i "is"] k k' fl by auto
  obtain h2 where h2: "list_add (PageNode ?b) (FreeArea k) h1 = Some h2"
      "lists_ok h2 (?fl1(k := [?b]))"
    using lists_ok_add[OF h1(2) k, of ?b] k' fl other[of ?b] by auto
  have n: "i \<notin> set ((?fl1(k := [?b])) l)" for l
    using other[of i l] buddy_of_neq[OF half(1)] by auto
  have "k \<le> 20" using k' by simp
  then obtain h3 where h3: "list_add (PageNode i) (FreeArea k) h2 = Some h3"
      "lists_ok h3 ((?fl1(k := [?b]))(k := i # (?fl1(k := [?b])) k))"
    by (rule lists_ok_add[OF h2(2) k _ n])
  then have h3': "lists_ok h3 ?fl" by simp
  let ?pg = "set_block_size ?b k (set_block_size i k (pages s))"
  have "buddy_index (pages s) i k = ?b"
    using pages_okD(2)[OF I(5) i] BUDDY_ADDR_page[OF half(1)] by (simp add: buddy_index_def)
  then have run: "buddy_split (Suc k) s = Some (s\<lparr>links := h3, pages := ?pg\<rparr>)"
    using list_page_first[OF inv fl(1)] h1(1) h2(1) h3(1) b pages_okD(1)[OF I(5)]
    by (simp add: buddy_split_def Let_def)
  have "pages_ok (insert (?b, k) (insert (i, k) (?T - {(i, Suc k)}))) A ?pg"
    using fresh i b buddy_of_neq[OF half(1)] pages_ok_mono[OF I(5)]
    by (intro pages_ok_set_block_size) auto
  moreover have "insert (?b, k) (insert (i, k) (?T - {(i, Suc k)})) = all_blocks A {} ?fl"
    using eq by auto
  moreover have "free_blocks ?fl \<inter> A = {}"
  proof -
    have "(x, l) \<notin> A" if x: "x \<in> set (?fl l)" for x l
    proof (cases "l = k")
      case True
      then show ?thesis using x fresh[of x k] by (auto simp: mem_all_blocks)
    next
      case False
      then have "x \<in> set (fl l)" using x fl(1) by (auto split: if_splits)
      then show ?thesis by (rule buddy_inv_disjoint(2)[OF inv])
    qed
    then show ?thesis by (auto simp: free_blocks_def)
  qed
  moreover have "sorted_wrt (<) (?fl l)" for l
    using I(6)[of l] I(6)[of "Suc k"] fl(1) half(3) by simp
  ultimately show thesis
    using that[OF run] T' eq h3' by (simp add: buddy_inv_def)
qed

text \<open>
  One round of \<open>buddy_combine\<close>: the pending block and its free buddy become one pending
  block of the next order.
\<close>

lemma merge_ok:
  assumes inv: "buddy_inv A {(i, k)} fl s" and k: "k < 20"
    and fl: "fl k = xs @ buddy_of i k # ys"
  obtains h where "list_del (PageNode (buddy_of i k)) (links s) = Some h"
    "buddy_inv A {(min i (buddy_of i k), Suc k)} (fl(k := xs @ ys))
       (s\<lparr>links := h, pages := set_block_size (min i (buddy_of i k)) (Suc k) (pages s)\<rparr>)"
proof -
  note I = buddy_invD[OF inv]
  let ?b = "buddy_of i k" and ?T = "all_blocks A {(i, k)} fl" and ?fl = "fl(k := xs @ ys)"
  let ?m = "min i (buddy_of i k)"
  have b: "?b \<in> set (fl k)" using fl by simp
  have mem: "(i, k) \<in> ?T" "(?b, k) \<in> ?T" using b by (simp_all add: mem_all_blocks)
  have k12: "12 \<le> k" "k \<le> 20" using lists_ok_order[OF I(1) b] by simp_all
  have m: "?m \<in> {i, ?b}" by (simp add: min_def)
  have T': "tiles ({(?m, Suc k)} \<union> (?T - {(i, k), (?b, k)}))"
    by (rule tiles_merge[OF I(2) mem k])
  have d: "?b \<notin> set (xs @ ys)" using lists_ok_distinct[OF I(1), of k] fl by auto
  have il: "i \<notin> set (fl l)" for l by (rule not_listed[OF inv, of i k]) simp
  then have ixy: "i \<notin> set xs" "i \<notin> set ys" using fl by (metis Un_iff set_append list.set_intros(2))+
  have iA: "(i, k) \<notin> A" "(?b, k) \<notin> A"
    using buddy_inv_disjoint(2,3)[OF inv] b by auto
  have eq: "all_blocks A {(?m, Suc k)} ?fl = {(?m, Suc k)} \<union> (?T - {(i, k), (?b, k)})"
    using fl d ixy iA by (auto simp: mem_all_blocks split: if_splits)
  have m_only: "l = k" if "(?m, l) \<in> ?T" for l
    using m mem by (intro tiles_fun[OF I(2) that]) auto
  obtain h where h: "list_del (PageNode ?b) (links s) = Some h" "lists_ok h ?fl"
    by (rule lists_ok_del[OF I(1) k12 fl])
  let ?s = "s\<lparr>links := h, pages := set_block_size ?m (Suc k) (pages s)\<rparr>"
  have "?m < 256" using tiles_start[OF T', of ?m "Suc k"] by simp
  then have "pages_ok (insert (?m, Suc k) (?T - {(i, k), (?b, k)})) A (pages ?s)"
    using m m_only pages_ok_mono[OF I(5)]
    by simp (intro pages_ok_set_block_size, auto)
  moreover have "free_blocks ?fl \<inter> {(?m, Suc k)} = {}" "(?m, Suc k) \<notin> A"
    using m_only[of "Suc k"] by (auto simp: mem_all_blocks split: if_splits)
  moreover have "free_blocks ?fl \<inter> A = {}"
  proof -
    have "x \<in> set (fl l)" if "x \<in> set (?fl l)" for x l
      using that fl by (auto split: if_splits)
    then show ?thesis using buddy_inv_disjoint(2)[OF inv] by (auto simp: free_blocks_def)
  qed
  moreover have "sorted_wrt (<) (?fl l)" for l
    using I(6)[of l] I(6)[of k] fl by (auto simp: sorted_wrt_append)
  ultimately have "buddy_inv A {(?m, Suc k)} ?fl ?s"
    using T' h(2) eq by (simp add: buddy_inv_def)
  then show thesis using that h(1) by blast
qed

lemma buddy_combine_step:
  assumes "i < length (pages s)" "b < length (pages s)" "is_free (pages s ! b)"
    and "block_size (pages s ! b) = block_size (pages s ! i)"
    and "list_del (PageNode b) (links s) = Some h"
    and "(if index (pages s ! b) < index (pages s ! i) then b else i) = m"
    and "block_size (pages s ! m) = k"
    and "s' = s\<lparr>links := h, pages := set_block_size m (Suc k) (pages s)\<rparr>"
  shows "buddy_combine i b s = (if Suc k = MAX_ORDER then Some (m, s')
    else buddy_combine m (buddy_index (pages s') m (Suc k)) s')"
  using assms(1-5) unfolding assms(8) assms(7)[symmetric] assms(6)[symmetric]
  by (subst buddy_combine.simps) (simp add: Let_def)

lemma buddy_combine_ok:
  assumes "buddy_inv A {(i, k)} fl s" "k < 20" "coalesced (free_blocks fl)"
  shows "\<exists>j l fl' s'. buddy_combine i (buddy_of i k) s = Some (j, s') \<and> buddy_inv A {(j, l)} fl' s'
    \<and> coalesced (free_blocks fl') \<and> (l < 20 \<longrightarrow> buddy_of j l \<notin> set (fl' l))"
  using assms
proof (induction "20 - k" arbitrary: i k fl s rule: less_induct)
  case (less k)
  note inv = \<open>buddy_inv A {(i, k)} fl s\<close>
  note I = buddy_invD[OF inv]
  let ?b = "buddy_of i k" and ?T = "all_blocks A {(i, k)} fl"
  have mem: "(i, k) \<in> ?T" by (simp add: mem_all_blocks)
  have al: "aligned (i, k)" using I(2) mem by (rule tiles_aligned)
  obtain l' where l': "(?b, l') \<in> ?T" using tiles_buddy[OF I(2) mem \<open>k < 20\<close>] by blast
  have i: "i < 256" and b: "?b < 256"
    using tiles_start[OF I(2) mem] tiles_start[OF I(2) l'] by simp_all
  note pg = pages_okD[OF I(5)]
  show ?case
  proof (cases "is_free (pages s ! ?b) \<and> block_size (pages s ! ?b) = block_size (pages s ! i)")
    case False
    have "?b \<notin> set (fl k)"
    proof
      assume fb: "?b \<in> set (fl k)"
      then have "block_size (pages s ! ?b) = k" by (intro pg(4)) (simp add: mem_all_blocks)
      moreover have "is_free (pages s ! ?b)" using fb not_live[OF inv, of ?b k] pg(3)[OF b] by simp
      ultimately show False using False pg(4)[OF mem] by simp
    qed
    moreover have "buddy_combine i ?b s = Some (i, s)"
      using False i b pg(1) by (subst buddy_combine.simps) auto
    ultimately show ?thesis using inv less.prems(3) by blast
  next
    case True
    then have "l' = k" using pg(4)[OF mem] pg(4)[OF l'] by simp
    moreover have "?b \<notin> fst ` A" using True pg(3)[OF b] by simp
    then have "(?b, k) \<notin> A" by force
    ultimately have "?b \<in> set (fl k)"
      using l' buddy_of_neq[OF al] by (simp add: mem_all_blocks)
    then obtain xs ys where fl: "fl k = xs @ ?b # ys" by (meson split_list)
    let ?m = "min i ?b" and ?fl = "fl(k := xs @ ys)"
    obtain h where h: "list_del (PageNode ?b) (links s) = Some h"
      "buddy_inv A {(?m, Suc k)} ?fl
        (s\<lparr>links := h, pages := set_block_size ?m (Suc k) (pages s)\<rparr>)"
      by (rule merge_ok[OF inv \<open>k < 20\<close> fl])
    let ?s = "s\<lparr>links := h, pages := set_block_size ?m (Suc k) (pages s)\<rparr>"
    note I' = buddy_invD[OF h(2)]
    have co: "coalesced (free_blocks ?fl)"
      using less.prems(3) by (rule coalesced_subset) (auto simp: free_blocks_def fl split: if_splits)
    have "aligned (?m, Suc k)"
      by (rule tiles_aligned[OF I'(2)]) (simp add: mem_all_blocks)
    moreover have "?m < 256" using i by simp
    ultimately have bi: "buddy_index (pages ?s) ?m (Suc k) = buddy_of ?m (Suc k)"
      using pages_okD(2)[OF I'(5), of ?m] BUDDY_ADDR_page by (simp add: buddy_index_def)
    have "block_size (pages s ! ?m) = k" using True pg(4)[OF mem] by (simp add: min_def)
    moreover have "(if index (pages s ! ?b) < index (pages s ! i) then ?b else i) = ?m"
      using pg(2)[OF i] pg(2)[OF b] by (simp add: min_def)
    ultimately have run: "buddy_combine i ?b s =
        (if Suc k = 20 then Some (?m, ?s) else buddy_combine ?m (buddy_of ?m (Suc k)) ?s)"
      using True i b pg(1) h(1) unfolding bi[symmetric] by (intro buddy_combine_step) simp_all
    show ?thesis
    proof (cases "Suc k = 20")
      case True
      then show ?thesis using run h(2) co by (intro exI[of _ ?m] exI[of _ 20] exI[of _ ?fl] exI[of _ ?s]) simp
    next
      case False
      then have "20 - Suc k < 20 - k" "Suc k < 20" using \<open>k < 20\<close> by linarith+
      note IH = less.hyps[OF this(1) h(2) this(2) co]
      show ?thesis unfolding run if_not_P[OF False] by (rule IH)
    qed
  qed
qed

text \<open>The insertion point is in front of the first block with a greater index.\<close>

lemma find_insert_loc_seg:
  assumes "seg (links s) a (map PageNode xs) (FreeArea k)"
    and "\<And>x. x \<in> set xs \<Longrightarrow> x < length (pages s) \<and> index (pages s ! x) = x"
  shows "find_insert_loc s k j (next_of (links s) a)
    = Some (after (FreeArea k) (map PageNode (dropWhile (\<lambda>x. \<not> j < x) xs)))"
  using assms
proof (induction xs arbitrary: a)
  case Nil
  then show ?case by (subst find_insert_loc.simps) simp
next
  case (Cons x xs)
  then have "find_insert_loc s k j (next_of (links s) (PageNode x))
    = Some (after (FreeArea k) (map PageNode (dropWhile (\<lambda>x. \<not> j < x) xs)))"
    by simp
  moreover have "next_of (links s) a = At (PageNode x)" "x < length (pages s)"
    "index (pages s ! x) = x"
    using Cons.prems by simp_all
  ultimately show ?case
    by (subst find_insert_loc.simps) (simp add: list_page_def)
qed

lemma sorted_insert_at:
  fixes j :: nat
  assumes "sorted_wrt (<) xs" "j \<notin> set xs"
  shows "sorted_wrt (<) (takeWhile (\<lambda>x. \<not> j < x) xs @ j # dropWhile (\<lambda>x. \<not> j < x) xs)"
  using assms
proof (induction xs)
  case Nil
  then show ?case by simp
next
  case (Cons x xs)
  show ?case
  proof (cases "j < x")
    case True
    then show ?thesis using Cons.prems by auto
  next
    case False
    then have "x < j" using Cons.prems by simp
    then show ?thesis
      using Cons False by (auto dest!: set_takeWhileD set_dropWhileD)
  qed
qed

lemma insert_free_ok:
  assumes inv: "buddy_inv A {(j, l)} fl s" and co: "coalesced (free_blocks fl)"
    and last: "l < 20 \<longrightarrow> buddy_of j l \<notin> set (fl l)"
  obtains s' where "insert_free j s = Some s'" "buddy_ok A s'"
proof -
  note I = buddy_invD[OF inv]
  let ?xs = "takeWhile (\<lambda>x. \<not> j < x) (fl l)" and ?ys = "dropWhile (\<lambda>x. \<not> j < x) (fl l)"
  let ?fl = "fl(l := ?xs @ j # ?ys)"
  have mem: "(j, l) \<in> all_blocks A {(j, l)} fl" by (simp add: mem_all_blocks)
  have j: "j < 256" using tiles_start[OF I(2) mem] .
  have al: "aligned (j, l)" using tiles_aligned[OF I(2) mem] .
  have l: "12 \<le> l" "l \<le> 20" using al by (simp_all add: aligned_def)
  note pg = pages_okD[OF I(5)]
  have nl: "j \<notin> set (fl m)" for m by (rule not_listed[OF inv, of j l]) simp
  have "find_insert_loc s l j (next_of (links s) (FreeArea l))
      = Some (after (FreeArea l) (map PageNode ?ys))"
  proof (rule find_insert_loc_seg)
    show "seg (links s) (FreeArea l) (map PageNode (fl l)) (FreeArea l)"
      using lists_ok_dll[OF I(1) l] by (simp add: dll_def)
    show "x < length (pages s) \<and> index (pages s ! x) = x" if "x \<in> set (fl l)" for x
      using that tiles_start[OF I(2), of x l] pg(1,2) by (simp add: mem_all_blocks)
  qed
  moreover obtain h where h: "list_add_tail (PageNode j) (after (FreeArea l) (map PageNode ?ys)) (links s) = Some h"
      "lists_ok h ?fl"
    using lists_ok_add_tail[OF I(1) l nl, of ?xs ?ys] by auto
  ultimately have run: "insert_free j s = Some (s\<lparr>links := h\<rparr>)"
    using pg(4)[OF mem] pg(2)[OF j] by (simp add: insert_free_def Let_def)
  have set_fl: "set (?fl m) = (if m = l then insert j (set (fl l)) else set (fl m))" for m
    using set_append[of ?xs ?ys] by auto
  then have F: "free_blocks ?fl = free_blocks fl \<union> {(j, l)}"
    by (auto simp: free_blocks_def split: if_splits)
  then have eq: "all_blocks A {} ?fl = all_blocks A {(j, l)} fl"
    by (auto simp: all_blocks_def)
  have "sorted_wrt (<) (?fl m)" for m
    using I(6)[of m] sorted_insert_at[OF I(6) nl] by simp
  then have inv': "buddy_inv A {} ?fl (s\<lparr>links := h\<rparr>)"
    using I eq F h(2) by (simp add: buddy_inv_def)
  have "coalesced (free_blocks ?fl)"
    unfolding coalesced_def F
  proof (intro ballI, clarify)
    fix x m assume x: "(x, m) \<in> free_blocks fl \<union> {(j, l)}" "m < 20"
      and b: "(buddy_of x m, m) \<in> free_blocks fl \<union> {(j, l)}"
    have "(x, m) \<in> all_blocks A {(j, l)} fl" using x(1) by (auto simp: all_blocks_def)
    then have al': "aligned (x, m)" using tiles_aligned[OF I(2)] by blast
    consider "(x, m) \<in> free_blocks fl" "(buddy_of x m, m) \<in> free_blocks fl"
      | "(x, m) = (j, l)" | "(buddy_of x m, m) = (j, l)" "(x, m) \<in> free_blocks fl"
      using x(1) b by blast
    then show False
    proof cases
      case 1
      then show ?thesis using co x(2) by (auto simp: coalesced_def)
    next
      case 2
      then show ?thesis using b last x(2) buddy_of_neq[OF al] by auto
    next
      case 3
      then show ?thesis using last x(2) buddy_of_buddy_of[OF al'] by auto
    qed
  qed
  then show thesis using that[OF run] inv' by (auto simp: buddy_ok_def)
qed

section \<open>The interface\<close>

text \<open>Freeing a live block other than the whole memory.\<close>

lemma set_is_free_ok:
  assumes inv: "buddy_inv A {} fl s" and A: "(i, k) \<in> A"
  shows "buddy_inv (A - {(i, k)}) {(i, k)} fl (s\<lparr>pages := set_is_free i True (pages s)\<rparr>)"
proof -
  note I = buddy_invD[OF inv]
  have mem: "(i, k) \<in> all_blocks A {} fl" using A by (simp add: mem_all_blocks)
  have i: "i < 256" using tiles_start[OF I(2) mem] .
  have only: "x = (i, k)" if "x \<in> A" "fst x = i" for x
    using that A tiles_fun[OF I(2), of i "snd x" k] by (cases x) (auto simp: mem_all_blocks)
  then have *: "j \<notin> fst ` (A - {(i, k)}) \<longleftrightarrow> j = i \<or> j \<notin> fst ` A" for j
    by force
  have "all_blocks (A - {(i, k)}) {(i, k)} fl = all_blocks A {} fl"
    using A by (auto simp: all_blocks_def)
  moreover have "pages_ok (all_blocks A {} fl) (A - {(i, k)}) (set_is_free i True (pages s))"
    using I(5) i unfolding pages_ok_def * by auto
  moreover have "free_blocks fl \<inter> {(i, k)} = {}"
    using buddy_inv_disjoint(2)[OF inv, of i k] A by auto
  ultimately show ?thesis using I by (auto simp: buddy_inv_def)
qed

lemma buddy_free_live:
  assumes "buddy_ok A s" "(i, k) \<in> A" "k < 20"
  obtains s' where "buddy_free (Some (PAGE_TO_ADDR i)) s = Some s'" "buddy_ok (A - {(i, k)}) s'"
proof -
  obtain fl where inv: "buddy_inv A {} fl s" and co: "coalesced (free_blocks fl)"
    using assms(1) by (auto simp: buddy_ok_def)
  note I = buddy_invD[OF inv]
  let ?s1 = "s\<lparr>pages := set_is_free i True (pages s)\<rparr>"
  have mem: "(i, k) \<in> all_blocks A {} fl" using assms(2) by (simp add: mem_all_blocks)
  have i: "i < 256" using tiles_start[OF I(2) mem] .
  have bs: "block_size (pages ?s1 ! i) = k"
    using i pages_okD(1,4)[OF I(5)] mem by simp
  have b: "ADDR_TO_PAGE (BUDDY_ADDR (PAGE_TO_ADDR i) k) = buddy_of i k"
    using tiles_aligned[OF I(2) mem] by (rule BUDDY_ADDR_page)
  obtain j l fl' s2 where c: "buddy_combine i (buddy_of i k) ?s1 = Some (j, s2)"
    "buddy_inv (A - {(i, k)}) {(j, l)} fl' s2" "coalesced (free_blocks fl')"
    "l < 20 \<longrightarrow> buddy_of j l \<notin> set (fl' l)"
    using buddy_combine_ok[OF set_is_free_ok[OF inv assms(2)] assms(3) co] by blast
  obtain s' where s': "insert_free j s2 = Some s'" "buddy_ok (A - {(i, k)}) s'"
    by (rule insert_free_ok[OF c(2-4)])
  have "buddy_free (Some (PAGE_TO_ADDR i)) s = Some s'"
    using i pages_okD(1)[OF I(5)] bs b c(1) s'(1) by (simp add: buddy_free_def Let_def)
  then show thesis using that s'(2) by blast
qed

text \<open>Initialisation.\<close>

lemma dll_fold_INIT:
  "k \<in> set ks \<Longrightarrow> dll (fold (\<lambda>k. INIT_LIST_HEAD (FreeArea k)) ks h) (FreeArea k) []"
proof (induction ks rule: rev_induct)
  case Nil
  then show ?case by simp
next
  case (snoc x ks)
  show ?case
  proof (cases "k = x")
    case False
    then have "dll (fold (\<lambda>k. INIT_LIST_HEAD (FreeArea k)) ks h) (FreeArea k) []"
      using snoc by simp
    then show ?thesis using False by (auto elim!: dll_frame)
  qed simp
qed

lemma init_pages_ok: "pages_ok {(0, 20)} {} (set_block_size 0 MAX_ORDER init_pages)"
  by (simp add: pages_ok_def init_pages_def)

lemma buddy_init_lists:
  "\<exists>s'. buddy_init s = Some s' \<and> buddy_inv {} {} ((\<lambda>_. [])(20 := [0])) s'
    \<and> coalesced (free_blocks ((\<lambda>_. [])(20 := [0])))"
proof -
  let ?h = "fold (\<lambda>k. INIT_LIST_HEAD (FreeArea k)) [MIN_ORDER..<Suc MAX_ORDER] (links s)"
  let ?fl = "(\<lambda>_::nat. [])(20 := [0::nat])"
  have "dll ?h (FreeArea k) []" if "12 \<le> k" "k \<le> 20" for k
    by (rule dll_fold_INIT) (use that in \<open>simp only: set_upt atLeastLessThan_iff less_Suc_eq_le\<close>)
  then have "lists_ok ?h (\<lambda>_. [])"
    unfolding lists_ok_def by (simp only: list.map list.set) simp
  then obtain h where h: "list_add (PageNode 0) (FreeArea 20) ?h = Some h" "lists_ok h ?fl"
    by (rule lists_ok_add[of ?h "\<lambda>_. []" 20 0]) auto
  have F: "free_blocks ?fl = {(0, 20)}" by (auto simp: free_blocks_def split: if_splits)
  let ?s' = "s\<lparr>links := h, pages := set_block_size 0 MAX_ORDER init_pages\<rparr>"
  have "buddy_inv {} {} ?fl ?s'"
    unfolding buddy_inv_def all_blocks_def F using h(2) tiles_whole init_pages_ok by simp
  moreover have "coalesced (free_blocks ?fl)"
    unfolding F coalesced_def by simp
  moreover have "buddy_init s = Some ?s'"
    using h(1) by (simp add: buddy_init_def Let_def del: upt_Suc)
  ultimately show ?thesis by blast
qed

lemma buddy_init_inv: "\<exists>s'. buddy_init s = Some s' \<and> buddy_ok {} s'"
  using buddy_init_lists unfolding buddy_ok_def by blast

text \<open>The size computation.\<close>

lemma needed_block_from_Some:
  assumes "bytes \<le> 2 ^ 30" "k \<le> 30"
  shows "\<exists>n. needed_block_from k bytes = Some n \<and> k \<le> n \<and> bytes \<le> 2 ^ n
    \<and> (k < n \<longrightarrow> 2 ^ (n - 1) < bytes)"
  using assms
proof (induction "30 - k" arbitrary: k)
  case 0
  then have "k = 30" by simp
  then show ?case using "0.prems" by (subst needed_block_from.simps) simp
next
  case (Suc d)
  show ?case
  proof (cases "(2::int) ^ k < bytes")
    case True
    have "\<exists>n. needed_block_from (Suc k) bytes = Some n \<and> Suc k \<le> n \<and> bytes \<le> 2 ^ n
        \<and> (Suc k < n \<longrightarrow> 2 ^ (n - 1) < bytes)"
      by (rule Suc.hyps(1)) (use Suc in auto)
    then obtain n where n: "needed_block_from (Suc k) bytes = Some n" "Suc k \<le> n"
      "bytes \<le> 2 ^ n" "Suc k < n \<longrightarrow> 2 ^ (n - 1) < bytes"
      by blast
    have "2 ^ (n - 1) < bytes" using n(2,4) True by (cases "Suc k = n") auto
    then show ?thesis
      using True Suc.hyps(2) n by (subst needed_block_from.simps) simp
  next
    case False
    then show ?thesis using Suc.hyps(2) by (subst needed_block_from.simps) simp
  qed
qed

lemma needed_block_from_None:
  assumes "(2::int) ^ 30 < bytes"
  shows "needed_block_from k bytes = None"
proof (induction "31 - k" arbitrary: k)
  case 0
  then show ?case by (subst needed_block_from.simps) simp
next
  case (Suc d)
  then have "k \<le> 30" by simp
  then have "(2::int) ^ k \<le> 2 ^ 30" by (rule power_increasing) simp
  with assms have "(2::int) ^ k < bytes" by simp
  then show ?case using Suc by (subst needed_block_from.simps) simp
qed

lemma find_open_spec:
  assumes "lists_ok (links s) fl" "12 \<le> k" "k \<le> 20"
  shows "case find_open s k of None \<Rightarrow> \<forall>l. k \<le> l \<longrightarrow> fl l = []
    | Some m \<Rightarrow> k \<le> m \<and> m \<le> 20 \<and> fl m \<noteq> [] \<and> (\<forall>l. k \<le> l \<and> l < m \<longrightarrow> fl l = [])"
  using assms(2,3)
proof (induction "20 - k" arbitrary: k)
  case 0
  then have [simp]: "k = 20" by simp
  have above: "fl l = []" if "20 < l" for l using assms(1) that by (simp add: lists_ok_def)
  have top: "fl l = []" if "fl 20 = []" "20 \<le> l" for l
    using above[of l] that by (cases "l = 20") auto
  have empty: "list_empty (FreeArea 20) (links s) \<longleftrightarrow> fl 20 = []"
    using lists_ok_dll[OF assms(1), of 20] dll_empty_iff by fastforce
  show ?case
    by (subst find_open.simps) (auto simp: empty intro: top)
next
  case (Suc d)
  have empty: "list_empty (FreeArea k) (links s) \<longleftrightarrow> fl k = []"
    using lists_ok_dll[OF assms(1) Suc.prems] dll_empty_iff by fastforce
  show ?case
  proof (cases "fl k = []")
    case True
    have "case find_open s (Suc k) of None \<Rightarrow> \<forall>l. Suc k \<le> l \<longrightarrow> fl l = []
      | Some m \<Rightarrow> Suc k \<le> m \<and> m \<le> 20 \<and> fl m \<noteq> [] \<and> (\<forall>l. Suc k \<le> l \<and> l < m \<longrightarrow> fl l = [])"
      by (rule Suc.hyps(1)) (use Suc in auto)
    moreover have "k \<le> l \<longleftrightarrow> l = k \<or> Suc k \<le> l" for l by auto
    ultimately show ?thesis
      using True empty Suc.hyps(2)
      by (subst find_open.simps) (auto split: option.splits)
  next
    case False
    then show ?thesis using empty Suc.prems by (subst find_open.simps) auto
  qed
qed

lemma coalesced_insert:
  assumes "coalesced F" "\<And>j. (j, k) \<notin> F" "buddy_of i k \<noteq> i"
  shows "coalesced (insert (i, k) F)"
  using assms unfolding coalesced_def by auto

lemma split_down_ok:
  assumes "buddy_inv A {} fl s" "fl k = i # is" "coalesced (free_blocks fl - {(i, k)})"
    and "\<forall>l. n \<le> l \<and> l < k \<longrightarrow> fl l = []" "12 \<le> n" "n \<le> k"
  shows "\<exists>fl' s' is'. split_down n k s = Some s' \<and> buddy_inv A {} fl' s' \<and> fl' n = i # is'
    \<and> coalesced (free_blocks fl' - {(i, n)})"
  using assms
proof (induction k arbitrary: fl s "is")
  case 0
  then show ?case by simp
next
  case (Suc k)
  show ?case
  proof (cases "n = Suc k")
    case True
    then show ?thesis using Suc.prems by auto
  next
    case False
    then have n: "n \<le> k" "12 \<le> k" using Suc.prems by auto
    then have flk: "fl k = []" using Suc.prems(4) by simp
    let ?b = "buddy_of i k" and ?fl = "fl(Suc k := is, k := [i, buddy_of i k])"
    obtain s1 where s1: "buddy_split (Suc k) s = Some s1" "buddy_inv A {} ?fl s1"
      by (rule buddy_split_ok[OF Suc.prems(1) n(2) Suc.prems(2) flk])
    have al: "aligned (i, k)"
      by (rule tiles_aligned[OF buddy_invD(2)[OF s1(2)]]) (simp add: mem_all_blocks)
    have d: "i \<notin> set is"
      using lists_ok_distinct[OF buddy_invD(1)[OF Suc.prems(1)], of "Suc k"] Suc.prems(2) by simp
    have "free_blocks ?fl - {(i, k)} = insert (?b, k) (free_blocks fl - {(i, Suc k)})"
      using Suc.prems(2) flk d buddy_of_neq[OF al] by (auto simp: free_blocks_def split: if_splits)
    moreover have "coalesced (insert (?b, k) (free_blocks fl - {(i, Suc k)}))"
      by (rule coalesced_insert[OF Suc.prems(3)]) (use flk buddy_of_neq[OF aligned_buddy[OF al]] in auto)
    ultimately have co: "coalesced (free_blocks ?fl - {(i, k)})" by simp
    have "\<exists>fl' s' is'. split_down n k s1 = Some s' \<and> buddy_inv A {} fl' s' \<and> fl' n = i # is'
        \<and> coalesced (free_blocks fl' - {(i, n)})"
      by (rule Suc.IH[OF s1(2) _ co]) (use Suc.prems n in auto)
    then show ?thesis using s1(1) n False by simp
  qed
qed

lemma take_first_ok:
  assumes inv: "buddy_inv A {} fl s" and fl: "fl n = i # is"
    and co: "coalesced (free_blocks fl - {(i, n)})"
  shows "\<exists>s'. take_first n s = Some (Some (PAGE_TO_ADDR i), s') \<and> buddy_ok (insert (i, n) A) s'"
proof -
  note I = buddy_invD[OF inv]
  have n: "12 \<le> n" "n \<le> 20" using lists_ok_order[OF I(1), of i n] fl by auto
  have mem: "(i, n) \<in> all_blocks A {} fl" using fl by (simp add: mem_all_blocks)
  have i: "i < 256" using tiles_start[OF I(2) mem] .
  have d: "i \<notin> set is" using lists_ok_distinct[OF I(1), of n] fl by simp
  let ?fl = "fl(n := is)"
  obtain h where h: "list_del (PageNode i) (links s) = Some h" "lists_ok h (fl(n := [] @ is))"
    by (rule lists_ok_del[OF I(1) n, of "[]" i "is"]) (simp_all add: fl)
  let ?s' = "s\<lparr>links := h, pages := set_is_free i False (pages s)\<rparr>"
  have run: "take_first n s = Some (Some (PAGE_TO_ADDR i), ?s')"
    using list_page_first[OF inv fl] h(1) i pages_okD(1,2)[OF I(5)]
    by (simp add: take_first_def Let_def)
  have F: "free_blocks ?fl = free_blocks fl - {(i, n)}"
    using fl d by (auto simp: free_blocks_def split: if_splits)
  have "(i, n) \<in> free_blocks fl" using fl by simp
  then have eq: "all_blocks (insert (i, n) A) {} ?fl = all_blocks A {} fl"
    unfolding all_blocks_def F by blast
  have "pages_ok (all_blocks A {} fl) (insert (i, n) A) (pages ?s')"
    using I(5) i unfolding pages_ok_def by auto
  moreover have "sorted_wrt (<) (?fl k)" for k
    using I(6)[of k] I(6)[of n] fl by simp
  moreover have "free_blocks ?fl \<inter> insert (i, n) A = {}"
    unfolding F using I(4) by blast
  ultimately have "buddy_inv (insert (i, n) A) {} ?fl ?s'"
    using I(2) h(2) eq by (simp add: buddy_inv_def)
  then show ?thesis using run co F by (auto simp: buddy_ok_def)
qed

text \<open>The set of blocks a state has room for, in terms of the live blocks alone.\<close>

definition has_room :: "block set \<Rightarrow> nat \<Rightarrow> bool" where
  "has_room A n \<longleftrightarrow> (\<exists>j<N_PAGES. aligned (j, n) \<and> (\<forall>b\<in>A. area b \<inter> area (j, n) = {}))"

lemma buddy_ok_live:
  assumes "buddy_ok A s"
  shows "\<And>b. b \<in> A \<Longrightarrow> aligned b" "\<And>b c. b \<in> A \<Longrightarrow> c \<in> A \<Longrightarrow> b \<noteq> c \<Longrightarrow> area b \<inter> area c = {}"
  using assms unfolding buddy_ok_def buddy_inv_def all_blocks_def tiles_def by blast+

lemma free_has_room:
  assumes inv: "buddy_inv A {} fl s" and i: "(i, k) \<in> free_blocks fl" and n: "n \<le> k" "12 \<le> n"
  shows "has_room A n"
proof -
  note I = buddy_invD[OF inv]
  have T: "(i, k) \<in> all_blocks A {} fl" using i by (simp add: all_blocks_def)
  have al: "aligned (i, k)" using tiles_aligned[OF I(2) T] .
  then have al': "aligned (i, n)"
    using n pages_of_dvd[OF n(1)] unfolding aligned_def by (metis dvd_trans fst_conv snd_conv order_trans)
  have sub: "area (i, n) \<subseteq> area (i, k)"
    by (rule aligned_nested[OF al' al n(1)]) (rule start_in_area)+
  have "area b \<inter> area (i, n) = {}" if "b \<in> A" for b
  proof -
    have "b \<noteq> (i, k)" using that i I(4) by blast
    moreover have "b \<in> all_blocks A {} fl" using that by (simp add: all_blocks_def)
    ultimately have "area b \<inter> area (i, k) = {}" using T I(2) unfolding tiles_def by blast
    with sub show ?thesis by blast
  qed
  then show ?thesis using al' tiles_start[OF I(2) T] unfolding has_room_def by blast
qed

lemma has_room_free:
  assumes inv: "buddy_inv A {} fl s" and co: "coalesced (free_blocks fl)" and room: "has_room A n"
  shows "\<exists>k\<ge>n. fl k \<noteq> []"
proof -
  note I = buddy_invD[OF inv]
  obtain j where j: "j < 256" "aligned (j, n)" "\<forall>b\<in>A. area b \<inter> area (j, n) = {}"
    using room unfolding has_room_def by blast
  have "\<exists>i l. (i, l) \<in> free_blocks fl \<and> n \<le> l \<and> area (j, n) \<subseteq> area (i, l)"
    by (rule tiles_room[OF I(2) _ _ j(2,1)])
      (use co j(3) in \<open>auto simp: all_blocks_def coalesced_def\<close>)
  then show ?thesis by force
qed

text \<open>
  The contract of \<open>buddy_alloc\<close>: \<open>n\<close> is the least order of at least \<^const>\<open>MIN_ORDER\<close> that
  holds the requested size.
\<close>

definition order_for :: "int \<Rightarrow> nat \<Rightarrow> bool" where
  "order_for bytes n \<longleftrightarrow> MIN_ORDER \<le> n \<and> bytes \<le> 2 ^ n \<and> (MIN_ORDER < n \<longrightarrow> 2 ^ (n - 1) < bytes)"

lemma buddy_alloc_spec:
  assumes ok: "buddy_ok A s" and b: "bytes \<le> 2 ^ 30"
  obtains n where "order_for bytes n" "\<not> has_room A n" "buddy_alloc bytes s = Some (None, s)"
  | n i s' where "order_for bytes n" "has_room A n" "buddy_alloc bytes s = Some (Some (PAGE_TO_ADDR i), s')"
    "buddy_ok (insert (i, n) A) s'" "(i, n) \<notin> A"
proof -
  obtain fl where inv: "buddy_inv A {} fl s" and co: "coalesced (free_blocks fl)"
    using ok by (auto simp: buddy_ok_def)
  note I = buddy_invD[OF inv]
  have "\<exists>n. needed_block_from 12 bytes = Some n \<and> 12 \<le> n \<and> bytes \<le> 2 ^ n
    \<and> (12 < n \<longrightarrow> 2 ^ (n - 1) < bytes)"
    by (rule needed_block_from_Some[OF b]) simp
  then obtain n where n: "needed_block_from 12 bytes = Some n" "order_for bytes n" "12 \<le> n"
    unfolding order_for_def by blast
  show thesis
  proof (cases "n \<le> 20")
    case False
    then have "\<not> has_room A n" by (simp add: has_room_def aligned_def)
    then show ?thesis using that(1)[OF n(2)] n(1) False by (simp add: buddy_alloc_def)
  next
    case True
    note fo = find_open_spec[OF I(1) n(3) True]
    show ?thesis
    proof (cases "find_open s n")
      case None
      then have "\<forall>l\<ge>n. fl l = []" using fo by simp
      then have "\<not> has_room A n" using has_room_free[OF inv co, of n] by blast
      then show ?thesis using that(1)[OF n(2)] n(1) True None by (simp add: buddy_alloc_def)
    next
      case (Some k)
      then have k: "n \<le> k" "fl k \<noteq> []" "\<forall>l. n \<le> l \<and> l < k \<longrightarrow> fl l = []" using fo by auto
      then obtain i "is" where fl: "fl k = i # is" by (cases "fl k") auto
      have "coalesced (free_blocks fl - {(i, k)})" using co by (rule coalesced_subset) blast
      from split_down_ok[OF inv fl this k(3) n(3) k(1)] obtain fl' s1 is' where
        s1: "split_down n k s = Some s1" "buddy_inv A {} fl' s1" "fl' n = i # is'"
          "coalesced (free_blocks fl' - {(i, n)})"
        by blast
      from take_first_ok[OF s1(2-4)] obtain s' where
        s': "take_first n s1 = Some (Some (PAGE_TO_ADDR i), s')" "buddy_ok (insert (i, n) A) s'"
        by blast
      have mem: "(i, n) \<in> free_blocks fl'" using s1(3) by simp
      then have "(i, n) \<notin> A" using buddy_invD(4)[OF s1(2)] by blast
      moreover have "has_room A n" by (rule free_has_room[OF s1(2) mem]) (use n in auto)
      moreover have "buddy_alloc bytes s = Some (Some (PAGE_TO_ADDR i), s')"
        using n(1) True Some s1(1) s'(1) by (simp add: buddy_alloc_def)
      ultimately show ?thesis using that(2)[OF n(2)] s'(2) by blast
    qed
  qed
qed

lemma order_for_unique: "order_for bytes n \<Longrightarrow> order_for bytes m \<Longrightarrow> n = m"
proof (induction n m rule: linorder_wlog)
  case (le n m)
  show ?case
  proof (rule ccontr)
    assume "n \<noteq> m"
    then have "n \<le> m - 1" "MIN_ORDER < m" using le by (auto simp: order_for_def)
    then have "(2::int) ^ n \<le> 2 ^ (m - 1)" "2 ^ (m - 1) < bytes" "bytes \<le> 2 ^ n"
      using le by (auto simp: order_for_def intro: power_increasing)
    then show False by linarith
  qed
qed auto

lemma pages_of_bytes: "12 \<le> n \<Longrightarrow> pages_of n * PAGE_SIZE = 2 ^ n"
proof -
  assume "12 \<le> n"
  then have "(2::nat) ^ n = 2 ^ (n - 12) * 2 ^ 12"
    using power_add[of "2::nat" "n - 12" 12] by simp
  then show ?thesis by (simp add: pages_of_def)
qed

lemma dump_order_ok:
  assumes "buddy_inv A {} fl s" "12 \<le> k" "k \<le> 20"
  shows "dump_order s k = Some (show_nat (length (fl k)) @ '':'' @ show_nat (2 ^ k div 1024) @ ''K '')"
proof -
  have "list_for_each (links s) (FreeArea k) = Some (map PageNode (fl k))"
    using lists_ok_dll[OF buddy_invD(1)[OF assms(1)] assms(2,3)] by (rule list_for_each_dll)
  then show ?thesis by (simp add: dump_order_def)
qed

lemma dump_orders_ok:
  assumes "buddy_inv A {} fl s" "\<forall>k\<in>set ks. 12 \<le> k \<and> k \<le> 20"
  shows "dump_orders s ks = Some (concat (map
    (\<lambda>k. show_nat (length (fl k)) @ '':'' @ show_nat (2 ^ k div 1024) @ ''K '') ks) @ [CHR 0x0A])"
  using assms(2) by (induction ks) (simp_all add: dump_order_ok[OF assms(1)])

text \<open>The free lists, and with them the dump, are a function of the set of live blocks.\<close>

lemma free_lists_unique:
  assumes "buddy_inv A {} fl s" "coalesced (free_blocks fl)"
    "buddy_inv A {} gl t" "coalesced (free_blocks gl)"
  shows "fl = gl"
proof
  fix k
  note I = buddy_invD[OF assms(1)] and J = buddy_invD[OF assms(3)]
  have "free_blocks fl \<subseteq> free_blocks gl" "free_blocks gl \<subseteq> free_blocks fl"
    by (rule coalesced_unique_subset[of _ A];
        use I J assms(2,4) in \<open>simp add: all_blocks_def coalesced_def\<close>)+
  then have "set (fl k) = set (gl k)" by (auto simp: free_blocks_def)
  then show "fl k = gl k"
    using I(6)[of k] J(6)[of k] sorted_distinct_set_unique[of "fl k" "gl k"]
    by (simp add: strict_sorted_iff)
qed

lemma buddy_dump_unique: "buddy_ok A s \<Longrightarrow> buddy_ok A t \<Longrightarrow> buddy_dump s = buddy_dump t"
proof -
  assume "buddy_ok A s" "buddy_ok A t"
  then obtain fl gl where *: "buddy_inv A {} fl s" "coalesced (free_blocks fl)"
    "buddy_inv A {} gl t" "coalesced (free_blocks gl)"
    unfolding buddy_ok_def by blast
  have "fl = gl" by (rule free_lists_unique[OF *])
  moreover have "\<forall>k\<in>set [MIN_ORDER..<Suc MAX_ORDER]. 12 \<le> k \<and> k \<le> 20" by auto
  ultimately show ?thesis
    using dump_orders_ok[OF *(1)] dump_orders_ok[OF *(3)] by (simp only: buddy_dump_def)
qed

section \<open>Properties\<close>

text \<open>
  The allocator as its clients see it: a state owns a set of live blocks, \<open>alloc\<close> adds a
  fresh block of the least sufficient order or reports that there is none, \<open>free\<close> removes
  a live block.
\<close>

locale block_allocator =
  fixes ok :: "block set \<Rightarrow> 's \<Rightarrow> bool"
    and alloc :: "int \<Rightarrow> 's \<Rightarrow> (nat option \<times> 's) option"
    and free :: "nat option \<Rightarrow> 's \<Rightarrow> 's option"
  assumes live: "ok A s \<Longrightarrow> b \<in> A \<Longrightarrow> c \<in> A \<Longrightarrow> b \<noteq> c \<Longrightarrow> area b \<inter> area c = {}"
    and alloc_law: "ok A s \<Longrightarrow> bytes \<le> 2 ^ 30 \<Longrightarrow> \<exists>r s'. alloc bytes s = Some (r, s') \<and>
      (case r of None \<Rightarrow> s' = s
       | Some a \<Rightarrow> \<exists>i n. a = PAGE_TO_ADDR i \<and> order_for bytes n \<and> (i, n) \<notin> A
                     \<and> ok (insert (i, n) A) s')"
    and free_law: "ok A s \<Longrightarrow> (i, k) \<in> A \<Longrightarrow> k < MAX_ORDER \<Longrightarrow>
      \<exists>s'. free (Some (PAGE_TO_ADDR i)) s = Some s' \<and> ok (A - {(i, k)}) s'"
begin

text \<open>A block that was just allocated can be freed, which restores the set of live blocks.\<close>

lemma alloc_free:
  assumes "ok A s" "bytes \<le> 2 ^ 19" "alloc bytes s = Some (Some a, s1)"
  shows "\<exists>s2. free (Some a) s1 = Some s2 \<and> ok A s2"
proof -
  have b: "bytes \<le> 2 ^ 30" using assms(2) by simp
  from alloc_law[OF assms(1) b] assms(3) obtain i n where
    a: "a = PAGE_TO_ADDR i" "order_for bytes n" "(i, n) \<notin> A" "ok (insert (i, n) A) s1"
    by auto
  have "n < 20"
  proof (rule ccontr)
    assume "\<not> n < 20"
    then have "(2::int) ^ 19 \<le> 2 ^ (n - 1)" by (intro power_increasing) auto
    moreover have "(2::int) ^ (n - 1) < bytes"
      using a(2) \<open>\<not> n < 20\<close> by (auto simp: order_for_def)
    ultimately show False using assms(2) by linarith
  qed
  with free_law[OF a(4), of i n] a(1,3) show ?thesis by auto
qed

lemma no_shared_byte:
  assumes "ok A s" "(i, k) \<in> A" "(j, l) \<in> A" "(i, k) \<noteq> (j, l)"
    "x div PAGE_SIZE \<in> area (i, k)"
  shows "x div PAGE_SIZE \<notin> area (j, l)"
  using live[OF assms(1-4)] assms(5) by blast

end

interpretation ba: block_allocator buddy_ok buddy_alloc buddy_free
proof
  show "area b \<inter> area c = {}" if "buddy_ok A s" "b \<in> A" "c \<in> A" "b \<noteq> c" for A s b c
    using buddy_ok_live(2)[OF that] .
  show "\<exists>r s'. buddy_alloc bytes s = Some (r, s') \<and> (case r of None \<Rightarrow> s' = s
       | Some a \<Rightarrow> \<exists>i n. a = PAGE_TO_ADDR i \<and> order_for bytes n \<and> (i, n) \<notin> A
                     \<and> buddy_ok (insert (i, n) A) s')"
    if "buddy_ok A s" "bytes \<le> 2 ^ 30" for A s bytes
    using that by (rule buddy_alloc_spec) auto
  show "\<exists>s'. buddy_free (Some (PAGE_TO_ADDR i)) s = Some s' \<and> buddy_ok (A - {(i, k)}) s'"
    if "buddy_ok A s" "(i, k) \<in> A" "k < MAX_ORDER" for A s i k
    using that by (rule buddy_free_live) blast
qed

text \<open>
  \<open>buddy_init\<close> never fails, whatever was in the list heads before, and leaves one free
  block, the whole memory, with no live block.
\<close>

theorem buddy_init_establishes: "\<exists>s'. buddy_init s = Some s' \<and> buddy_ok {} s'"
  by (rule buddy_init_inv)

text \<open>
  C1. \<open>buddy_alloc\<close>, for requests of at most \<open>2 ^ 30\<close> bytes, runs without undefined behaviour.
  With \<open>n\<close> the least order from \<^const>\<open>MIN_ORDER\<close> on that holds the request, it returns a fresh
  block of order \<open>n\<close> disjoint from all live blocks exactly when some aligned area of order \<open>n\<close>
  meets no live block (memory is never lost to fragmentation of free space); otherwise it
  returns \<open>NULL\<close> and the state is unchanged.
\<close>

theorem buddy_alloc_contract:
  assumes "buddy_ok A s" "bytes \<le> 2 ^ 30"
  shows "\<exists>n. order_for bytes n \<and>
    (if has_room A n
     then \<exists>i s'. buddy_alloc bytes s = Some (Some (PAGE_TO_ADDR i), s')
       \<and> buddy_ok (insert (i, n) A) s' \<and> (\<forall>b\<in>A. area b \<inter> area (i, n) = {})
     else buddy_alloc bytes s = Some (None, s))"
proof (rule buddy_alloc_spec[OF assms])
  fix n i s'
  assume *: "order_for bytes n" "has_room A n" "buddy_alloc bytes s = Some (Some (PAGE_TO_ADDR i), s')"
    "buddy_ok (insert (i, n) A) s'" "(i, n) \<notin> A"
  have "\<forall>b\<in>A. area b \<inter> area (i, n) = {}"
    using buddy_ok_live(2)[OF *(4), of _ "(i, n)"] *(5) by blast
  with * show ?thesis by auto
qed auto

theorem buddy_alloc_contract_witness:
  "\<exists>s n. order_for 5000 n \<and>
    (if has_room {} n
     then \<exists>i s'. buddy_alloc 5000 s = Some (Some (PAGE_TO_ADDR i), s')
       \<and> buddy_ok (insert (i, n) {}) s' \<and> (\<forall>b\<in>{}. area b \<inter> area (i, n) = {})
     else buddy_alloc 5000 s = Some (None, s))"
proof -
  obtain s where s: "buddy_ok {} s" using buddy_init_inv by blast
  have "(5000::int) \<le> 2 ^ 30" by simp
  from buddy_alloc_contract[OF s this] show ?thesis by blast
qed

text \<open>
  C2. Freeing a live block smaller than the whole memory succeeds, removes exactly that block
  and coalesces: the invariant, which says that no two free buddies remain, holds again.
\<close>

theorem buddy_free_contract:
  assumes "buddy_ok A s" "(i, k) \<in> A" "k < MAX_ORDER"
  shows "\<exists>s'. buddy_free (Some (PAGE_TO_ADDR i)) s = Some s' \<and> buddy_ok (A - {(i, k)}) s'"
  by (rule ba.free_law[OF assms])

lemma buddy_one_block:
  assumes "bytes \<le> 2 ^ 30" "order_for bytes n" "n \<le> MAX_ORDER"
  obtains i s where "buddy_ok {(i, n)} s"
proof -
  obtain s0 where s0: "buddy_ok {} s0" using buddy_init_inv by blast
  have room: "has_room {} n"
    unfolding has_room_def by (rule exI[of _ 0]) (use assms in \<open>auto simp: aligned_def order_for_def\<close>)
  from s0 assms(1) show thesis
  proof (rule buddy_alloc_spec)
    fix m assume "order_for bytes m" "\<not> has_room {} m"
    then show thesis using order_for_unique[OF assms(2), of m] room by simp
  next
    fix m i s' assume "order_for bytes m" "buddy_ok (insert (i, m) {}) s'"
    then show thesis using order_for_unique[OF assms(2), of m] that by simp
  qed
qed

theorem buddy_free_contract_witness:
  "\<exists>i s. buddy_ok {(i, 13)} s \<and>
    (\<exists>s'. buddy_free (Some (PAGE_TO_ADDR i)) s = Some s' \<and> buddy_ok ({(i, 13)} - {(i, 13)}) s')"
proof -
  obtain i s where s: "buddy_ok {(i, 13)} s"
    by (rule buddy_one_block[of 5000 13]) (simp_all add: order_for_def)
  have "(i, 13::nat) \<in> {(i, 13)}" "13 < MAX_ORDER" by simp_all
  from buddy_free_contract[OF s this] s show ?thesis by blast
qed

text \<open>
  C4. Freeing a block that is the whole memory has no defined outcome: the buddy address of
  order \<^const>\<open>MAX_ORDER\<close> is the page behind the last one, and \<open>buddy_combine\<close> reads it
  before it tests the order.
\<close>

theorem buddy_free_whole_memory:
  assumes "buddy_ok A s" "(i, MAX_ORDER) \<in> A"
  shows "A = {(0, MAX_ORDER)} \<and> buddy_free (Some (PAGE_TO_ADDR i)) s = None"
proof -
  obtain fl where inv: "buddy_inv A {} fl s" using assms(1) by (auto simp: buddy_ok_def)
  note I = buddy_invD[OF inv]
  have T: "(i, 20) \<in> all_blocks A {} fl" using assms(2) by (simp add: mem_all_blocks)
  have i: "i = 0" using tiles_within[OF I(2) T] by (simp add: pages_of_def)
  have "b = (0, 20)" if "b \<in> A" for b
  proof -
    have b: "b \<in> all_blocks A {} fl" using that by (simp add: all_blocks_def)
    obtain j k where jk: "b = (j, k)" by (cases b)
    have "j \<in> area (0, 20)" using tiles_start[OF I(2) b[unfolded jk]] by (simp add: mem_area pages_of_def)
    then show ?thesis using tiles_overlap[OF I(2) b, of "(i, 20)" j] T i jk by simp
  qed
  then have A: "A = {(0, MAX_ORDER)}" using assms(2) i by blast
  have "block_size (pages s ! 0) = 20" "length (pages s) = 256"
    using pages_okD(1,4)[OF I(5)] T i by blast+
  then have "buddy_free (Some (PAGE_TO_ADDR 0)) s
      = Option.bind (buddy_combine 0 256 (s\<lparr>pages := set_is_free 0 True (pages s)\<rparr>))
          (\<lambda>(res_page, s2). insert_free res_page s2)"
    by (simp add: buddy_free_def Let_def PAGE_TO_ADDR_def ADDR_TO_PAGE_def BUDDY_ADDR_def)
  moreover have "buddy_combine 0 256 (s\<lparr>pages := set_is_free 0 True (pages s)\<rparr>) = None"
    using \<open>length (pages s) = 256\<close> by (subst buddy_combine.simps) simp
  ultimately show ?thesis using A i by simp
qed

theorem buddy_free_whole_memory_witness:
  "\<exists>i s. buddy_ok {(i, MAX_ORDER)} s \<and> {(i, MAX_ORDER)} = {(0, MAX_ORDER)}
    \<and> buddy_free (Some (PAGE_TO_ADDR i)) s = None"
proof -
  obtain i s where s: "buddy_ok {(i, 20)} s"
    by (rule buddy_one_block[of 1000000 20]) (simp_all add: order_for_def)
  have "(i, MAX_ORDER) \<in> {(i, 20)}" by simp
  from buddy_free_whole_memory[OF s this] s show ?thesis by blast
qed

text \<open>
  C3. What \<open>buddy_dump\<close> prints depends only on the set of live blocks: allocating at most
  half of the memory and freeing it again gives back the dump there was before, whatever
  splits and merges happened in between.
\<close>

theorem buddy_alloc_free_dump:
  assumes "buddy_ok A s" "bytes \<le> 2 ^ 19" "buddy_alloc bytes s = Some (Some a, s1)"
  shows "\<exists>s2. buddy_free (Some a) s1 = Some s2 \<and> buddy_ok A s2
    \<and> buddy_dump s2 = buddy_dump s \<and> buddy_dump s \<noteq> None"
proof -
  obtain s2 where s2: "buddy_free (Some a) s1 = Some s2" "buddy_ok A s2"
    using ba.alloc_free[OF assms] by blast
  obtain fl where "buddy_inv A {} fl s" using assms(1) by (auto simp: buddy_ok_def)
  then have "dump_orders s [MIN_ORDER..<Suc MAX_ORDER] \<noteq> None"
    using dump_orders_ok[of A fl s "[MIN_ORDER..<Suc MAX_ORDER]"] by fastforce
  then show ?thesis using s2 buddy_dump_unique[OF s2(2) assms(1)] by (simp only: buddy_dump_def) blast
qed

theorem buddy_alloc_free_dump_witness:
  "\<exists>s a s1. buddy_ok {} s \<and> buddy_alloc 5000 s = Some (Some a, s1) \<and>
    (\<exists>s2. buddy_free (Some a) s1 = Some s2 \<and> buddy_ok {} s2
      \<and> buddy_dump s2 = buddy_dump s \<and> buddy_dump s \<noteq> None)"
proof -
  obtain s where s: "buddy_ok {} s" using buddy_init_inv by blast
  have room: "has_room {} 13"
    unfolding has_room_def by (rule exI[of _ 0]) (simp add: aligned_def)
  have o13: "order_for 5000 13" by (simp add: order_for_def)
  obtain a s1 where a: "buddy_alloc 5000 s = Some (Some a, s1)"
    using s
  proof (rule buddy_alloc_spec[where bytes = 5000])
    fix n assume "order_for 5000 n" "\<not> has_room {} n"
    then show thesis using order_for_unique[OF o13, of n] room by simp
  qed (use that in auto)
  have "(5000::int) \<le> 2 ^ 19" by simp
  from buddy_alloc_free_dump[OF s this a] s a show ?thesis by blast
qed

text \<open>
  With no live block everything is coalesced: the dump is the line for one free block of
  1024K.
\<close>

theorem buddy_dump_all_free:
  assumes "buddy_ok {} s"
  shows "buddy_dump s =
    Some (''0:4K 0:8K 0:16K 0:32K 0:64K 0:128K 0:256K 0:512K 1:1024K '' @ [CHR 0x0A])"
proof -
  let ?fl = "(\<lambda>_::nat. [])(20 := [0::nat])"
  obtain s0 where inv: "buddy_inv {} {} ?fl s0" "coalesced (free_blocks ?fl)"
    using buddy_init_lists by blast
  then have "buddy_ok {} s0" unfolding buddy_ok_def by blast
  with assms have "buddy_dump s = buddy_dump s0" by (rule buddy_dump_unique)
  also have "\<dots> = Some (concat (map (\<lambda>k. show_nat (length (?fl k)) @ '':'' @
      show_nat (2 ^ k div 1024) @ ''K '') [MIN_ORDER..<Suc MAX_ORDER]) @ [CHR 0x0A])"
    unfolding buddy_dump_def by (rule dump_orders_ok[OF inv(1)]) simp
  also have "\<dots> = Some (''0:4K 0:8K 0:16K 0:32K 0:64K 0:128K 0:256K 0:512K 1:1024K '' @ [CHR 0x0A])"
    by (simp add: upt_rec)
  finally show ?thesis .
qed

theorem buddy_dump_all_free_witness:
  "\<exists>s. buddy_ok {} s \<and> buddy_dump s =
    Some (''0:4K 0:8K 0:16K 0:32K 0:64K 0:128K 0:256K 0:512K 1:1024K '' @ [CHR 0x0A])"
  using buddy_init_inv buddy_dump_all_free by blast

end
