(* ===== verification/BuddySim.thy ===== *)
theory BuddySim
  imports Buddy_Correct
begin

text \<open>
  The command interpreter of \<open>buddy/simulator.c\<close>: it reads a program of \<open>x=alloc(n)\<close> and
  \<open>free(x)\<close> lines, drives the allocator and prints the dump after each command. Both
  output streams are part of the state; \<^term>\<open>None\<close> is undefined behaviour, in the allocator
  or in the conversion of a number. The proofs use the allocator only through the laws of
  \<open>block_allocator\<close>.
\<close>

section \<open>The code\<close>

datatype status_t = SUCCESS | OUTOFMEMORY | DOUBLEFREE | BADINPUT

datatype severity_t = ERROR | WARNING

record var_t =
  mem_ptr :: "nat option"
  in_use :: bool

text \<open>
  The globals \<open>var_map\<close> and \<open>linenum\<close>, the allocator, and what was written to \<open>stdout\<close>
  and \<open>stderr\<close>.
\<close>

record sim =
  var_map :: "var_t list"
  linenum :: nat
  heap :: buddy
  out :: string
  err :: string

definition get_var :: "char \<Rightarrow> nat option" where
  "get_var c = (let v = of_char c :: nat in
     if (97 \<le> v \<and> v \<le> 122) \<or> (65 \<le> v \<and> v \<le> 90) then Some v else None)"

definition severity_msg :: "severity_t \<Rightarrow> string" where
  "severity_msg sev = (case sev of ERROR \<Rightarrow> ''ERROR'' | WARNING \<Rightarrow> ''WARNING'')"

definition print_fault :: "string \<Rightarrow> string \<Rightarrow> severity_t \<Rightarrow> sim \<Rightarrow> sim" where
  "print_fault cmd msg sev s = s\<lparr>err := err s
     @ severity_msg sev @ '': Line '' @ show_nat (linenum s) @ '': '' @ msg @ [CHR 0x0A]
     @ ''    Faulting Command: '' @ cmd @ [CHR 0x0A]\<rparr>"

definition parse_error :: "string \<Rightarrow> sim \<Rightarrow> status_t \<times> sim" where
  "parse_error cmd s = (BADINPUT, print_fault cmd ''Failed to parse command'' ERROR s)"

subsection \<open>Scanning\<close>

text \<open>The parts of \<open>sscanf\<close> the two formats use besides \<open>%d\<close>.\<close>

definition scan_literal :: "string \<Rightarrow> string \<Rightarrow> string option" where
  "scan_literal pat s = (if take (length pat) s = pat then Some (drop (length pat) s) else None)"

text \<open>
  \<open>sscanf(cmd, "%c=alloc(%d%c)", ...)\<close>: the result tells whether the number and the
  character after it were read.
\<close>

definition scan_alloc :: "string \<Rightarrow> (char \<times> int \<times> char option) option" where
  "scan_alloc cmd = (case cmd of [] \<Rightarrow> None
     | v # r \<Rightarrow> Option.bind (scan_literal ''=alloc('' r) (\<lambda>r.
       map_option (\<lambda>(n, r). (v, n, case r of [] \<Rightarrow> None | c # _ \<Rightarrow> Some c)) (scan_int r)))"

text \<open>\<open>sscanf(cmd, "free(%c)", ...)\<close>: the closing parenthesis is not checked.\<close>

definition scan_free :: "string \<Rightarrow> char option" where
  "scan_free cmd = Option.bind (scan_literal ''free('' cmd)
     (\<lambda>r. case r of [] \<Rightarrow> None | c # _ \<Rightarrow> Some c)"

text \<open>The size an allocation command asks for: \<open>k\<close> and \<open>K\<close> multiply by 1024.\<close>

definition alter_size :: "char \<Rightarrow> int \<Rightarrow> int option" where
  "alter_size c n = (if c = CHR ''k'' \<or> c = CHR ''K'' then Some (n * 1024)
     else if c = CHR '')'' then Some n else None)"

subsection \<open>Commands\<close>

definition set_var :: "nat \<Rightarrow> var_t \<Rightarrow> sim \<Rightarrow> sim" where
  "set_var v x s = s\<lparr>var_map := (var_map s)[v := x]\<rparr>"

definition run_alloc :: "string \<Rightarrow> nat \<Rightarrow> int \<Rightarrow> sim \<Rightarrow> (status_t \<times> sim) option" where
  "run_alloc cmd v bytes s =
     Option.bind (buddy_alloc bytes (heap s)) (\<lambda>(r, h).
     let s1 = set_var v ((var_map s ! v)\<lparr>mem_ptr := r\<rparr>) (s\<lparr>heap := h\<rparr>) in
     case r of
       None \<Rightarrow> let s2 = print_fault cmd ''buddy_alloc returned NULL'' WARNING s1 in
         Some (OUTOFMEMORY, s2\<lparr>out := out s2 @ ''Out of memory'' @ [CHR 0x0A]\<rparr>)
     | Some _ \<Rightarrow> Some (SUCCESS, set_var v ((var_map s1 ! v)\<lparr>in_use := True\<rparr>) s1))"

definition parse_alloc :: "string \<Rightarrow> sim \<Rightarrow> (status_t \<times> sim) option" where
  "parse_alloc cmd s = (case scan_alloc cmd of
     None \<Rightarrow> Some (parse_error cmd s)
   | Some (var_name, n, c) \<Rightarrow> guard (int_range n) (case c of
       None \<Rightarrow> Some (parse_error cmd s)
     | Some c \<Rightarrow> (case alter_size c n of
         None \<Rightarrow> Some (parse_error cmd s)
       | Some bytes \<Rightarrow> guard (int_range bytes) (case get_var var_name of
           None \<Rightarrow> Some (parse_error cmd s)
         | Some v \<Rightarrow> run_alloc cmd v bytes s))))"

definition parse_free :: "string \<Rightarrow> sim \<Rightarrow> (status_t \<times> sim) option" where
  "parse_free cmd s = (case Option.bind (scan_free cmd) get_var of
     None \<Rightarrow> Some (parse_error cmd s)
   | Some v \<Rightarrow>
       if \<not> in_use (var_map s ! v) then Some (DOUBLEFREE, print_fault cmd ''Double free'' ERROR s)
       else Option.bind (buddy_free (mem_ptr (var_map s ! v)) (heap s)) (\<lambda>h.
         Some (SUCCESS, set_var v \<lparr>mem_ptr = None, in_use = False\<rparr> (s\<lparr>heap := h\<rparr>))))"

text \<open>
  The compaction of the line in place: blanks are dropped, and the command is the C string
  up to the first \<open>NUL\<close>, which the copy carries along.
\<close>

definition strip_blanks :: "string \<Rightarrow> string" where
  "strip_blanks line = filter (\<lambda>c. c \<notin> {CHR 0x20, CHR 0x0A, CHR 0x0D, CHR 0x09})
     (takeWhile (\<lambda>c. c \<noteq> CHR 0x00) line)"

fun strstr :: "string \<Rightarrow> string \<Rightarrow> bool" where
  "strstr [] pat = (pat = [])"
| "strstr (c # s) pat = (take (length pat) (c # s) = pat \<or> strstr s pat)"

definition parse_command :: "string \<Rightarrow> sim \<Rightarrow> (status_t \<times> sim) option" where
  "parse_command line s =
     (if line = [] \<or> hd line \<in> {CHR 0x00, CHR 0x0A, CHR 0x0D} then Some (SUCCESS, s)
      else let cmd = strip_blanks line in
        Option.bind
         (if strstr cmd ''alloc'' then parse_alloc cmd s
          else if strstr cmd ''free'' then parse_free cmd s
          else Some (parse_error cmd s)) (\<lambda>(status, s1).
        if status \<noteq> SUCCESS then Some (status, s1)
        else map_option (\<lambda>d. (SUCCESS, s1\<lparr>out := out s1 @ d\<rparr>)) (buddy_dump (heap s1))))"

text \<open>The lines \<open>getline\<close> delivers: up to and including the newline.\<close>

fun getlines :: "string \<Rightarrow> string list" where
  "getlines [] = []"
| "getlines (c # cs) = (if c = CHR 0x0A then [c] # getlines cs
     else (case getlines cs of [] \<Rightarrow> [[c]] | l # ls \<Rightarrow> (c # l) # ls))"

fun parse_file :: "string list \<Rightarrow> sim \<Rightarrow> (status_t \<times> sim) option" where
  "parse_file [] s = Some (SUCCESS, s)"
| "parse_file (line # ls) s =
     Option.bind (parse_command line (s\<lparr>linenum := Suc (linenum s)\<rparr>)) (\<lambda>(status, s1).
       if status = SUCCESS then parse_file ls s1 else Some (status, s1))"

definition start_sim :: "buddy \<Rightarrow> sim" where
  "start_sim h = \<lparr>var_map = replicate 256 \<lparr>mem_ptr = None, in_use = False\<rparr>,
     linenum = 0, heap = h, out = [], err = []\<rparr>"

text \<open>
  \<open>main\<close> on an opened input file: the exit code and the final state. The globals of the
  allocator start as zeroed memory.
\<close>

definition simulator_main :: "string \<Rightarrow> (nat \<times> sim) option" where
  "simulator_main input =
     Option.bind (buddy_init \<lparr>links = zero_links, pages = []\<rparr>) (\<lambda>h.
     map_option (\<lambda>(status, s). (if status = SUCCESS then 0 else 1, s))
       (parse_file (getlines input) (start_sim h)))"

section \<open>The variables own live blocks\<close>

definition owns :: "block set \<Rightarrow> var_t list \<Rightarrow> bool" where
  "owns A vm \<longleftrightarrow> length vm = 256 \<and>
     (\<forall>v<256. in_use (vm ! v) \<longrightarrow>
        (\<exists>i k. (i, k) \<in> A \<and> k < MAX_ORDER \<and> mem_ptr (vm ! v) = Some (PAGE_TO_ADDR i))) \<and>
     (\<forall>v<256. \<forall>w<256. in_use (vm ! v) \<and> in_use (vm ! w) \<and> v \<noteq> w \<longrightarrow>
        mem_ptr (vm ! v) \<noteq> mem_ptr (vm ! w))"

definition sim_ok :: "sim \<Rightarrow> bool" where
  "sim_ok s \<longleftrightarrow> (\<exists>A. buddy_ok A (heap s) \<and> owns A (var_map s))"

lemma PAGE_TO_ADDR_eq [simp]: "PAGE_TO_ADDR i = PAGE_TO_ADDR j \<longleftrightarrow> i = j"
  by (simp add: PAGE_TO_ADDR_def)

lemma owns_var:
  assumes "owns A vm" "v < 256" "in_use (vm ! v)"
  obtains i k where "(i, k) \<in> A" "k < MAX_ORDER" "mem_ptr (vm ! v) = Some (PAGE_TO_ADDR i)"
  using assms unfolding owns_def by blast

lemma order_for_half: "order_for bytes n \<Longrightarrow> bytes \<le> 2 ^ 19 \<Longrightarrow> n < 20"
proof (rule ccontr)
  assume *: "order_for bytes n" "bytes \<le> 2 ^ 19" "\<not> n < 20"
  then have "(2::int) ^ 19 \<le> 2 ^ (n - 1)" by (intro power_increasing) auto
  moreover have "(2::int) ^ (n - 1) < bytes" using * by (auto simp: order_for_def)
  ultimately show False using *(2) by linarith
qed

context block_allocator
begin

lemma alloc_owns:
  assumes ok: "ok A s" and owns: "owns A vm" and b: "bytes \<le> 2 ^ 19" and v: "v < 256"
  shows "\<exists>r s'. alloc bytes s = Some (r, s') \<and> (r \<noteq> None \<longrightarrow>
    (\<exists>B. ok B s' \<and> owns B (vm[v := \<lparr>mem_ptr = r, in_use = True\<rparr>])))"
proof -
  have "bytes \<le> 2 ^ 30" using b by simp
  from alloc_law[OF ok this] obtain r s' where r: "alloc bytes s = Some (r, s')"
    "case r of None \<Rightarrow> s' = s | Some a \<Rightarrow> \<exists>i n. a = PAGE_TO_ADDR i \<and> order_for bytes n
       \<and> (i, n) \<notin> A \<and> ok (insert (i, n) A) s'" by blast
  show ?thesis
  proof (cases r)
    case None
    then show ?thesis using r(1) by blast
  next
    case (Some a)
    with r(2) obtain i n where i: "a = PAGE_TO_ADDR i" "order_for bytes n" "(i, n) \<notin> A"
      "ok (insert (i, n) A) s'" by auto
    have fresh: "mem_ptr (vm ! w) \<noteq> Some a" if w: "w < 256" "in_use (vm ! w)" for w
    proof
      assume m: "mem_ptr (vm ! w) = Some a"
      obtain j k where j: "(j, k) \<in> A" "mem_ptr (vm ! w) = Some (PAGE_TO_ADDR j)"
        using owns_var[OF owns w] by blast
      then have "j = i" "(j, k) \<noteq> (i, n)" using m i by auto
      with live[OF i(4), of "(j, k)" "(i, n)"] j(1) show False
        using start_in_area by blast
    qed
    have n: "n < 20" by (rule order_for_half[OF i(2) b])
    let ?vm = "vm[v := \<lparr>mem_ptr = r, in_use = True\<rparr>]"
    have len: "length vm = 256" using owns by (simp add: owns_def)
    have "owns (insert (i, n) A) ?vm"
      unfolding owns_def
    proof (intro conjI allI impI)
      show "length ?vm = 256" using len by simp
    next
      fix w assume w: "w < 256" "in_use (?vm ! w)"
      show "\<exists>j k. (j, k) \<in> insert (i, n) A \<and> k < 20 \<and> mem_ptr (?vm ! w) = Some (PAGE_TO_ADDR j)"
      proof (cases "w = v")
        case True
        then show ?thesis using Some i(1) n v len by auto
      next
        case False
        then have "in_use (vm ! w)" using w by simp
        then show ?thesis using owns_var[OF owns w(1)] False by (metis insertCI nth_list_update_neq)
      qed
    next
      fix u w assume u: "u < 256" "w < 256" "in_use (?vm ! u) \<and> in_use (?vm ! w) \<and> u \<noteq> w"
      have old: "mem_ptr (vm ! u) \<noteq> mem_ptr (vm ! w)" if "in_use (vm ! u)" "in_use (vm ! w)"
        using owns u that unfolding owns_def by blast
      have new: "mem_ptr (?vm ! v) = Some a" using Some len v by simp
      have other: "?vm ! x = vm ! x" if "x \<noteq> v" for x using that by simp
      show "mem_ptr (?vm ! u) \<noteq> mem_ptr (?vm ! w)"
      proof (cases "u = v")
        case True
        then have "w \<noteq> v" "in_use (vm ! w)" using u(3) other[of w] by auto
        then show ?thesis using fresh[OF u(2)] new other True by metis
      next
        case False
        then have "in_use (vm ! u)" using u(3) other[of u] by simp
        then show ?thesis using fresh[OF u(1)] old u(3) new other False by metis
      qed
    qed
    then show ?thesis using r(1) i(4) by blast
  qed
qed

lemma free_owns:
  assumes ok: "ok A s" and owns: "owns A vm" and v: "v < 256" "in_use (vm ! v)"
  shows "\<exists>s' B. free (mem_ptr (vm ! v)) s = Some s' \<and> ok B s'
    \<and> owns B (vm[v := \<lparr>mem_ptr = None, in_use = False\<rparr>])"
proof -
  obtain i k where i: "(i, k) \<in> A" "k < 20" "mem_ptr (vm ! v) = Some (PAGE_TO_ADDR i)"
    using owns_var[OF owns v] by blast
  obtain s' where s': "free (mem_ptr (vm ! v)) s = Some s'" "ok (A - {(i, k)}) s'"
    using free_law[OF ok i(1,2)] i(3) by auto
  let ?vm = "vm[v := \<lparr>mem_ptr = None, in_use = False\<rparr>]"
  have len: "length vm = 256" using owns by (simp add: owns_def)
  have other: "w \<noteq> v \<and> in_use (vm ! w) \<and> ?vm ! w = vm ! w" if "w < 256" "in_use (?vm ! w)" for w
    using that len by (cases "w = v") auto
  have "owns (A - {(i, k)}) ?vm"
    unfolding owns_def
  proof (intro conjI allI impI)
    show "length ?vm = 256" using len by simp
  next
    fix w assume w: "w < 256" "in_use (?vm ! w)"
    note o = other[OF w]
    obtain j l where j: "(j, l) \<in> A" "l < 20" "mem_ptr (vm ! w) = Some (PAGE_TO_ADDR j)"
      using owns_var[OF owns w(1)] o by blast
    have "mem_ptr (vm ! w) \<noteq> mem_ptr (vm ! v)" using owns w(1) v o unfolding owns_def by blast
    then show "\<exists>j l. (j, l) \<in> A - {(i, k)} \<and> l < 20 \<and> mem_ptr (?vm ! w) = Some (PAGE_TO_ADDR j)"
      using j i(3) o by auto
  next
    fix u w assume u: "u < 256" "w < 256" "in_use (?vm ! u) \<and> in_use (?vm ! w) \<and> u \<noteq> w"
    then have "in_use (vm ! u)" "in_use (vm ! w)" "?vm ! u = vm ! u" "?vm ! w = vm ! w"
      using other[of u] other[of w] by blast+
    then show "mem_ptr (?vm ! u) \<noteq> mem_ptr (?vm ! w)"
      using owns u unfolding owns_def by metis
  qed
  then show ?thesis using s' by blast
qed

end

section \<open>Every command keeps the ownership\<close>

lemma get_var_bound: "get_var c = Some v \<Longrightarrow> v < 256"
  by (auto simp: get_var_def Let_def split: if_splits)

lemma print_fault_simps [simp]:
  "var_map (print_fault cmd msg sev s) = var_map s" "heap (print_fault cmd msg sev s) = heap s"
  "out (print_fault cmd msg sev s) = out s" "linenum (print_fault cmd msg sev s) = linenum s"
  by (simp_all add: print_fault_def)

lemma set_var_simps [simp]:
  "var_map (set_var v x s) = (var_map s)[v := x]" "heap (set_var v x s) = heap s"
  "out (set_var v x s) = out s"
  by (simp_all add: set_var_def)

text \<open>Requests of at most half of the memory, within the range of \<open>int\<close>.\<close>

definition modest :: "string \<Rightarrow> bool" where
  "modest line = (case scan_alloc (strip_blanks line) of
     None \<Rightarrow> True
   | Some (_, n, c) \<Rightarrow> int_range n \<and> (case c of None \<Rightarrow> True
       | Some c \<Rightarrow> (case alter_size c n of None \<Rightarrow> True
           | Some bytes \<Rightarrow> int_range bytes \<and> bytes \<le> 2 ^ 19)))"

definition runs_ok :: "(status_t \<times> sim) option \<Rightarrow> bool" where
  "runs_ok r \<longleftrightarrow> (\<exists>st s'. r = Some (st, s') \<and> (st = SUCCESS \<longrightarrow> sim_ok s'))"

lemma runs_ok_parse_error [simp]: "runs_ok (Some (parse_error cmd s))"
  by (simp add: runs_ok_def parse_error_def)

lemma run_alloc_ok:
  assumes "sim_ok s" "bytes \<le> 2 ^ 19" "v < 256"
  shows "runs_ok (run_alloc cmd v bytes s)"
proof -
  obtain A where A: "buddy_ok A (heap s)" "owns A (var_map s)" using assms(1) sim_ok_def by blast
  from ba.alloc_owns[OF A assms(2,3)] obtain r h where r: "buddy_alloc bytes (heap s) = Some (r, h)"
    "r \<noteq> None \<longrightarrow> (\<exists>B. buddy_ok B h \<and> owns B ((var_map s)[v := \<lparr>mem_ptr = r, in_use = True\<rparr>]))"
    by blast
  have len: "length (var_map s) = 256" using A(2) by (simp add: owns_def)
  show ?thesis
  proof (cases r)
    case None
    then show ?thesis using r(1) by (simp add: runs_ok_def run_alloc_def Let_def)
  next
    case (Some a)
    have *: "x\<lparr>mem_ptr := r, in_use := True\<rparr> = \<lparr>mem_ptr = r, in_use = True\<rparr>" for x :: var_t
      by (cases x) simp
    let ?s = "set_var v ((var_map s ! v)\<lparr>mem_ptr := r, in_use := True\<rparr>)
      (set_var v ((var_map s ! v)\<lparr>mem_ptr := r\<rparr>) (s\<lparr>heap := h\<rparr>))"
    have "sim_ok ?s" using Some r(2) unfolding sim_ok_def * by auto
    moreover have "run_alloc cmd v bytes s = Some (SUCCESS, ?s)"
      using Some r(1) len assms(3) by (simp add: run_alloc_def Let_def)
    ultimately show ?thesis by (simp add: runs_ok_def)
  qed
qed

lemma parse_alloc_ok:
  assumes "sim_ok s" "modest line"
  shows "runs_ok (parse_alloc (strip_blanks line) s)"
  using assms run_alloc_ok[OF assms(1)] get_var_bound
  unfolding parse_alloc_def modest_def
  by (auto split: option.splits prod.splits)

lemma parse_free_ok:
  assumes "sim_ok s"
  shows "runs_ok (parse_free cmd s)"
proof (cases "Option.bind (scan_free cmd) get_var")
  case None
  then show ?thesis by (simp add: parse_free_def)
next
  case (Some v)
  then obtain c where "get_var c = Some v" by (auto simp: bind_eq_Some_conv)
  then have v: "v < 256" by (rule get_var_bound)
  obtain A where A: "buddy_ok A (heap s)" "owns A (var_map s)" using assms sim_ok_def by blast
  show ?thesis
  proof (cases "in_use (var_map s ! v)")
    case True
    from ba.free_owns[OF A v True] show ?thesis
      using Some True by (auto simp: parse_free_def runs_ok_def sim_ok_def)
  next
    case False
    then show ?thesis using Some by (simp add: parse_free_def runs_ok_def)
  qed
qed

lemma buddy_dump_total: "buddy_ok A s \<Longrightarrow> \<exists>d. buddy_dump s = Some d"
proof -
  assume "buddy_ok A s"
  then obtain fl where inv: "buddy_inv A {} fl s" by (auto simp: buddy_ok_def)
  have "\<forall>k\<in>set [MIN_ORDER..<Suc MAX_ORDER]. 12 \<le> k \<and> k \<le> 20" by auto
  from dump_orders_ok[OF inv this] show ?thesis unfolding buddy_dump_def by blast
qed

lemma parse_command_ok:
  assumes "sim_ok s" "modest line"
  shows "runs_ok (parse_command line s)"
proof (cases "line = [] \<or> hd line \<in> {CHR 0x00, CHR 0x0A, CHR 0x0D}")
  case True
  then show ?thesis using assms(1) by (simp add: parse_command_def runs_ok_def)
next
  case False
  let ?cmd = "strip_blanks line"
  let ?r = "if strstr ?cmd ''alloc'' then parse_alloc ?cmd s
    else if strstr ?cmd ''free'' then parse_free ?cmd s else Some (parse_error ?cmd s)"
  have "runs_ok ?r"
    using parse_alloc_ok[OF assms] parse_free_ok[OF assms(1)] by simp
  then obtain st s1 where r: "?r = Some (st, s1)" "st = SUCCESS \<longrightarrow> sim_ok s1"
    unfolding runs_ok_def by blast
  have "parse_command line s = (if st \<noteq> SUCCESS then Some (st, s1)
      else map_option (\<lambda>d. (SUCCESS, s1\<lparr>out := out s1 @ d\<rparr>)) (buddy_dump (heap s1)))"
    unfolding parse_command_def if_not_P[OF False] Let_def r(1) by simp
  moreover obtain d where "st = SUCCESS \<longrightarrow> buddy_dump (heap s1) = Some d"
    using r(2) buddy_dump_total unfolding sim_ok_def by blast
  ultimately show ?thesis
    using r(2) by (cases "st = SUCCESS") (simp_all add: runs_ok_def sim_ok_def)
qed

lemma parse_file_ok:
  assumes "sim_ok s" "\<forall>line\<in>set ls. modest line"
  shows "runs_ok (parse_file ls s)"
  using assms
proof (induction ls arbitrary: s)
  case Nil
  then show ?case by (simp add: runs_ok_def)
next
  case (Cons line ls)
  have "sim_ok (s\<lparr>linenum := Suc (linenum s)\<rparr>)" using Cons.prems(1) by (simp add: sim_ok_def)
  then have "runs_ok (parse_command line (s\<lparr>linenum := Suc (linenum s)\<rparr>))"
    by (rule parse_command_ok) (use Cons.prems in simp)
  then obtain st s1 where r: "parse_command line (s\<lparr>linenum := Suc (linenum s)\<rparr>) = Some (st, s1)"
    "st = SUCCESS \<longrightarrow> sim_ok s1"
    unfolding runs_ok_def by blast
  show ?case
  proof (cases "st = SUCCESS")
    case True
    then show ?thesis using r Cons.IH[of s1] Cons.prems(2) by simp
  next
    case False
    then show ?thesis using r by (simp add: runs_ok_def)
  qed
qed

lemma start_sim_ok: "buddy_ok {} h \<Longrightarrow> sim_ok (start_sim h)"
  unfolding sim_ok_def owns_def start_sim_def by (intro exI[of _ "{}"]) simp

section \<open>Properties\<close>

text \<open>
  C5. On any input whose allocation commands ask for at most half of the memory, the simulator
  runs to the end without undefined behaviour, in the allocator or elsewhere, and when it exits
  with \<open>EXIT_SUCCESS\<close> the variables in use own distinct live blocks of the allocator.
\<close>

theorem simulator_safe:
  assumes "\<forall>line\<in>set (getlines input). modest line"
  shows "\<exists>code s. simulator_main input = Some (code, s) \<and> (code = 0 \<longrightarrow> sim_ok s)"
proof -
  obtain h where h: "buddy_init \<lparr>links = zero_links, pages = []\<rparr> = Some h" "buddy_ok {} h"
    using buddy_init_inv by blast
  from parse_file_ok[OF start_sim_ok[OF h(2)] assms] obtain st s where
    "parse_file (getlines input) (start_sim h) = Some (st, s)" "st = SUCCESS \<longrightarrow> sim_ok s"
    unfolding runs_ok_def by blast
  then show ?thesis using h(1) by (simp add: simulator_main_def)
qed

theorem simulator_safe_witness:
  "\<exists>code s. simulator_main (''a=alloc(5K)'' @ [CHR 0x0A] @ ''free(a)'') = Some (code, s) \<and> (code = 0 \<longrightarrow> sim_ok s)"
proof (rule simulator_safe)
  show "\<forall>line\<in>set (getlines (''a=alloc(5K)'' @ [CHR 0x0A] @ ''free(a)'')). modest line"
    by code_simp
qed

text \<open>
  A variable freed twice in a row stops the program with \<open>DOUBLEFREE\<close>, at the latest at
  the second command, whatever follows: the allocator is never asked to free it again.
\<close>

theorem double_free_detected:
  assumes "get_var c = Some v" "length (var_map s) = 256"
    and "parse_file ((''free('' @ c # '')'') # (''free('' @ c # '')'') # ls) s = Some (st, s')"
  shows "st = DOUBLEFREE"
proof -
  let ?line = "''free('' @ c # '')''"
  have v: "v < 256" using assms(1) by (rule get_var_bound)
  have c0: "c \<notin> {CHR 0x20, CHR 0x0A, CHR 0x0D, CHR 0x09, CHR 0x00}"
    using assms(1) by (auto simp: get_var_def split: if_splits)
  have cmd: "strip_blanks ?line = ?line" using c0 by (simp add: strip_blanks_def)
  have "parse_command ?line t = Option.bind (parse_free ?line t) (\<lambda>(status, s1).
      if status \<noteq> SUCCESS then Some (status, s1)
      else map_option (\<lambda>d. (SUCCESS, s1\<lparr>out := out s1 @ d\<rparr>)) (buddy_dump (heap s1)))" for t
    unfolding parse_command_def cmd Let_def by simp
  moreover have "parse_free ?line t =
      (if \<not> in_use (var_map t ! v) then Some (DOUBLEFREE, print_fault ?line ''Double free'' ERROR t)
       else Option.bind (buddy_free (mem_ptr (var_map t ! v)) (heap t)) (\<lambda>h.
         Some (SUCCESS, set_var v \<lparr>mem_ptr = None, in_use = False\<rparr> (t\<lparr>heap := h\<rparr>))))" for t
    using assms(1) by (simp add: parse_free_def scan_free_def scan_literal_def)
  ultimately show ?thesis
    using assms(2,3) v
    by (auto simp: bind_eq_Some_conv split: if_splits)
qed

theorem double_free_detected_witness:
  "\<exists>s st s'. parse_file [''free(q)'', ''free(q)''] s = Some (st, s') \<and> st = DOUBLEFREE"
proof -
  obtain i h where h: "buddy_ok {(i, 13)} h"
    by (rule buddy_one_block[of 5000 13]) (simp_all add: order_for_def)
  let ?s = "set_var 113 \<lparr>mem_ptr = Some (PAGE_TO_ADDR i), in_use = True\<rparr> (start_sim h)"
  have "owns {(i, 13)} (var_map ?s)"
    by (auto simp: owns_def start_sim_def nth_list_update split: if_splits)
  then have "sim_ok ?s" using h by (auto simp: sim_ok_def start_sim_def)
  moreover have "\<forall>line\<in>set [''free(q)'', ''free(q)'']. modest line" by code_simp
  ultimately obtain st s' where r: "parse_file [''free(q)'', ''free(q)''] ?s = Some (st, s')"
    using parse_file_ok unfolding runs_ok_def by blast
  have q: "get_var CHR ''q'' = Some 113" by code_simp
  have l: "length (var_map ?s) = 256" by (simp add: start_sim_def)
  have "st = DOUBLEFREE" by (rule double_free_detected[OF q l, of "[]"]) (use r in simp)
  with r show ?thesis by blast
qed

end
