(* ===== verification/PriQueue.thy ===== *)
theory PriQueue
  imports Prelude "HOL-Library.Multiset" "HOL-Library.Product_Lexorder"
begin

text \<open>
  The priority queue of \<open>scheduler/src/libpriqueue\<close>: a growing ring buffer of pointers kept
  in the order of a comparison function. The comparer is a function pointer that reads the
  memory the elements point to, so it takes that memory as an argument, and so does
  \<open>priqueue_offer\<close>, the only operation that calls it. Reading a cell outside the array or one
  never written makes the result \<^term>\<open>None\<close>. Memory allocation is assumed to succeed.

  The abstraction \<open>queue_list\<close> is the list of elements in queue order; every operation is
  refined to its list counterpart.
\<close>

section \<open>The code\<close>

record ('h, 'a) priqueue_t =
  data :: "'a cell list"
  capacity :: nat
  count :: nat
  start :: nat
  comparer :: "'h \<Rightarrow> 'a \<Rightarrow> 'a \<Rightarrow> int"

definition INITIAL_SIZE :: nat where
  "INITIAL_SIZE = 10"

definition priqueue_init :: "('h \<Rightarrow> 'a \<Rightarrow> 'a \<Rightarrow> int) \<Rightarrow> ('h, 'a) priqueue_t" where
  "priqueue_init cmp = \<lparr>data = replicate INITIAL_SIZE Uninit, capacity = INITIAL_SIZE,
     count = 0, start = 0, comparer = cmp\<rparr>"

definition priqueue_get_true_index :: "('h, 'a) priqueue_t \<Rightarrow> int \<Rightarrow> int" where
  "priqueue_get_true_index q i = c_rem (i + int (start q)) (int (capacity q))"

text \<open>Reading and writing \<open>q->data[k]\<close>.\<close>

definition data_cell :: "('h, 'a) priqueue_t \<Rightarrow> int \<Rightarrow> 'a cell option" where
  "data_cell q k = (if 0 \<le> k \<and> k < int (length (data q)) then Some (data q ! nat k) else None)"

definition data_at :: "('h, 'a) priqueue_t \<Rightarrow> int \<Rightarrow> 'a option" where
  "data_at q k = Option.bind (data_cell q k) cell_val"

definition set_data :: "int \<Rightarrow> 'a cell \<Rightarrow> ('h, 'a) priqueue_t \<Rightarrow> ('h, 'a) priqueue_t option" where
  "set_data k x q = (if 0 \<le> k \<and> k < int (length (data q))
     then Some (q\<lparr>data := (data q)[nat k := x]\<rparr>) else None)"

text \<open>The copying loop of \<open>priqueue_resize\<close>, for \<open>i\<close> from 0 to \<open>count\<close>.\<close>

primrec copy_cells :: "('h, 'a) priqueue_t \<Rightarrow> nat \<Rightarrow> 'a cell list \<Rightarrow> 'a cell list option" where
  "copy_cells q 0 new = Some new"
| "copy_cells q (Suc n) new = Option.bind (copy_cells q n new) (\<lambda>new.
     Option.bind (data_cell q (priqueue_get_true_index q (int n))) (\<lambda>x.
     guard (n < length new) (Some (new[n := x]))))"

definition priqueue_resize :: "('h, 'a) priqueue_t \<Rightarrow> ('h, 'a) priqueue_t option" where
  "priqueue_resize q =
     (let n = capacity q * 2 + 1 in
      map_option (\<lambda>new. q\<lparr>data := new, capacity := n, start := 0\<rparr>)
        (copy_cells q (count q) (replicate n Uninit)))"

definition priqueue_swap :: "int \<Rightarrow> int \<Rightarrow> ('h, 'a) priqueue_t \<Rightarrow> ('h, 'a) priqueue_t option" where
  "priqueue_swap i j q =
     Option.bind (data_cell q i) (\<lambda>save.
     Option.bind (data_cell q j) (\<lambda>x.
     Option.bind (set_data i x q) (set_data j save)))"

text \<open>The loop of \<open>priqueue_offer\<close> that finds the index.\<close>

function offer_index :: "'h \<Rightarrow> ('h, 'a) priqueue_t \<Rightarrow> 'a \<Rightarrow> nat \<Rightarrow> nat option" where
  "offer_index h q ptr i =
     (if i < count q then
        Option.bind (data_at q (priqueue_get_true_index q (int i))) (\<lambda>x.
          if 0 \<le> comparer q h ptr x then offer_index h q ptr (Suc i) else Some i)
      else Some i)"
  by pat_completeness auto
termination
  by (relation "measure (\<lambda>(_, q, _, i). count q - i)") auto

declare offer_index.simps [simp del]

text \<open>\<open>for (i = count; i > index; i--) swap(i, i - 1)\<close>\<close>

primrec move_down :: "nat \<Rightarrow> nat \<Rightarrow> ('h, 'a) priqueue_t \<Rightarrow> ('h, 'a) priqueue_t option" where
  "move_down j 0 q = Some q"
| "move_down j (Suc i) q =
     (if j < Suc i then
        Option.bind (priqueue_swap (priqueue_get_true_index q (int (Suc i)))
                                   (priqueue_get_true_index q (int i)) q)
          (move_down j i)
      else Some q)"

definition priqueue_offer ::
  "'h \<Rightarrow> 'a \<Rightarrow> ('h, 'a) priqueue_t \<Rightarrow> (nat \<times> ('h, 'a) priqueue_t) option" where
  "priqueue_offer h ptr q =
     Option.bind (if count q = capacity q then priqueue_resize q else Some q) (\<lambda>q.
     Option.bind (offer_index h q ptr 0) (\<lambda>i.
     Option.bind (set_data (priqueue_get_true_index q (int (count q))) (Val ptr) q) (\<lambda>q.
     map_option (\<lambda>q. (i, q\<lparr>count := Suc (count q)\<rparr>)) (move_down i (count q) q))))"

definition priqueue_size :: "('h, 'a) priqueue_t \<Rightarrow> nat" where
  "priqueue_size q = count q"

text \<open>The outer option is undefined behaviour, the inner one \<open>NULL\<close>.\<close>

definition priqueue_peek :: "('h, 'a) priqueue_t \<Rightarrow> 'a option option" where
  "priqueue_peek q = (if priqueue_size q = 0 then Some None
     else map_option Some (data_at q (priqueue_get_true_index q 0)))"

definition priqueue_poll :: "('h, 'a) priqueue_t \<Rightarrow> ('a option \<times> ('h, 'a) priqueue_t) option" where
  "priqueue_poll q = (if priqueue_size q = 0 then Some (None, q)
     else map_option (\<lambda>ret. (Some ret, q\<lparr>start := Suc (start q), count := count q - 1\<rparr>))
            (data_at q (priqueue_get_true_index q 0)))"

definition priqueue_at :: "('h, 'a) priqueue_t \<Rightarrow> int \<Rightarrow> 'a option option" where
  "priqueue_at q i = (if int (count q) \<le> i then Some None
     else map_option Some (data_at q (priqueue_get_true_index q i)))"

text \<open>\<open>for (i = index; i < count - 1; i++) swap(i, i + 1)\<close>\<close>

function move_up :: "nat \<Rightarrow> ('h, 'a) priqueue_t \<Rightarrow> nat \<Rightarrow> ('h, 'a) priqueue_t option" where
  "move_up n q i =
     (if i + 1 < n then
        Option.bind (priqueue_swap (priqueue_get_true_index q (int i))
                                   (priqueue_get_true_index q (int (i + 1))) q)
          (\<lambda>q. move_up n q (i + 1))
      else Some q)"
  by pat_completeness auto
termination
  by (relation "measure (\<lambda>(n, _, i). n - i)") auto

declare move_up.simps [simp del]

definition priqueue_remove_at ::
  "('h, 'a) priqueue_t \<Rightarrow> int \<Rightarrow> ('a option \<times> ('h, 'a) priqueue_t) option" where
  "priqueue_remove_at q i =
     (if i < 0 \<or> int (count q) \<le> i then Some (None, q)
      else Option.bind (move_up (count q) q (nat i)) (\<lambda>q.
        let q = q\<lparr>count := count q - 1\<rparr> in
        map_option (\<lambda>x. (Some x, q)) (data_at q (priqueue_get_true_index q (int (count q))))))"

text \<open>
  The loop of \<open>priqueue_remove\<close>, from index \<open>i\<close> with \<open>removed\<close> elements gone: after a removal
  the same index is looked at again. The fuel is spent once per iteration;
  \<open>remove_loop_total\<close> below shows that \<open>count q + 1\<close> is enough.
\<close>

fun remove_loop ::
  "nat \<Rightarrow> 'a \<Rightarrow> nat \<Rightarrow> nat \<Rightarrow> ('h, 'a) priqueue_t \<Rightarrow> (nat \<times> ('h, 'a) priqueue_t) option" where
  "remove_loop 0 ptr i removed q = None"
| "remove_loop (Suc fuel) ptr i removed q =
     (if i < count q then
        Option.bind (data_at q (priqueue_get_true_index q (int i))) (\<lambda>x.
          if ptr = x then
            Option.bind (priqueue_remove_at q (int i))
              (\<lambda>(_, q). remove_loop fuel ptr i (Suc removed) q)
          else remove_loop fuel ptr (Suc i) removed q)
      else Some (removed, q))"

definition priqueue_remove ::
  "'a \<Rightarrow> ('h, 'a) priqueue_t \<Rightarrow> (nat \<times> ('h, 'a) priqueue_t) option" where
  "priqueue_remove ptr q = remove_loop (Suc (count q)) ptr 0 0 q"

definition priqueue_is_empty :: "('h, 'a) priqueue_t \<Rightarrow> bool" where
  "priqueue_is_empty q = (count q = 0)"

section \<open>The list a queue represents\<close>

definition slot :: "('h, 'a) priqueue_t \<Rightarrow> nat \<Rightarrow> nat" where
  "slot q i = (i + start q) mod capacity q"

definition cell_the :: "'a cell \<Rightarrow> 'a" where
  "cell_the c = the (cell_val c)"

text \<open>
  The first \<open>n\<close> positions of the ring: inside \<open>priqueue_offer\<close> one more than \<open>count\<close>
  is in use.
\<close>

definition view_ok :: "nat \<Rightarrow> ('h, 'a) priqueue_t \<Rightarrow> bool" where
  "view_ok n q \<longleftrightarrow> 0 < capacity q \<and> length (data q) = capacity q \<and> n \<le> capacity q
     \<and> (\<forall>i<n. data q ! slot q i \<noteq> Uninit)"

definition view :: "nat \<Rightarrow> ('h, 'a) priqueue_t \<Rightarrow> 'a list" where
  "view n q = map (\<lambda>i. cell_the (data q ! slot q i)) [0..<n]"

definition pq_ok :: "('h, 'a) priqueue_t \<Rightarrow> bool" where
  "pq_ok q = view_ok (count q) q"

definition queue_list :: "('h, 'a) priqueue_t \<Rightarrow> 'a list" where
  "queue_list q = view (count q) q"

definition same_geometry :: "('h, 'a) priqueue_t \<Rightarrow> ('h, 'a) priqueue_t \<Rightarrow> bool" where
  "same_geometry q r \<longleftrightarrow> start q = start r \<and> capacity q = capacity r \<and> count q = count r
     \<and> comparer q = comparer r"

lemma cell_the_Val [simp]: "cell_the (Val x) = x"
  by (simp add: cell_the_def)

lemma cell_val_the: "c \<noteq> Uninit \<Longrightarrow> cell_val c = Some (cell_the c)"
  by (cases c) (simp_all add: cell_the_def)

lemma length_view [simp]: "length (view n q) = n"
  by (simp add: view_def)

lemma length_queue_list [simp]: "length (queue_list q) = count q"
  by (simp add: queue_list_def)

lemma nth_view: "i < n \<Longrightarrow> view n q ! i = cell_the (data q ! slot q i)"
  by (simp add: view_def)

lemma view_okD:
  assumes "view_ok n q"
  shows "0 < capacity q" "length (data q) = capacity q" "n \<le> capacity q"
    "i < n \<Longrightarrow> data q ! slot q i \<noteq> Uninit" "slot q i < capacity q"
  using assms by (auto simp: view_ok_def slot_def)

lemma view_ok_mono: "view_ok n q \<Longrightarrow> m \<le> n \<Longrightarrow> view_ok m q"
  by (simp add: view_ok_def)

lemma take_view: "m \<le> n \<Longrightarrow> take m (view n q) = view m q"
  by (simp add: view_def take_map)

lemma true_index [simp]: "priqueue_get_true_index q (int i) = int (slot q i)"
  using c_rem_nat[of "i + start q" "capacity q"]
  by (simp add: priqueue_get_true_index_def slot_def)

lemma true_index_0 [simp]: "priqueue_get_true_index q 0 = int (slot q 0)"
  using true_index[of q 0] by simp

lemma slot_inj:
  assumes "slot q i = slot q j" "i < capacity q" "j < capacity q"
  shows "i = j"
  using assms ring_inj[of "start q" i "capacity q" j] by (simp add: slot_def add.commute)

lemma data_cell_slot: "view_ok n q \<Longrightarrow> data_cell q (int (slot q i)) = Some (data q ! slot q i)"
  by (simp add: data_cell_def view_okD)

lemma data_at_slot:
  assumes "view_ok n q" "i < n"
  shows "data_at q (int (slot q i)) = Some (view n q ! i)"
  using assms view_okD(4)[OF assms] by (simp add: data_at_def data_cell_slot cell_val_the nth_view)

lemma same_geometryD:
  assumes "same_geometry q r"
  shows "slot r i = slot q i" "capacity r = capacity q" "count r = count q" "comparer r = comparer q"
    "start r = start q"
  using assms by (simp_all add: same_geometry_def slot_def)

lemma same_geometry_data [simp]: "same_geometry q (q\<lparr>data := d\<rparr>)" "same_geometry q q"
  by (simp_all add: same_geometry_def)

lemma same_geometry_trans: "same_geometry p q \<Longrightarrow> same_geometry q r \<Longrightarrow> same_geometry p r"
  by (simp add: same_geometry_def)

text \<open>Writing a slot.\<close>

lemma slot_data_upd [simp]: "slot (q\<lparr>data := d\<rparr>) i = slot q i"
  "slot (q\<lparr>count := c\<rparr>) i = slot q i"
  "slot (q\<lparr>start := Suc (start q)\<rparr>) i = slot q (Suc i)"
  by (simp_all add: slot_def)

lemma set_data_view:
  assumes ok: "view_ok n q" and j: "j < n" and x: "x \<noteq> Uninit"
  shows "\<exists>q'. set_data (int (slot q j)) x q = Some q' \<and> view_ok n q' \<and> same_geometry q q'
    \<and> view n q' = (view n q)[j := cell_the x]"
proof -
  let ?q = "q\<lparr>data := (data q)[slot q j := x]\<rparr>"
  note V = view_okD[OF ok]
  have upd: "data ?q ! slot q i = (if i = j then x else data q ! slot q i)" if "i < n" for i
    using slot_inj[of q i j] that j V(2,3,5) by (auto simp: nth_list_update)
  have "set_data (int (slot q j)) x q = Some ?q" using V by (simp add: set_data_def)
  moreover have "view_ok n ?q"
    unfolding view_ok_def slot_data_upd using V(1-4) upd x by simp
  moreover have "view n ?q = (view n q)[j := cell_the x]"
    by (rule nth_equalityI) (use upd j in \<open>auto simp: nth_view nth_list_update\<close>)
  ultimately show ?thesis by auto
qed

lemma swap_view:
  assumes ok: "view_ok n q" and i: "i < n" and j: "j < n"
  shows "\<exists>q'. priqueue_swap (int (slot q i)) (int (slot q j)) q = Some q' \<and> view_ok n q'
    \<and> same_geometry q q' \<and> view n q' = (view n q)[i := view n q ! j, j := view n q ! i]"
proof -
  let ?x = "data q ! slot q j" and ?save = "data q ! slot q i"
  have x: "?x \<noteq> Uninit" "?save \<noteq> Uninit" using view_okD(4)[OF ok] i j by blast+
  from set_data_view[OF ok i x(1)] obtain q1 where
    q1: "set_data (int (slot q i)) ?x q = Some q1" "view_ok n q1" "same_geometry q q1"
      "view n q1 = (view n q)[i := cell_the ?x]" by blast
  from set_data_view[OF q1(2) j x(2)] obtain q2 where
    q2: "set_data (int (slot q1 j)) ?save q1 = Some q2" "view_ok n q2" "same_geometry q1 q2"
      "view n q2 = (view n q1)[j := cell_the ?save]" by blast
  have "priqueue_swap (int (slot q i)) (int (slot q j)) q = Some q2"
    using q1(1) q2(1) same_geometryD(1)[OF q1(3)]
    by (simp add: priqueue_swap_def data_cell_slot[OF ok])
  moreover have "view n q2 = (view n q)[i := view n q ! j, j := view n q ! i]"
    using q2(4) q1(4) i j by (simp add: nth_view)
  ultimately show ?thesis using q2(2) same_geometry_trans[OF q1(3) q2(3)] by blast
qed

text \<open>Moving an element towards the front, and towards the back.\<close>

lemma move_down_view:
  assumes "view_ok n q" "view n q = A @ B @ x # C"
  shows "\<exists>q'. move_down (length A) (length A + length B) q = Some q' \<and> view_ok n q'
    \<and> same_geometry q q' \<and> view n q' = A @ x # B @ C"
  using assms
proof (induction B arbitrary: q C rule: rev_induct)
  case Nil
  then have "move_down (length A) (length A) q = Some q" by (cases "length A") simp_all
  then show ?case using Nil by auto
next
  case (snoc y B)
  let ?k = "length A + length B"
  have "length (view n q) = Suc (Suc (?k + length C))" using snoc.prems(2) by simp
  then have k: "Suc ?k < n" "?k < n" by simp_all
  from swap_view[OF snoc.prems(1) k] obtain q1 where
    q1: "priqueue_swap (int (slot q (Suc ?k))) (int (slot q ?k)) q = Some q1" "view_ok n q1"
      "same_geometry q q1" "view n q1 = (view n q)[Suc ?k := view n q ! ?k, ?k := view n q ! Suc ?k]"
    by blast
  have "view n q1 = A @ B @ x # y # C"
    unfolding q1(4) snoc.prems(2) by (simp add: nth_append list_update_append)
  from snoc.IH[OF q1(2) this] obtain q' where
    q': "move_down (length A) ?k q1 = Some q'" "view_ok n q'" "same_geometry q1 q'"
      "view n q' = A @ x # B @ y # C" by blast
  have "move_down (length A) (length A + length (B @ [y])) q = Some q'"
    using q1(1) q'(1) by (simp add: true_index[of _ "Suc ?k", simplified] true_index[of _ ?k, simplified])
  then show ?case using q' same_geometry_trans[OF q1(3) q'(3)] by auto
qed

lemma move_up_view:
  assumes "view_ok n q" "view n q = A @ x # B"
  shows "\<exists>q'. move_up n q (length A) = Some q' \<and> view_ok n q' \<and> same_geometry q q'
    \<and> view n q' = A @ B @ [x]"
  using assms
proof (induction B arbitrary: q A)
  case Nil
  then have "n = Suc (length A)" using length_view[of n q] by simp
  then show ?case using Nil by (subst move_up.simps) auto
next
  case (Cons y B)
  let ?k = "length A"
  have "length (view n q) = Suc (Suc (?k + length B))" using Cons.prems(2) by simp
  then have k: "?k < n" "Suc ?k < n" by simp_all
  from swap_view[OF Cons.prems(1) k] obtain q1 where
    q1: "priqueue_swap (int (slot q ?k)) (int (slot q (Suc ?k))) q = Some q1" "view_ok n q1"
      "same_geometry q q1" "view n q1 = (view n q)[?k := view n q ! Suc ?k, Suc ?k := view n q ! ?k]"
    by blast
  have "view n q1 = (A @ [y]) @ x # B"
    unfolding q1(4) Cons.prems(2) by (simp add: nth_append list_update_append)
  from Cons.IH[OF q1(2) this] obtain q' where
    q': "move_up n q1 (Suc ?k) = Some q'" "view_ok n q'" "same_geometry q1 q'"
      "view n q' = A @ y # B @ [x]" by auto
  have "move_up n q ?k = Some q'"
    using q1(1) q'(1) k by (subst move_up.simps) (simp add: true_index[of _ "Suc ?k", simplified])
  then show ?case using q' same_geometry_trans[OF q1(3) q'(3)] by auto
qed

section \<open>Refinement to lists\<close>

lemma pq_okD:
  assumes "pq_ok q"
  shows "view_ok (count q) q" "0 < capacity q" "length (data q) = capacity q" "count q \<le> capacity q"
  using assms by (simp_all add: pq_ok_def view_ok_def)

lemma priqueue_init_list:
  "pq_ok (priqueue_init cmp)" "queue_list (priqueue_init cmp) = []"
  "comparer (priqueue_init cmp) = cmp"
  by (simp_all add: pq_ok_def view_ok_def priqueue_init_def INITIAL_SIZE_def queue_list_def view_def)

lemma copy_cells_ok:
  assumes "view_ok (count q) q" "n \<le> count q" "count q \<le> length new"
  shows "\<exists>new'. copy_cells q n new = Some new' \<and> length new' = length new
    \<and> (\<forall>i<n. new' ! i = data q ! slot q i)"
  using assms(2)
proof (induction n)
  case 0
  then show ?case by simp
next
  case (Suc n)
  then obtain new' where new': "copy_cells q n new = Some new'" "length new' = length new"
    "\<forall>i<n. new' ! i = data q ! slot q i" by auto
  have "n < length new'" using Suc.prems assms(3) new'(2) by simp
  moreover have "data_cell q (int (slot q n)) = Some (data q ! slot q n)"
    using assms(1) by (rule data_cell_slot)
  ultimately show ?case using new' by (auto simp: nth_list_update less_Suc_eq)
qed

lemma resize_ok:
  assumes ok: "pq_ok q"
  shows "\<exists>q'. priqueue_resize q = Some q' \<and> pq_ok q' \<and> queue_list q' = queue_list q
    \<and> count q' = count q \<and> comparer q' = comparer q \<and> count q' < capacity q'"
proof -
  note V = pq_okD[OF ok]
  let ?n = "capacity q * 2 + 1"
  obtain new where new: "copy_cells q (count q) (replicate ?n Uninit) = Some new"
    "length new = ?n" "\<forall>i<count q. new ! i = data q ! slot q i"
    using copy_cells_ok[OF V(1) order_refl, of "replicate ?n Uninit"] V(4) by auto
  let ?q = "q\<lparr>data := new, capacity := ?n, start := 0\<rparr>"
  have sl: "slot ?q i = i" if "i < count q" for i using that V(4) by (simp add: slot_def)
  have "pq_ok ?q"
    unfolding pq_ok_def view_ok_def using new(2,3) V(4) sl view_okD(4)[OF V(1)] by simp
  moreover have "queue_list ?q = queue_list q"
    unfolding queue_list_def view_def using new(3) sl by simp
  moreover have "priqueue_resize q = Some ?q"
    using new(1) by (simp add: priqueue_resize_def Let_def)
  ultimately show ?thesis using V(4) by auto
qed

lemma push_view:
  assumes ok: "view_ok n q" and n: "n < capacity q"
  shows "\<exists>q'. set_data (int (slot q n)) (Val x) q = Some q' \<and> view_ok (Suc n) q'
    \<and> same_geometry q q' \<and> view (Suc n) q' = view n q @ [x]"
proof -
  let ?q = "q\<lparr>data := (data q)[slot q n := Val x]\<rparr>"
  note V = view_okD[OF ok]
  have upd: "data ?q ! slot q i = (if i = n then Val x else data q ! slot q i)" if "i \<le> n" for i
    using slot_inj[of q i n] that n V(2,5) by (auto simp: nth_list_update)
  have "set_data (int (slot q n)) (Val x) q = Some ?q" using V by (simp add: set_data_def)
  moreover have "view_ok (Suc n) ?q"
    unfolding view_ok_def slot_data_upd using V(1,2,4) n upd by (simp add: less_Suc_eq_le)
  moreover have "view (Suc n) ?q = view n q @ [x]"
    unfolding view_def slot_data_upd using upd by simp
  ultimately show ?thesis by auto
qed

lemma offer_index_ok:
  assumes "pq_ok q" "i \<le> count q"
  shows "offer_index h q x i
    = Some (i + length (takeWhile (\<lambda>y. 0 \<le> comparer q h x y) (drop i (queue_list q))))"
  using assms(2)
proof (induction "count q - i" arbitrary: i)
  case 0
  then show ?case by (subst offer_index.simps) simp
next
  case (Suc d)
  then have i: "i < count q" by simp
  have d: "drop i (queue_list q) = queue_list q ! i # drop (Suc i) (queue_list q)"
    using i by (simp add: Cons_nth_drop_Suc)
  have at: "data_at q (priqueue_get_true_index q (int i)) = Some (queue_list q ! i)"
    using data_at_slot[OF pq_okD(1)[OF assms(1)] i] by (simp add: queue_list_def)
  have "d = count q - Suc i" "Suc i \<le> count q" using Suc.hyps(2) i by simp_all
  note IH = Suc.hyps(1)[OF this]
  show ?case
    using i at IH d by (subst offer_index.simps) simp
qed

lemma priqueue_offer_list:
  assumes ok: "pq_ok q" and P_def: "P = (\<lambda>y. 0 \<le> comparer q h x y)"
  shows "\<exists>q'. priqueue_offer h x q = Some (length (takeWhile P (queue_list q)), q') \<and> pq_ok q'
    \<and> comparer q' = comparer q
    \<and> queue_list q' = takeWhile P (queue_list q) @ x # dropWhile P (queue_list q)"
proof -
  let ?A = "takeWhile P (queue_list q)" and ?B = "dropWhile P (queue_list q)"
  obtain q1 where q1: "(if count q = capacity q then priqueue_resize q else Some q) = Some q1"
    "pq_ok q1" "queue_list q1 = queue_list q" "count q1 = count q" "comparer q1 = comparer q"
    "count q1 < capacity q1"
  proof (cases "count q = capacity q")
    case True
    then show thesis using resize_ok[OF ok] that by auto
  next
    case False
    then show thesis using that[of q] ok pq_okD(4)[OF ok] by simp
  qed
  have len: "length ?A + length ?B = count q"
    by (metis length_append length_queue_list takeWhile_dropWhile_id)
  have idx: "offer_index h q1 x 0 = Some (length ?A)"
    using offer_index_ok[OF q1(2), of 0 h x] q1(3,5) by (simp add: P_def)
  from push_view[OF pq_okD(1)[OF q1(2)] q1(6), of x] obtain q2 where
    q2: "set_data (int (slot q1 (count q1))) (Val x) q1 = Some q2" "view_ok (Suc (count q1)) q2"
      "same_geometry q1 q2" "view (Suc (count q1)) q2 = view (count q1) q1 @ [x]" by blast
  have "view (count q1) q1 = ?A @ ?B" using q1(3) by (simp add: queue_list_def)
  then have v2: "view (Suc (count q1)) q2 = ?A @ ?B @ x # []" using q2(4) by simp
  from move_down_view[OF q2(2) v2] obtain q3 where
    q3: "move_down (length ?A) (count q2) q2 = Some q3" "view_ok (Suc (count q1)) q3"
      "same_geometry q2 q3" "view (Suc (count q1)) q3 = ?A @ x # ?B"
    using len q1(4) same_geometryD(3)[OF q2(3)] by auto
  let ?q = "q3\<lparr>count := Suc (count q3)\<rparr>"
  have c3: "count q3 = count q1" "comparer q3 = comparer q1"
    using same_geometryD(3,4)[OF q2(3)] same_geometryD(3,4)[OF q3(3)] by simp_all
  have "priqueue_offer h x q = Some (length ?A, ?q)"
    using q1(1) idx q2(1) q3(1) by (simp add: priqueue_offer_def)
  moreover have "pq_ok ?q"
    using q3(2) c3(1) unfolding pq_ok_def view_ok_def by simp
  moreover have "queue_list ?q = ?A @ x # ?B"
    using q3(4) c3(1) unfolding queue_list_def view_def by simp
  ultimately show ?thesis using c3(2) q1(5) by auto
qed

lemma mset_insert_at: "mset (takeWhile P l @ x # dropWhile P l) = add_mset x (mset l)"
  by (induction l) auto

lemma queue_list_Nil: "queue_list q = [] \<longleftrightarrow> count q = 0"
  by (metis length_0_conv length_queue_list)

lemma priqueue_is_empty_list: "priqueue_is_empty q \<longleftrightarrow> queue_list q = []"
  by (simp add: priqueue_is_empty_def queue_list_Nil)

lemma priqueue_at_list:
  assumes "pq_ok q"
  shows "priqueue_at q (int i) = Some (if i < count q then Some (queue_list q ! i) else None)"
  using data_at_slot[OF pq_okD(1)[OF assms], of i]
  by (simp add: priqueue_at_def queue_list_def)

lemma priqueue_peek_list:
  assumes "pq_ok q"
  shows "priqueue_peek q = Some (if queue_list q = [] then None else Some (hd (queue_list q)))"
proof (cases "count q = 0")
  case True
  then show ?thesis by (simp add: priqueue_peek_def priqueue_size_def queue_list_Nil)
next
  case False
  then have "hd (queue_list q) = view (count q) q ! 0"
    by (metis hd_conv_nth queue_list_Nil queue_list_def)
  then show ?thesis
    using False data_at_slot[OF pq_okD(1)[OF assms], of 0]
    by (simp add: priqueue_peek_def priqueue_size_def queue_list_Nil)
qed

lemma priqueue_poll_Nil:
  "queue_list q = [] \<Longrightarrow> priqueue_poll q = Some (None, q)"
  by (simp add: priqueue_poll_def priqueue_size_def queue_list_Nil)

lemma priqueue_poll_Cons:
  assumes ok: "pq_ok q" and l: "queue_list q = x # xs"
  shows "\<exists>q'. priqueue_poll q = Some (Some x, q') \<and> pq_ok q' \<and> queue_list q' = xs
    \<and> comparer q' = comparer q"
proof -
  note V = pq_okD[OF ok]
  have c: "0 < count q" using l queue_list_Nil[of q] by auto
  let ?q = "q\<lparr>start := Suc (start q), count := count q - 1\<rparr>"
  have "view (count q) q ! 0 = x" using l by (simp add: queue_list_def)
  then have "priqueue_poll q = Some (Some x, ?q)"
    using c data_at_slot[OF V(1) c] by (simp add: priqueue_poll_def priqueue_size_def)
  moreover have "pq_ok ?q"
    unfolding pq_ok_def view_ok_def using V view_okD(4)[OF V(1)] by auto
  moreover have "queue_list ?q = xs"
  proof (rule nth_equalityI)
    show "length (queue_list ?q) = length xs" using l length_queue_list[of q] by simp
    fix i assume "i < length (queue_list ?q)"
    then have i: "Suc i < count q" by simp
    then have "cell_the (data q ! slot q (Suc i)) = queue_list q ! Suc i"
      by (simp add: queue_list_def nth_view)
    also have "\<dots> = xs ! i" using l by simp
    finally show "queue_list ?q ! i = xs ! i"
      using i by (simp add: queue_list_def nth_view)
  qed
  ultimately show ?thesis by auto
qed

lemma priqueue_remove_at_bad:
  "i < 0 \<or> int (count q) \<le> i \<Longrightarrow> priqueue_remove_at q i = Some (None, q)"
  by (simp add: priqueue_remove_at_def)

lemma priqueue_remove_at_list:
  assumes ok: "pq_ok q" and l: "queue_list q = A @ x # B"
  shows "\<exists>q'. priqueue_remove_at q (int (length A)) = Some (Some x, q') \<and> pq_ok q'
    \<and> queue_list q' = A @ B \<and> comparer q' = comparer q"
proof -
  let ?n = "length A + length B"
  have c: "count q = Suc ?n" using l length_queue_list[of q] by simp
  have v: "view (count q) q = A @ x # B" using l by (simp add: queue_list_def)
  from move_up_view[OF pq_okD(1)[OF ok] v] obtain q1 where
    q1: "move_up (count q) q (length A) = Some q1" "view_ok (count q) q1" "same_geometry q q1"
      "view (count q) q1 = A @ B @ [x]" by blast
  let ?q = "q1\<lparr>count := ?n\<rparr>"
  have "view (count q) q1 ! ?n = x" unfolding q1(4) by (simp add: nth_append)
  then have "data_at q1 (int (slot q1 ?n)) = Some x"
    using data_at_slot[OF q1(2), of ?n] c by simp
  moreover have "data_at ?q k = data_at q1 k" for k by (simp add: data_at_def data_cell_def)
  ultimately have "priqueue_remove_at q (int (length A)) = Some (Some x, ?q)"
    using q1(1) c same_geometryD(3)[OF q1(3)] true_index[of ?q ?n]
    by (simp add: priqueue_remove_at_def Let_def del: true_index)
  moreover have "pq_ok ?q"
    using q1(2) c unfolding pq_ok_def view_ok_def by simp
  moreover have "queue_list ?q = A @ B"
  proof -
    have "queue_list ?q = view ?n q1" by (simp add: queue_list_def view_def)
    also have "\<dots> = take ?n (view (count q) q1)" using c by (simp add: take_view)
    also have "\<dots> = A @ B" unfolding q1(4) by simp
    finally show ?thesis .
  qed
  ultimately show ?thesis using same_geometryD(4)[OF q1(3)] by auto
qed

lemma remove_loop_total:
  assumes "pq_ok q" "i \<le> count q" "count q - i < fuel"
  shows "\<exists>q'. remove_loop fuel x i r q
      = Some (r + length (filter (\<lambda>y. y = x) (drop i (queue_list q))), q')
    \<and> pq_ok q' \<and> queue_list q' = take i (queue_list q) @ filter (\<lambda>y. y \<noteq> x) (drop i (queue_list q))
    \<and> comparer q' = comparer q"
  using assms
proof (induction fuel arbitrary: q i r)
  case 0
  then show ?case by simp
next
  case (Suc fuel)
  show ?case
  proof (cases "i < count q")
    case False
    then show ?thesis using Suc.prems by (intro exI[of _ q]) simp
  next
    case True
    let ?l = "queue_list q"
    have split: "?l = take i ?l @ ?l ! i # drop (Suc i) ?l" "length (take i ?l) = i"
      using True id_take_nth_drop[of i ?l] by simp_all
    have d: "drop i ?l = ?l ! i # drop (Suc i) ?l" using True by (simp add: Cons_nth_drop_Suc)
    have at: "data_at q (priqueue_get_true_index q (int i)) = Some (?l ! i)"
      using data_at_slot[OF pq_okD(1)[OF Suc.prems(1)] True] by (simp add: queue_list_def)
    show ?thesis
    proof (cases "?l ! i = x")
      case True
      obtain q1 where q1: "priqueue_remove_at q (int i) = Some (Some (?l ! i), q1)" "pq_ok q1"
        "queue_list q1 = take i ?l @ drop (Suc i) ?l" "comparer q1 = comparer q"
        using priqueue_remove_at_list[OF Suc.prems(1) split(1)] split(2) by auto
      have c: "count q1 = count q - 1"
        using arg_cong[OF q1(3), of length] \<open>i < count q\<close> by simp
      have "i \<le> count q1" "count q1 - i < fuel" using c \<open>i < count q\<close> Suc.prems(3) by simp_all
      from Suc.IH[OF q1(2) this, of "Suc r"] obtain q2 where
        q2: "remove_loop fuel x i (Suc r) q1
            = Some (Suc r + length (filter (\<lambda>y. y = x) (drop i (queue_list q1))), q2)"
          "pq_ok q2" "queue_list q2 = take i (queue_list q1) @ filter (\<lambda>y. y \<noteq> x) (drop i (queue_list q1))"
          "comparer q2 = comparer q1" by blast
      have "drop i (queue_list q1) = drop (Suc i) ?l" "take i (queue_list q1) = take i ?l"
        unfolding q1(3) using \<open>i < count q\<close> by simp_all
      then show ?thesis using q2 q1(1,4) at d True \<open>i < count q\<close> by auto
    next
      case False
      have "Suc i \<le> count q" "count q - Suc i < fuel" using True Suc.prems(3) by simp_all
      from Suc.IH[OF Suc.prems(1) this, of r] show ?thesis
        using at d False True by (auto simp: take_Suc_conv_app_nth)
    qed
  qed
qed

lemma priqueue_remove_list:
  assumes "pq_ok q"
  shows "\<exists>q'. priqueue_remove x q = Some (length (filter (\<lambda>y. y = x) (queue_list q)), q')
    \<and> pq_ok q' \<and> queue_list q' = filter (\<lambda>y. y \<noteq> x) (queue_list q) \<and> comparer q' = comparer q"
  using remove_loop_total[OF assms, of 0 "Suc (count q)" x 0] by (simp add: priqueue_remove_def)

text \<open>
  A negative index is not rejected by \<open>priqueue_at\<close>: as long as nothing was polled it is an
  access in front of the array.
\<close>

lemma priqueue_at_negative:
  assumes "start q = 0" "k < 0" "- int (capacity q) < k"
  shows "priqueue_at q k = None"
proof -
  have "priqueue_get_true_index q k = k"
    using assms by (simp add: priqueue_get_true_index_def c_rem_def)
  then show ?thesis using assms by (simp add: priqueue_at_def data_at_def data_cell_def)
qed

section \<open>The interface\<close>

text \<open>
  A priority queue as its clients see it: \<open>inv\<close> is its invariant, \<open>abs\<close> the list it holds.
\<close>

locale pri_queue =
  fixes inv :: "'q \<Rightarrow> bool" and abs :: "'q \<Rightarrow> 'a list"
    and cmp :: "'h \<Rightarrow> 'a \<Rightarrow> 'a \<Rightarrow> int"
    and offer :: "'h \<Rightarrow> 'a \<Rightarrow> 'q \<Rightarrow> (nat \<times> 'q) option"
    and poll :: "'q \<Rightarrow> ('a option \<times> 'q) option"
    and is_empty :: "'q \<Rightarrow> bool"
  assumes offer_law: "inv q \<Longrightarrow> \<exists>q'. offer h x q = Some (length (takeWhile (\<lambda>y. 0 \<le> cmp h x y) (abs q)), q')
      \<and> inv q' \<and> abs q' = takeWhile (\<lambda>y. 0 \<le> cmp h x y) (abs q) @ x # dropWhile (\<lambda>y. 0 \<le> cmp h x y) (abs q)"
    and poll_nil: "inv q \<Longrightarrow> abs q = [] \<Longrightarrow> poll q = Some (None, q)"
    and poll_cons: "inv q \<Longrightarrow> abs q = x # xs \<Longrightarrow> \<exists>q'. poll q = Some (Some x, q') \<and> inv q' \<and> abs q' = xs"
    and is_empty_law: "inv q \<Longrightarrow> is_empty q \<longleftrightarrow> abs q = []"

text \<open>Offering several elements, and polling several times.\<close>

fun offer_all :: "('a \<Rightarrow> 'q \<Rightarrow> (nat \<times> 'q) option) \<Rightarrow> 'a list \<Rightarrow> 'q \<Rightarrow> 'q option" where
  "offer_all offer [] q = Some q"
| "offer_all offer (x # xs) q = Option.bind (offer x q) (\<lambda>(_, q). offer_all offer xs q)"

fun poll_all :: "('q \<Rightarrow> ('a option \<times> 'q) option) \<Rightarrow> nat \<Rightarrow> 'q \<Rightarrow> ('a option list \<times> 'q) option" where
  "poll_all poll 0 q = Some ([], q)"
| "poll_all poll (Suc n) q = Option.bind (poll q) (\<lambda>(x, q).
     map_option (\<lambda>(xs, q). (x # xs, q)) (poll_all poll n q))"

context pri_queue
begin

lemma offer_mset:
  assumes "inv q"
  obtains i q' where "offer h x q = Some (i, q')" "inv q'" "mset (abs q') = add_mset x (mset (abs q))"
proof -
  let ?P = "\<lambda>y. 0 \<le> cmp h x y"
  obtain q' where q': "offer h x q = Some (length (takeWhile ?P (abs q)), q')" "inv q'"
    "abs q' = takeWhile ?P (abs q) @ x # dropWhile ?P (abs q)"
    using offer_law[OF assms] by blast
  have "mset (takeWhile ?P (abs q)) + mset (dropWhile ?P (abs q)) = mset (abs q)"
    by (metis mset_append takeWhile_dropWhile_id)
  then have "mset (abs q') = add_mset x (mset (abs q))" unfolding q'(3) by simp
  then show thesis using that q' by blast
qed

lemma poll_all_abs:
  assumes "inv q"
  shows "\<exists>q'. poll_all poll (length (abs q)) q = Some (map Some (abs q), q') \<and> inv q' \<and> abs q' = []"
  using assms
proof (induction "abs q" arbitrary: q)
  case Nil
  then show ?case by (metis length_0_conv list.map_disc_iff poll_all.simps(1))
next
  case (Cons x xs)
  obtain q1 where q1: "poll q = Some (Some x, q1)" "inv q1" "abs q1 = xs"
    using poll_cons[OF Cons.prems] Cons.hyps(2) by metis
  from Cons.hyps(1)[OF q1(3)[symmetric] q1(2)] obtain q' where
    "poll_all poll (length xs) q1 = Some (map Some xs, q')" "inv q'" "abs q' = []"
    using q1(3) by blast
  then show ?case using q1(1) by (simp flip: Cons.hyps(2))
qed

end

text \<open>A queue whose comparer orders by a key.\<close>

locale keyed_queue = pri_queue inv abs cmp offer poll is_empty
  for inv :: "'q \<Rightarrow> bool" and abs :: "'q \<Rightarrow> 'a list" and cmp :: "'h \<Rightarrow> 'a \<Rightarrow> 'a \<Rightarrow> int"
    and offer poll is_empty +
  fixes key :: "'h \<Rightarrow> 'a \<Rightarrow> 'k::linorder"
  assumes cmp_key: "0 \<le> cmp h x y \<longleftrightarrow> key h y \<le> key h x"
begin

lemma offer_sorted:
  assumes "inv q" "sorted (map (key h) (abs q))" "offer h x q = Some (i, q')"
  shows "inv q' \<and> sorted (map (key h) (abs q')) \<and> mset (abs q') = add_mset x (mset (abs q))
    \<and> (\<forall>v. filter (\<lambda>y. key h y = v) (abs q')
           = filter (\<lambda>y. key h y = v) (abs q) @ (if key h x = v then [x] else []))"
proof -
  let ?P = "\<lambda>y. key h y \<le> key h x"
  let ?A = "takeWhile ?P (abs q)" and ?B = "dropWhile ?P (abs q)"
  have q': "inv q'" "abs q' = ?A @ x # ?B"
    using offer_law[OF assms(1), of h x] assms(3) by (auto simp: cmp_key)
  have AB: "abs q = ?A @ ?B" by simp
  have A: "key h y \<le> key h x" if "y \<in> set ?A" for y using that by (auto dest: set_takeWhileD)
  have sB: "sorted (map (key h) ?B)" using assms(2) AB by (metis map_append sorted_append)
  have B: "key h x < key h y" if y: "y \<in> set ?B" for y
  proof -
    have ne: "?B \<noteq> []" using y by (metis empty_iff list.set(1))
    then have "\<not> ?P (hd ?B)" by (rule hd_dropWhile)
    then have "key h x < key h (hd ?B)" by simp
    also have "key h (hd ?B) \<le> key h y" using sB y ne by (cases ?B) auto
    finally show ?thesis .
  qed
  have sA: "sorted (map (key h) ?A)" using assms(2) AB by (metis map_append sorted_append)
  have s: "sorted (map (key h) (abs q'))"
    unfolding q'(2) using sA sB A B by (fastforce simp: sorted_append)
  have "mset (abs q') = add_mset x (mset ?A + mset ?B)" unfolding q'(2) by simp
  then have m: "mset (abs q') = add_mset x (mset (abs q))" using AB by (metis mset_append)
  have "filter (\<lambda>y. key h y = v) (abs q')
      = filter (\<lambda>y. key h y = v) (abs q) @ (if key h x = v then [x] else [])" for v
  proof -
    have "filter (\<lambda>y. key h y = v) ?B = []" if "key h x = v" using that by (auto simp: filter_empty_conv dest!: B)
    then show ?thesis unfolding q'(2) by (subst AB, subst filter_append) auto
  qed
  then show ?thesis using q'(1) s m by blast
qed

text \<open>Offering the elements of a list to an empty queue sorts the list, stably.\<close>

lemma offer_all_sorted:
  assumes "inv q" "sorted (map (key h) (abs q))"
  shows "\<exists>q'. offer_all (offer h) xs q = Some q' \<and> inv q' \<and> sorted (map (key h) (abs q'))
    \<and> mset (abs q') = mset (abs q) + mset xs
    \<and> (\<forall>v. filter (\<lambda>y. key h y = v) (abs q') = filter (\<lambda>y. key h y = v) (abs q @ xs))"
  using assms
proof (induction xs arbitrary: q)
  case Nil
  then show ?case by simp
next
  case (Cons x xs)
  obtain i q1 where q1: "offer h x q = Some (i, q1)" using offer_law[OF Cons.prems(1)] by blast
  note s = offer_sorted[OF Cons.prems q1]
  from s obtain q' where q': "offer_all (offer h) xs q1 = Some q'" "inv q'"
    "sorted (map (key h) (abs q'))" "mset (abs q') = mset (abs q1) + mset xs"
    "\<forall>v. filter (\<lambda>y. key h y = v) (abs q') = filter (\<lambda>y. key h y = v) (abs q1 @ xs)"
    using Cons.IH by blast
  then show ?case using q1 s by (intro exI[of _ q']) auto
qed

lemma drain_sorts:
  assumes "inv q" "abs q = []"
  shows "\<exists>q1 q2. offer_all (offer h) xs q = Some q1
    \<and> poll_all poll (length xs) q1 = Some (map Some (sort_key (key h) xs), q2) \<and> inv q2 \<and> abs q2 = []"
proof -
  have s: "sorted (map (key h) (abs q))" using assms(2) by simp
  from offer_all_sorted[OF assms(1) s, of xs] obtain q1 where
    q1: "offer_all (offer h) xs q = Some q1" "inv q1" "sorted (map (key h) (abs q1))"
      "mset (abs q1) = mset xs"
      "\<forall>v. filter (\<lambda>y. key h y = v) (abs q1) = filter (\<lambda>y. key h y = v) xs"
    unfolding assms(2) by auto
  have "filter (\<lambda>y. key h k = key h y) l = filter (\<lambda>y. key h y = key h k) l" for k l
    by (rule filter_cong) auto
  then have "sort_key (key h) xs = abs q1"
    by (intro properties_for_sort_key) (use q1(3-5) in simp_all)
  moreover have "length xs = length (abs q1)" using q1(4) by (metis size_mset)
  ultimately show ?thesis using q1(1) poll_all_abs[OF q1(2)] by auto
qed

end

interpretation pq: pri_queue "\<lambda>q. pq_ok q \<and> comparer q = c" queue_list c
  priqueue_offer priqueue_poll priqueue_is_empty
  for c :: "'h \<Rightarrow> 'a \<Rightarrow> 'a \<Rightarrow> int"
proof
  fix q h x xs
  assume q: "pq_ok q \<and> comparer q = c"
  show "\<exists>q'. priqueue_offer h x q = Some (length (takeWhile (\<lambda>y. 0 \<le> c h x y) (queue_list q)), q')
    \<and> (pq_ok q' \<and> comparer q' = c)
    \<and> queue_list q' = takeWhile (\<lambda>y. 0 \<le> c h x y) (queue_list q) @ x # dropWhile (\<lambda>y. 0 \<le> c h x y) (queue_list q)"
    using priqueue_offer_list[of q _ h x] q by blast
  show "priqueue_poll q = Some (None, q)" if "queue_list q = []"
    using that by (rule priqueue_poll_Nil)
  show "\<exists>q'. priqueue_poll q = Some (Some x, q') \<and> (pq_ok q' \<and> comparer q' = c) \<and> queue_list q' = xs"
    if "queue_list q = x # xs"
    using priqueue_poll_Cons[of q x xs] q that by blast
  show "priqueue_is_empty q \<longleftrightarrow> queue_list q = []"
    by (rule priqueue_is_empty_list)
qed

text \<open>The comparers of \<open>queuetest.c\<close>: the elements point to integers.\<close>

definition compare1 :: "('p \<Rightarrow> int) \<Rightarrow> 'p \<Rightarrow> 'p \<Rightarrow> int" where
  "compare1 h a b = h a - h b"

definition compare2 :: "('p \<Rightarrow> int) \<Rightarrow> 'p \<Rightarrow> 'p \<Rightarrow> int" where
  "compare2 h a b = h b - h a"

interpretation asc: keyed_queue "\<lambda>q. pq_ok q \<and> comparer q = compare1" queue_list compare1
  priqueue_offer priqueue_poll priqueue_is_empty "\<lambda>h p. h p"
  by unfold_locales (auto simp: compare1_def)

interpretation desc: keyed_queue "\<lambda>q. pq_ok q \<and> comparer q = compare2" queue_list compare2
  priqueue_offer priqueue_poll priqueue_is_empty "\<lambda>h p. - h p"
  by unfold_locales (auto simp: compare2_def)

lemma keyed_queueI:
  assumes "\<And>h x y. 0 \<le> c h x y \<longleftrightarrow> (key h y :: 'k::linorder) \<le> key h x"
  shows "keyed_queue (\<lambda>q. pq_ok q \<and> comparer q = c) queue_list c
    priqueue_offer priqueue_poll priqueue_is_empty key"
  by unfold_locales (rule assms)

section \<open>Properties\<close>

text \<open>
  The behaviour of a queue that holds the list \<open>l\<close>. An offered element goes behind the longest
  prefix it does not compare less than, which also is the index returned; \<open>remove\<close> deletes
  all copies and counts them; an index that is out of range makes \<open>remove_at\<close> return \<open>NULL\<close>.
\<close>

definition behaves_as :: "('h, 'a) priqueue_t \<Rightarrow> 'a list \<Rightarrow> bool" where
  "behaves_as q l \<longleftrightarrow>
     (\<forall>h x. \<exists>q'. let P = (\<lambda>y. 0 \<le> comparer q h x y) in
        priqueue_offer h x q = Some (length (takeWhile P l), q') \<and> pq_ok q'
        \<and> queue_list q' = takeWhile P l @ x # dropWhile P l) \<and>
     (\<exists>q'. priqueue_poll q = Some (if l = [] then None else Some (hd l), q') \<and> pq_ok q'
        \<and> queue_list q' = tl l) \<and>
     priqueue_peek q = Some (if l = [] then None else Some (hd l)) \<and>
     (\<forall>i. priqueue_at q (int i) = Some (if i < length l then Some (l ! i) else None)) \<and>
     (\<forall>k. if 0 \<le> k \<and> k < int (length l)
        then \<exists>q'. priqueue_remove_at q k = Some (Some (l ! nat k), q') \<and> pq_ok q'
               \<and> queue_list q' = take (nat k) l @ drop (Suc (nat k)) l
        else priqueue_remove_at q k = Some (None, q)) \<and>
     (\<forall>x. \<exists>q'. priqueue_remove x q = Some (length (filter (\<lambda>y. y = x) l), q') \<and> pq_ok q'
        \<and> queue_list q' = filter (\<lambda>y. y \<noteq> x) l) \<and>
     priqueue_size q = length l \<and> (priqueue_is_empty q \<longleftrightarrow> l = [])"



text \<open>
  C7. Offering any elements to a fresh queue and polling as often returns them sorted by the key
  the comparer stands for, and stably: equal elements come out in the order they were offered.
  This covers any number of elements, so the growing of the ring too, and every comparer whose
  sign agrees with an order of keys, also one that answers 1 on equal keys.
\<close>

theorem priqueue_sorts_stably:
  fixes key :: "'h \<Rightarrow> 'a \<Rightarrow> 'k::linorder"
  assumes "\<And>h x y. 0 \<le> c h x y \<longleftrightarrow> key h y \<le> key h x"
  shows "\<exists>q1 q2. offer_all (priqueue_offer h) xs (priqueue_init c) = Some q1
    \<and> poll_all priqueue_poll (length xs) q1 = Some (map Some (sort_key (key h) xs), q2)
    \<and> priqueue_is_empty q2"
proof -
  have "pq_ok (priqueue_init c) \<and> comparer (priqueue_init c) = c"
    by (simp add: priqueue_init_list)
  from keyed_queue.drain_sorts[OF keyed_queueI[OF assms] this priqueue_init_list(2), of h xs]
  show ?thesis using priqueue_is_empty_list by blast
qed

theorem priqueue_sorts_stably_witness:
  "\<exists>q1 q2. offer_all (priqueue_offer (\<lambda>p. p)) [30, 10, 20] (priqueue_init compare2) = Some q1
    \<and> poll_all priqueue_poll 3 q1 = Some (map Some [30, 20, 10], q2) \<and> priqueue_is_empty q2"
proof -
  have "0 \<le> compare2 h x y \<longleftrightarrow> - h y \<le> - h x" for h and x y :: int
    by (auto simp: compare2_def)
  from priqueue_sorts_stably[of compare2 "\<lambda>h p. - h p", OF this, of "\<lambda>p. p" "[30, 10, 20]"]
  show ?thesis by (simp add: numeral_3_eq_3 del: offer_all.simps poll_all.simps)
qed

end
