(* ===== verification/Scheduler.thy ===== *)
theory Scheduler
  imports Complex_Main PriQueue
begin

text \<open>
  The multi-core job scheduler of \<open>scheduler/src/libscheduler\<close>. Jobs live in a store of
  references; the queue of waiting jobs and the array of running jobs hold references, as
  the C code holds pointers. Times, priorities and sums are unbounded integers: the
  differences the comparers compute are assumed to stay within \<open>int\<close>. A dereference of
  \<open>NULL\<close>, of a freed job or outside an array makes the result \<^term>\<open>None\<close>.
\<close>

section \<open>The code\<close>

datatype scheme_t = FCFS | SJF | PSJF | PRI | PPRI | RR

record job_t =
  job_id :: int
  priority :: int
  arrival_time :: int
  start_time :: int
  latest_queue_time :: int
  latest_update_time :: int
  running_time :: int
  remaining_time :: int

type_synonym store = "nat \<Rightarrow> job_t option"

text \<open>
  The globals of the library and the store. An element of \<open>g_idle_cores\<close> is a pointer into
  \<open>g_cores_list\<close>, here an index; a cell of \<open>g_running_jobs\<close> is unwritten, \<open>NULL\<close> or a job.
\<close>

record sched =
  g_scheme :: scheme_t
  g_job_queue :: "(store, nat) priqueue_t"
  g_idle_cores :: "(int list, nat) priqueue_t"
  g_total_cores :: nat
  g_running_jobs :: "nat option cell list"
  g_cores_list :: "int list"
  total_jobs :: int
  total_waiting_time :: int
  total_turnaround_time :: int
  total_response_time :: int
  jobs :: store
  next_ref :: nat

subsection \<open>Comparers\<close>

definition core_compare :: "int list \<Rightarrow> nat \<Rightarrow> nat \<Rightarrow> int" where
  "core_compare cores core1 core2 = cores ! core1 - cores ! core2"

definition job_at :: "store \<Rightarrow> nat \<Rightarrow> job_t" where
  "job_at h p = the (h p)"

definition job_compare_fcfs :: "store \<Rightarrow> nat \<Rightarrow> nat \<Rightarrow> int" where
  "job_compare_fcfs h j1 j2 =
     (if latest_queue_time (job_at h j1) = latest_queue_time (job_at h j2) then 1
      else latest_queue_time (job_at h j1) - latest_queue_time (job_at h j2))"

definition job_compare_sjf :: "store \<Rightarrow> nat \<Rightarrow> nat \<Rightarrow> int" where
  "job_compare_sjf h j1 j2 =
     (if remaining_time (job_at h j1) = remaining_time (job_at h j2)
      then arrival_time (job_at h j1) - arrival_time (job_at h j2)
      else remaining_time (job_at h j1) - remaining_time (job_at h j2))"

definition job_compare_pri :: "store \<Rightarrow> nat \<Rightarrow> nat \<Rightarrow> int" where
  "job_compare_pri h j1 j2 =
     (if priority (job_at h j1) = priority (job_at h j2)
      then arrival_time (job_at h j1) - arrival_time (job_at h j2)
      else priority (job_at h j1) - priority (job_at h j2))"

definition scheme_comparer :: "scheme_t \<Rightarrow> store \<Rightarrow> nat \<Rightarrow> nat \<Rightarrow> int" where
  "scheme_comparer scheme = (case scheme of
     FCFS \<Rightarrow> job_compare_fcfs | RR \<Rightarrow> job_compare_fcfs
   | PRI \<Rightarrow> job_compare_pri | PPRI \<Rightarrow> job_compare_pri
   | _ \<Rightarrow> job_compare_sjf)"

subsection \<open>Start-up and jobs\<close>

text \<open>The loop that fills \<open>g_cores_list\<close> and \<open>g_idle_cores\<close>, after \<open>i\<close> iterations.\<close>

primrec fill_idle_cores :: "nat \<Rightarrow> (int list \<times> (int list, nat) priqueue_t) option" where
  "fill_idle_cores 0 = Some ([], priqueue_init core_compare)"
| "fill_idle_cores (Suc i) = Option.bind (fill_idle_cores i) (\<lambda>(cores, q).
     let cores = cores @ [int i] in
     map_option (\<lambda>(_, q). (cores, q)) (priqueue_offer cores i q))"

definition scheduler_start_up :: "nat \<Rightarrow> scheme_t \<Rightarrow> sched option" where
  "scheduler_start_up cores scheme =
     map_option (\<lambda>(cores_list, idle).
       \<lparr>g_scheme = scheme, g_job_queue = priqueue_init (scheme_comparer scheme),
        g_idle_cores = idle, g_total_cores = cores,
        g_running_jobs = replicate cores Uninit, g_cores_list = cores_list,
        total_jobs = 0, total_waiting_time = 0, total_turnaround_time = 0,
        total_response_time = 0, jobs = Map.empty, next_ref = 0\<rparr>) (fill_idle_cores cores)"

definition new_job :: "int \<Rightarrow> int \<Rightarrow> int \<Rightarrow> int \<Rightarrow> sched \<Rightarrow> nat \<times> sched" where
  "new_job id_no pri arrival run s =
     (next_ref s, s\<lparr>jobs := (jobs s)(next_ref s \<mapsto>
        \<lparr>job_id = id_no, priority = pri, arrival_time = arrival,
         start_time = - 1, latest_queue_time = - 1, latest_update_time = - 1,
         running_time = run, remaining_time = run\<rparr>),
      next_ref := Suc (next_ref s)\<rparr>)"

text \<open>Assigning to \<open>g_running_jobs[core]\<close>, and the job found there.\<close>

definition set_running :: "int \<Rightarrow> nat option \<Rightarrow> sched \<Rightarrow> sched option" where
  "set_running core j s = guard (0 \<le> core \<and> core < int (length (g_running_jobs s)))
     (Some (s\<lparr>g_running_jobs := (g_running_jobs s)[nat core := Val j]\<rparr>))"

definition running_job :: "sched \<Rightarrow> int \<Rightarrow> nat option" where
  "running_job s core = guard (0 \<le> core \<and> core < int (length (g_running_jobs s)))
     (Option.bind (cell_val (g_running_jobs s ! nat core)) (\<lambda>p. p))"

definition schedule_job :: "nat \<Rightarrow> int \<Rightarrow> int \<Rightarrow> sched \<Rightarrow> sched option" where
  "schedule_job p core time s =
     Option.bind (jobs s p) (\<lambda>j.
     let j1 = (if start_time j = - 1 then j\<lparr>start_time := time\<rparr> else j);
         j2 = j1\<lparr>latest_update_time := time\<rparr>
     in set_running core (Some p) (s\<lparr>jobs := (jobs s)(p \<mapsto> j2)\<rparr>))"

definition update_remaining_time :: "nat \<Rightarrow> int \<Rightarrow> sched \<Rightarrow> sched option" where
  "update_remaining_time p time s =
     map_option (\<lambda>j. s\<lparr>jobs := (jobs s)(p \<mapsto>
        j\<lparr>remaining_time := remaining_time j - (time - latest_update_time j),
          latest_update_time := time\<rparr>)\<rparr>) (jobs s p)"

definition set_job :: "nat \<Rightarrow> (job_t \<Rightarrow> job_t) \<Rightarrow> sched \<Rightarrow> sched option" where
  "set_job p f s = map_option (\<lambda>j. s\<lparr>jobs := (jobs s)(p \<mapsto> f j)\<rparr>) (jobs s p)"

definition offer_job :: "nat \<Rightarrow> sched \<Rightarrow> sched option" where
  "offer_job p s = map_option (\<lambda>(_, q). s\<lparr>g_job_queue := q\<rparr>) (priqueue_offer (jobs s) p (g_job_queue s))"

definition unschedule_job :: "int \<Rightarrow> int \<Rightarrow> sched \<Rightarrow> sched option" where
  "unschedule_job core time s =
     Option.bind (running_job s core) (\<lambda>p.
     Option.bind (set_running core None s) (\<lambda>s.
     Option.bind (set_job p (\<lambda>j. if start_time j = time then j\<lparr>start_time := - 1\<rparr> else j) s) (\<lambda>s.
     Option.bind (update_remaining_time p time s) (\<lambda>s.
     Option.bind (set_job p (\<lambda>j. j\<lparr>latest_queue_time := time\<rparr>) s) (offer_job p)))))"

subsection \<open>Events\<close>

text \<open>
  The loop over the cores from 1 on that brings the remaining times up to date and finds the
  core whose job is least important; \<open>n\<close> cores are left.
\<close>

primrec find_least :: "nat \<Rightarrow> nat \<Rightarrow> int \<Rightarrow> int \<Rightarrow> sched \<Rightarrow> (int \<times> sched) option" where
  "find_least 0 i least time s = Some (least, s)"
| "find_least (Suc n) i least time s =
     Option.bind (running_job s (int i)) (\<lambda>p.
     Option.bind (update_remaining_time p time s) (\<lambda>s.
     Option.bind (running_job s least) (\<lambda>l.
     find_least n (Suc i) (if 0 < comparer (g_job_queue s) (jobs s) p l then int i else least) time s)))"

text \<open>The \<open>default\<close> case: the job waits.\<close>

definition enqueue_job :: "nat \<Rightarrow> int \<Rightarrow> sched \<Rightarrow> (int \<times> sched) option" where
  "enqueue_job p time s =
     Option.bind (set_job p (\<lambda>j. j\<lparr>latest_queue_time := time\<rparr>) s) (\<lambda>s.
     map_option (\<lambda>s. (- 1, s)) (offer_job p s))"

definition preempt_or_enqueue :: "nat \<Rightarrow> int \<Rightarrow> sched \<Rightarrow> (int \<times> sched) option" where
  "preempt_or_enqueue p time s =
     Option.bind (running_job s 0) (\<lambda>r.
     Option.bind (update_remaining_time r time s) (\<lambda>s.
     Option.bind (find_least (g_total_cores s - 1) 1 0 time s) (\<lambda>(least, s).
     Option.bind (running_job s least) (\<lambda>l.
     if comparer (g_job_queue s) (jobs s) p l < 0 then
       Option.bind (unschedule_job least time s) (\<lambda>s.
       map_option (\<lambda>s. (least, s)) (schedule_job p least time s))
     else enqueue_job p time s))))"

definition scheduler_new_job :: "int \<Rightarrow> int \<Rightarrow> int \<Rightarrow> int \<Rightarrow> sched \<Rightarrow> (int \<times> sched) option" where
  "scheduler_new_job job_number time run pri s =
     (let (p, s) = new_job job_number pri time run s in
      if \<not> priqueue_is_empty (g_idle_cores s) then
        Option.bind (priqueue_poll (g_idle_cores s)) (\<lambda>(c, idle).
        Option.bind c (\<lambda>c.
        guard (c < length (g_cores_list s))
         (let core = g_cores_list s ! c in
          map_option (\<lambda>s. (core, s)) (schedule_job p core time (s\<lparr>g_idle_cores := idle\<rparr>)))))
      else if g_scheme s = PSJF \<or> g_scheme s = PPRI then preempt_or_enqueue p time s
      else enqueue_job p time s)"

definition schedule_next_job :: "int \<Rightarrow> int \<Rightarrow> sched \<Rightarrow> (int \<times> sched) option" where
  "schedule_next_job core_id time s =
     (if priqueue_is_empty (g_job_queue s) then
        guard (0 \<le> core_id \<and> core_id < int (length (g_cores_list s)))
         (map_option (\<lambda>(_, idle). (- 1, s\<lparr>g_idle_cores := idle\<rparr>))
           (priqueue_offer (g_cores_list s) (nat core_id) (g_idle_cores s)))
      else
        Option.bind (priqueue_poll (g_job_queue s)) (\<lambda>(p, q).
        Option.bind p (\<lambda>p.
        Option.bind (schedule_job p core_id time (s\<lparr>g_job_queue := q\<rparr>)) (\<lambda>s.
        map_option (\<lambda>j. (job_id j, s)) (jobs s p)))))"

definition scheduler_job_finished :: "int \<Rightarrow> int \<Rightarrow> int \<Rightarrow> sched \<Rightarrow> (int \<times> sched) option" where
  "scheduler_job_finished core_id job_number time s =
     Option.bind (running_job s core_id) (\<lambda>p.
     Option.bind (set_running core_id None s) (\<lambda>s.
     Option.bind (jobs s p) (\<lambda>j.
     let turnaround_time = time - arrival_time j in
     schedule_next_job core_id time
       (s\<lparr>total_jobs := total_jobs s + 1,
          total_turnaround_time := total_turnaround_time s + turnaround_time,
          total_waiting_time := total_waiting_time s + (turnaround_time - running_time j),
          total_response_time := total_response_time s + (start_time j - arrival_time j),
          jobs := (jobs s)(p := None)\<rparr>))))"

definition scheduler_quantum_expired :: "int \<Rightarrow> int \<Rightarrow> sched \<Rightarrow> (int \<times> sched) option" where
  "scheduler_quantum_expired core_id time s =
     Option.bind (running_job s core_id) (\<lambda>p.
     Option.bind (set_running core_id None s) (\<lambda>s.
     Option.bind (set_job p (\<lambda>j. j\<lparr>latest_queue_time := time\<rparr>) s) (\<lambda>s.
     Option.bind (offer_job p s) (schedule_next_job core_id time))))"

text \<open>
  The averages, before they are rounded to \<open>float\<close>; without any finished job the C code
  divides zero by zero, which is not a number.
\<close>

definition average :: "int \<Rightarrow> int \<Rightarrow> rat option" where
  "average t n = (if n = 0 then None else Some (of_int t / of_int n))"

definition scheduler_average_waiting_time :: "sched \<Rightarrow> rat option" where
  "scheduler_average_waiting_time s = average (total_waiting_time s) (total_jobs s)"

definition scheduler_average_turnaround_time :: "sched \<Rightarrow> rat option" where
  "scheduler_average_turnaround_time s = average (total_turnaround_time s) (total_jobs s)"

definition scheduler_average_response_time :: "sched \<Rightarrow> rat option" where
  "scheduler_average_response_time s = average (total_response_time s) (total_jobs s)"

section \<open>Keys\<close>

text \<open>The order each comparer stands for.\<close>

definition job_key :: "scheme_t \<Rightarrow> job_t \<Rightarrow> int \<times> int" where
  "job_key scheme j = (case scheme of
     FCFS \<Rightarrow> (latest_queue_time j, 0) | RR \<Rightarrow> (latest_queue_time j, 0)
   | PRI \<Rightarrow> (priority j, arrival_time j) | PPRI \<Rightarrow> (priority j, arrival_time j)
   | _ \<Rightarrow> (remaining_time j, arrival_time j))"

lemma scheme_comparer_key:
  "0 \<le> scheme_comparer scheme h x y \<longleftrightarrow> job_key scheme (job_at h y) \<le> job_key scheme (job_at h x)"
  by (cases scheme) (auto simp: scheme_comparer_def job_key_def job_compare_fcfs_def
      job_compare_sjf_def job_compare_pri_def)

lemma scheme_comparer_strict:
  assumes "scheme = PSJF \<or> scheme = PPRI"
  shows "scheme_comparer scheme h x y < 0 \<longleftrightarrow> job_key scheme (job_at h x) < job_key scheme (job_at h y)"
    and "0 < scheme_comparer scheme h x y \<longleftrightarrow> job_key scheme (job_at h y) < job_key scheme (job_at h x)"
  using assms
  by (auto simp: scheme_comparer_def job_key_def job_compare_sjf_def job_compare_pri_def split: if_splits)

interpretation waiting: keyed_queue "\<lambda>q. pq_ok q \<and> comparer q = scheme_comparer scheme" queue_list
  "scheme_comparer scheme" priqueue_offer priqueue_poll priqueue_is_empty
  "\<lambda>h p. job_key scheme (job_at h p)"
  for scheme
  by unfold_locales (rule scheme_comparer_key)

text \<open>
  The idle cores are compared through \<open>g_cores_list\<close>, which holds each core at its own index.
\<close>

interpretation idle: keyed_queue "\<lambda>q. pq_ok q \<and> comparer q = core_compare" queue_list
  core_compare priqueue_offer priqueue_poll priqueue_is_empty "\<lambda>cores c. cores ! c"
  by unfold_locales (simp add: core_compare_def)

end
