(* ===== verification/Scheduler_Correct.thy ===== *)
theory Scheduler_Correct
  imports Scheduler
begin

text \<open>
  Correctness of the scheduler. The specification works on job values: a partial function from
  cores to running jobs and the list of waiting jobs. \<open>sched_inv C F s\<close> is the invariant of the
  pointer structure, where \<open>C\<close> are the cores and \<open>F\<close> the jobs an operation has in hand;
  \<open>sched_abs\<close> is the abstraction. Each step of an operation has a lemma that moves between
  invariants and commutes with the abstraction, and the operations of the library follow by
  chaining them.
\<close>

section \<open>Specification\<close>

record spec =
  sp_running :: "nat \<Rightarrow> job_t option"
  sp_waiting :: "job_t list"
  sp_jobs :: int
  sp_waiting_time :: int
  sp_turnaround_time :: int
  sp_response_time :: int

definition fresh_job :: "int \<Rightarrow> int \<Rightarrow> int \<Rightarrow> int \<Rightarrow> job_t" where
  "fresh_job id_no pri arrival run = \<lparr>job_id = id_no, priority = pri, arrival_time = arrival,
     start_time = - 1, latest_queue_time = - 1, latest_update_time = - 1,
     running_time = run, remaining_time = run\<rparr>"

definition started :: "int \<Rightarrow> job_t \<Rightarrow> job_t" where
  "started time j = (if start_time j = - 1 then j\<lparr>start_time := time\<rparr> else j)
     \<lparr>latest_update_time := time\<rparr>"

definition refreshed :: "int \<Rightarrow> job_t \<Rightarrow> job_t" where
  "refreshed time j = j\<lparr>remaining_time := remaining_time j - (time - latest_update_time j),
     latest_update_time := time\<rparr>"

definition queued :: "int \<Rightarrow> job_t \<Rightarrow> job_t" where
  "queued time j = j\<lparr>latest_queue_time := time\<rparr>"

definition preempted :: "int \<Rightarrow> job_t \<Rightarrow> job_t" where
  "preempted time j = queued time (refreshed time
     (if start_time j = time then j\<lparr>start_time := - 1\<rparr> else j))"

text \<open>Behind all waiting jobs that are at least as good.\<close>

definition insert_job :: "scheme_t \<Rightarrow> job_t \<Rightarrow> job_t list \<Rightarrow> job_t list" where
  "insert_job scheme j w =
     takeWhile (\<lambda>x. job_key scheme x \<le> job_key scheme j) w @ j
       # dropWhile (\<lambda>x. job_key scheme x \<le> job_key scheme j) w"

text \<open>The first of the cores \<open>0, \<dots>, n\<close> whose job has the greatest key.\<close>

primrec worst_core :: "scheme_t \<Rightarrow> (nat \<Rightarrow> job_t option) \<Rightarrow> nat \<Rightarrow> nat" where
  "worst_core scheme run 0 = 0"
| "worst_core scheme run (Suc n) =
     (let w = worst_core scheme run n in
      if job_key scheme (the (run w)) < job_key scheme (the (run (Suc n))) then Suc n else w)"

definition idle_cores :: "nat \<Rightarrow> spec \<Rightarrow> nat set" where
  "idle_cores n sp = set (filter (\<lambda>c. sp_running sp c = None) [0..<n])"

lemma idle_cores_eq: "idle_cores n sp = {c. c < n \<and> sp_running sp c = None}"
  by (auto simp: idle_cores_def)

definition refresh_all :: "int \<Rightarrow> spec \<Rightarrow> spec" where
  "refresh_all time sp = sp\<lparr>sp_running := (\<lambda>c. map_option (refreshed time) (sp_running sp c))\<rparr>"

definition spec_enqueue :: "scheme_t \<Rightarrow> job_t \<Rightarrow> int \<Rightarrow> spec \<Rightarrow> int \<times> spec" where
  "spec_enqueue scheme j time sp =
     (- 1, sp\<lparr>sp_waiting := insert_job scheme (queued time j) (sp_waiting sp)\<rparr>)"

definition spec_preempt :: "scheme_t \<Rightarrow> nat \<Rightarrow> job_t \<Rightarrow> int \<Rightarrow> spec \<Rightarrow> int \<times> spec" where
  "spec_preempt scheme n j time sp =
     (let sp = refresh_all time sp; w = worst_core scheme (sp_running sp) (n - 1);
          v = the (sp_running sp w) in
      if job_key scheme j < job_key scheme v
      then (int w, sp\<lparr>sp_running := (sp_running sp)(w \<mapsto> started time j),
              sp_waiting := insert_job scheme (preempted time v) (sp_waiting sp)\<rparr>)
      else spec_enqueue scheme j time sp)"

definition spec_arrive :: "scheme_t \<Rightarrow> nat \<Rightarrow> job_t \<Rightarrow> int \<Rightarrow> spec \<Rightarrow> int \<times> spec" where
  "spec_arrive scheme n j time sp =
     (if idle_cores n sp \<noteq> {} then
        let c = Min (idle_cores n sp) in
        (int c, sp\<lparr>sp_running := (sp_running sp)(c \<mapsto> started time j)\<rparr>)
      else if scheme = PSJF \<or> scheme = PPRI then spec_preempt scheme n j time sp
      else spec_enqueue scheme j time sp)"

definition spec_next :: "nat \<Rightarrow> int \<Rightarrow> spec \<Rightarrow> int \<times> spec" where
  "spec_next core time sp = (case sp_waiting sp of
     [] \<Rightarrow> (- 1, sp\<lparr>sp_running := (sp_running sp)(core := None)\<rparr>)
   | j # w \<Rightarrow> (job_id j, sp\<lparr>sp_running := (sp_running sp)(core \<mapsto> started time j),
                 sp_waiting := w\<rparr>))"

definition spec_finish :: "nat \<Rightarrow> int \<Rightarrow> spec \<Rightarrow> int \<times> spec" where
  "spec_finish core time sp =
     (let j = the (sp_running sp core); t = time - arrival_time j in
      spec_next core time (sp\<lparr>sp_jobs := sp_jobs sp + 1,
        sp_turnaround_time := sp_turnaround_time sp + t,
        sp_waiting_time := sp_waiting_time sp + (t - running_time j),
        sp_response_time := sp_response_time sp + (start_time j - arrival_time j)\<rparr>))"

definition spec_expire :: "scheme_t \<Rightarrow> nat \<Rightarrow> int \<Rightarrow> spec \<Rightarrow> int \<times> spec" where
  "spec_expire scheme core time sp =
     spec_next core time (sp\<lparr>sp_waiting :=
       insert_job scheme (queued time (the (sp_running sp core))) (sp_waiting sp)\<rparr>)"

section \<open>Invariant and abstraction\<close>

definition run_ref :: "sched \<Rightarrow> nat \<Rightarrow> nat option" where
  "run_ref s c = (if c < length (g_running_jobs s)
     then Option.bind (cell_val (g_running_jobs s ! c)) (\<lambda>p. p) else None)"

abbreviation waiting_refs :: "sched \<Rightarrow> nat list" where
  "waiting_refs s \<equiv> queue_list (g_job_queue s)"

abbreviation idle_list :: "sched \<Rightarrow> nat list" where
  "idle_list s \<equiv> queue_list (g_idle_cores s)"

definition sched_inv :: "nat set \<Rightarrow> nat set \<Rightarrow> sched \<Rightarrow> bool" where
  "sched_inv C F s \<longleftrightarrow>
     0 < g_total_cores s \<and> length (g_running_jobs s) = g_total_cores s
     \<and> g_cores_list s = map int [0..<g_total_cores s]
     \<and> pq_ok (g_job_queue s) \<and> comparer (g_job_queue s) = scheme_comparer (g_scheme s)
     \<and> pq_ok (g_idle_cores s) \<and> comparer (g_idle_cores s) = core_compare
     \<and> sorted_wrt (<) (idle_list s)
     \<and> set (idle_list s) = {c. c < g_total_cores s \<and> run_ref s c = None} - C
     \<and> C \<subseteq> {c. c < g_total_cores s \<and> run_ref s c = None}
     \<and> distinct (waiting_refs s) \<and> inj_on (run_ref s) (dom (run_ref s))
     \<and> ran (run_ref s) \<inter> set (waiting_refs s) = {}
     \<and> F \<inter> (set (waiting_refs s) \<union> ran (run_ref s)) = {}
     \<and> dom (jobs s) = set (waiting_refs s) \<union> ran (run_ref s) \<union> F
     \<and> (\<forall>p\<in>dom (jobs s). p < next_ref s)"

definition sched_abs :: "sched \<Rightarrow> spec" where
  "sched_abs s = \<lparr>sp_running = (\<lambda>c. Option.bind (run_ref s c) (jobs s)),
     sp_waiting = map (job_at (jobs s)) (waiting_refs s),
     sp_jobs = total_jobs s, sp_waiting_time = total_waiting_time s,
     sp_turnaround_time = total_turnaround_time s, sp_response_time = total_response_time s\<rparr>"

lemma sched_invD:
  assumes "sched_inv C F s"
  shows "0 < g_total_cores s" "length (g_running_jobs s) = g_total_cores s"
    "g_cores_list s = map int [0..<g_total_cores s]"
    "pq_ok (g_job_queue s)" "comparer (g_job_queue s) = scheme_comparer (g_scheme s)"
    "pq_ok (g_idle_cores s)" "comparer (g_idle_cores s) = core_compare"
    "sorted_wrt (<) (idle_list s)"
    "set (idle_list s) = {c. c < g_total_cores s \<and> run_ref s c = None} - C"
    "C \<subseteq> {c. c < g_total_cores s \<and> run_ref s c = None}"
    "distinct (waiting_refs s)" "inj_on (run_ref s) (dom (run_ref s))"
    "ran (run_ref s) \<inter> set (waiting_refs s) = {}"
    "F \<inter> (set (waiting_refs s) \<union> ran (run_ref s)) = {}"
    "dom (jobs s) = set (waiting_refs s) \<union> ran (run_ref s) \<union> F"
    "\<forall>p\<in>dom (jobs s). p < next_ref s"
  using assms by (simp_all add: sched_inv_def)

lemma run_ref_simps [simp]:
  "run_ref (s\<lparr>jobs := h\<rparr>) = run_ref s" "run_ref (s\<lparr>g_job_queue := q\<rparr>) = run_ref s"
  "run_ref (s\<lparr>g_idle_cores := i\<rparr>) = run_ref s" "run_ref (s\<lparr>next_ref := n\<rparr>) = run_ref s"
  "run_ref (s\<lparr>total_jobs := a\<rparr>) = run_ref s" "run_ref (s\<lparr>total_turnaround_time := a\<rparr>) = run_ref s"
  "run_ref (s\<lparr>total_waiting_time := a\<rparr>) = run_ref s" "run_ref (s\<lparr>total_response_time := a\<rparr>) = run_ref s"
  by (simp_all add: run_ref_def fun_eq_iff)

lemma run_ref_bound: "run_ref s c = Some p \<Longrightarrow> c < length (g_running_jobs s)"
  by (simp add: run_ref_def split: if_splits)

lemma running_job_ref: "running_job s (int c) = run_ref s c"
  by (simp add: running_job_def run_ref_def)

lemma run_ref_job:
  assumes "sched_inv C F s" "run_ref s c = Some p"
  shows "\<exists>j. jobs s p = Some j \<and> sp_running (sched_abs s) c = Some j"
proof -
  have "p \<in> dom (jobs s)" using sched_invD(15)[OF assms(1)] assms(2) by (auto simp: ran_def)
  then show ?thesis using assms(2) by (auto simp: sched_abs_def)
qed

lemma idle_cores_abs:
  assumes "sched_inv C F s"
  shows "idle_cores (g_total_cores s) (sched_abs s) = {c. c < g_total_cores s \<and> run_ref s c = None}"
proof -
  have "sp_running (sched_abs s) c = None \<longleftrightarrow> run_ref s c = None" for c
    using run_ref_job[OF assms, of c] by (cases "run_ref s c") (auto simp: sched_abs_def)
  then show ?thesis by (simp add: idle_cores_eq)
qed

section \<open>Single steps\<close>

text \<open>The parts of the state no step changes.\<close>

definition same_conf :: "sched \<Rightarrow> sched \<Rightarrow> bool" where
  "same_conf s s' \<longleftrightarrow> g_scheme s' = g_scheme s \<and> g_total_cores s' = g_total_cores s"

lemma same_conf_refl [simp]: "same_conf s s" by (simp add: same_conf_def)

lemma same_conf_trans: "same_conf s t \<Longrightarrow> same_conf t u \<Longrightarrow> same_conf s u"
  by (simp add: same_conf_def)

text \<open>Writing a job in the store.\<close>

lemma inv_upd_job:
  assumes "sched_inv C F s" "p \<in> dom (jobs s)"
  shows "sched_inv C F (s\<lparr>jobs := (jobs s)(p \<mapsto> j)\<rparr>)"
proof -
  have "dom ((jobs s)(p \<mapsto> j)) = dom (jobs s)" using assms(2) by auto
  then show ?thesis using assms(1) unfolding sched_inv_def by simp
qed

lemma abs_upd_float:
  assumes "p \<notin> set (waiting_refs s)" "p \<notin> ran (run_ref s)"
  shows "sched_abs (s\<lparr>jobs := (jobs s)(p := x)\<rparr>) = sched_abs s"
proof -
  have "Option.bind (run_ref s c) ((jobs s)(p := x)) = Option.bind (run_ref s c) (jobs s)" for c
    using assms(2) by (cases "run_ref s c") (auto intro: ranI)
  moreover have "map (job_at ((jobs s)(p := x))) (waiting_refs s) = map (job_at (jobs s)) (waiting_refs s)"
    using assms(1) by (auto simp: job_at_def)
  ultimately show ?thesis by (simp add: sched_abs_def)
qed

lemma abs_upd_run:
  assumes inv: "sched_inv C F s" and c: "run_ref s c = Some p"
  shows "sched_abs (s\<lparr>jobs := (jobs s)(p \<mapsto> j)\<rparr>)
    = (sched_abs s)\<lparr>sp_running := (sp_running (sched_abs s))(c \<mapsto> j)\<rparr>"
proof -
  have ne: "run_ref s d \<noteq> Some p" if "d \<noteq> c" for d
    using inj_onD[OF sched_invD(12)[OF inv], of d c] that c by auto
  have "Option.bind (run_ref s d) ((jobs s)(p \<mapsto> j))
      = ((\<lambda>d. Option.bind (run_ref s d) (jobs s))(c \<mapsto> j)) d" for d
    using ne[of d] c by (cases "run_ref s d") auto
  moreover have "p \<notin> set (waiting_refs s)" using sched_invD(13)[OF inv] c by (auto simp: ran_def)
  then have "map (job_at ((jobs s)(p \<mapsto> j))) (waiting_refs s) = map (job_at (jobs s)) (waiting_refs s)"
    by (auto simp: job_at_def)
  ultimately show ?thesis by (simp add: sched_abs_def fun_eq_iff)
qed

lemma floating:
  assumes "sched_inv C F s" "p \<in> F"
  shows "p \<notin> set (waiting_refs s)" "p \<notin> ran (run_ref s)" "p \<in> dom (jobs s)"
  using sched_invD(14,15)[OF assms(1)] assms(2) by blast+

lemma new_job_step:
  assumes inv: "sched_inv C F s" and n: "new_job i pri arr run s = (p, s')"
  shows "sched_inv C (insert p F) s'" "jobs s' p = Some (fresh_job i pri arr run)"
    "sched_abs s' = sched_abs s" "same_conf s s'" "p \<notin> F"
proof -
  let ?j = "fresh_job i pri arr run"
  have p: "p = next_ref s" and s': "s' = s\<lparr>jobs := (jobs s)(p \<mapsto> ?j), next_ref := Suc p\<rparr>"
    using n by (auto simp: new_job_def fresh_job_def)
  have new: "p \<notin> dom (jobs s)" using sched_invD(16)[OF inv] p by auto
  then have out: "p \<notin> set (waiting_refs s)" "p \<notin> ran (run_ref s)" "p \<notin> F"
    using sched_invD(15)[OF inv] by blast+
  have "dom ((jobs s)(p \<mapsto> ?j)) = insert p (dom (jobs s))" by auto
  moreover have "\<forall>q\<in>insert p (dom (jobs s)). q < Suc p"
    using sched_invD(16)[OF inv] unfolding p by (metis insert_iff lessI less_SucI)
  ultimately show "sched_inv C (insert p F) s'"
    using inv out unfolding sched_inv_def s' by (simp add: Un_insert_right)
  show "jobs s' p = Some ?j" "same_conf s s'" by (simp_all add: s' same_conf_def)
  show "p \<notin> F" by (rule out)
  have "sched_abs s' = sched_abs (s\<lparr>jobs := (jobs s)(p \<mapsto> ?j)\<rparr>)" by (simp add: s' sched_abs_def)
  then show "sched_abs s' = sched_abs s" using abs_upd_float[OF out(1,2)] by simp
qed

lemma set_job_float:
  assumes inv: "sched_inv C F s" and p: "p \<in> F" and j: "jobs s p = Some j"
  shows "\<exists>s'. set_job p f s = Some s' \<and> sched_inv C F s' \<and> jobs s' p = Some (f j)
    \<and> (\<forall>q. q \<noteq> p \<longrightarrow> jobs s' q = jobs s q) \<and> sched_abs s' = sched_abs s \<and> same_conf s s'"
proof -
  note fl = floating[OF inv p]
  show ?thesis
    using inv_upd_job[OF inv fl(3), of "f j"] abs_upd_float[OF fl(1,2), of "Some (f j)"] j
    by (simp add: set_job_def same_conf_def)
qed

lemma update_remaining_set: "update_remaining_time p time s = set_job p (refreshed time) s"
  by (simp add: update_remaining_time_def set_job_def refreshed_def)

lemma refresh_running:
  assumes inv: "sched_inv C F s" and c: "run_ref s c = Some p"
    and j: "sp_running (sched_abs s) c = Some j"
  shows "\<exists>s'. update_remaining_time p time s = Some s' \<and> sched_inv C F s' \<and> same_conf s s'
    \<and> run_ref s' = run_ref s \<and> g_job_queue s' = g_job_queue s
    \<and> (\<forall>q. q \<noteq> p \<longrightarrow> jobs s' q = jobs s q)
    \<and> sched_abs s' = (sched_abs s)\<lparr>sp_running := (sp_running (sched_abs s))(c \<mapsto> refreshed time j)\<rparr>"
proof -
  have jp: "jobs s p = Some j" using c j by (simp add: sched_abs_def)
  then have "p \<in> dom (jobs s)" by auto
  from inv_upd_job[OF inv this] abs_upd_run[OF inv c] jp show ?thesis
    by (simp add: update_remaining_set set_job_def same_conf_def)
qed

text \<open>Putting a job on a core, and taking it off.\<close>

lemma run_ref_set_running:
  assumes "c < length (g_running_jobs s)"
  shows "set_running (int c) x s = Some (s\<lparr>g_running_jobs := (g_running_jobs s)[c := Val x]\<rparr>)"
    "run_ref (s\<lparr>g_running_jobs := (g_running_jobs s)[c := Val x]\<rparr>) = (run_ref s)(c := x)"
  using assms by (auto simp: set_running_def run_ref_def fun_eq_iff nth_list_update)

lemma set_running_inv:
  assumes inv: "sched_inv C F s" and c: "c \<in> C" and p: "p \<in> F"
  shows "sched_inv (C - {c}) (F - {p}) (s\<lparr>g_running_jobs := (g_running_jobs s)[c := Val (Some p)]\<rparr>)"
proof -
  let ?s = "s\<lparr>g_running_jobs := (g_running_jobs s)[c := Val (Some p)]\<rparr>"
  note I = sched_invD[OF inv]
  have cl: "c < length (g_running_jobs s)" "run_ref s c = None" using I(2,10) c by auto
  note rr = run_ref_set_running(2)[OF cl(1), of "Some p"]
  note fl = floating[OF inv p]
  have ran: "ran ((run_ref s)(c \<mapsto> p)) = insert p (ran (run_ref s))"
    using cl(2) by simp
  have inj: "inj_on ((run_ref s)(c \<mapsto> p)) (dom ((run_ref s)(c \<mapsto> p)))"
    using I(12) fl(2) by (fastforce simp: inj_on_def ran_def dom_def split: if_splits)
  have idle: "{d. d < g_total_cores s \<and> ((run_ref s)(c \<mapsto> p)) d = None}
      = {d. d < g_total_cores s \<and> run_ref s d = None} - {c}"
    using c I(10) by auto
  have dom: "dom (jobs s) = set (waiting_refs s) \<union> insert p (ran (run_ref s)) \<union> (F - {p})"
    using I(15) p by blast
  have disj: "insert p (ran (run_ref s)) \<inter> set (waiting_refs s) = {}"
    "(F - {p}) \<inter> (set (waiting_refs s) \<union> insert p (ran (run_ref s))) = {}"
    using I(13,14) p by blast+
  have C: "C - {c} \<subseteq> {d. d < g_total_cores s \<and> run_ref s d = None} - {c}"
    "set (idle_list s) = {d. d < g_total_cores s \<and> run_ref s d = None} - {c} - (C - {c})"
    using I(9,10) c by blast+
  show ?thesis
    unfolding sched_inv_def rr ran
    using I(1-8,11,16) inj dom disj C idle by simp
qed

lemma schedule_job_step:
  assumes inv: "sched_inv C F s" and c: "c \<in> C" and p: "p \<in> F" and j: "jobs s p = Some j"
  shows "\<exists>s'. schedule_job p (int c) time s = Some s' \<and> sched_inv (C - {c}) (F - {p}) s'
    \<and> sched_abs s' = (sched_abs s)\<lparr>sp_running := (sp_running (sched_abs s))(c \<mapsto> started time j)\<rparr>
    \<and> same_conf s s' \<and> jobs s' p = Some (started time j)"
proof -
  note fl = floating[OF inv p]
  let ?s1 = "s\<lparr>jobs := (jobs s)(p \<mapsto> started time j)\<rparr>"
  let ?s2 = "?s1\<lparr>g_running_jobs := (g_running_jobs ?s1)[c := Val (Some p)]\<rparr>"
  have inv1: "sched_inv C F ?s1" using inv fl(3) by (rule inv_upd_job)
  have cl: "c < length (g_running_jobs ?s1)" using sched_invD(2,10)[OF inv] c by auto
  note rr = run_ref_set_running[OF cl, of "Some p"]
  have "schedule_job p (int c) time s = Some ?s2"
    using j rr(1) by (simp add: schedule_job_def started_def Let_def)
  moreover have "sched_inv (C - {c}) (F - {p}) ?s2" by (rule set_running_inv[OF inv1 c p])
  moreover have "sched_abs ?s2 = (sched_abs ?s1)\<lparr>sp_running := (sp_running (sched_abs ?s1))(c \<mapsto> started time j)\<rparr>"
    unfolding sched_abs_def rr(2) by (auto simp: fun_eq_iff)
  moreover have "sched_abs ?s1 = sched_abs s" by (rule abs_upd_float[OF fl(1,2)])
  ultimately show ?thesis by (simp add: same_conf_def)
qed

lemma take_running:
  assumes inv: "sched_inv C F s" and r: "run_ref s c = Some p"
  shows "\<exists>s'. set_running (int c) None s = Some s' \<and> sched_inv (insert c C) (insert p F) s'
    \<and> jobs s' = jobs s \<and> g_job_queue s' = g_job_queue s
    \<and> sched_abs s' = (sched_abs s)\<lparr>sp_running := (sp_running (sched_abs s))(c := None)\<rparr>
    \<and> same_conf s s'"
proof -
  note I = sched_invD[OF inv]
  have cl: "c < length (g_running_jobs s)" using r by (rule run_ref_bound)
  let ?s = "s\<lparr>g_running_jobs := (g_running_jobs s)[c := Val None]\<rparr>"
  note rr = run_ref_set_running[OF cl, of None]
  have ne: "run_ref s d \<noteq> Some p" if "d \<noteq> c" for d
    using inj_onD[OF I(12), of d c] that r by auto
  have ran: "ran ((run_ref s)(c := None)) = ran (run_ref s) - {p}"
    using ne r by (auto simp: ran_def; metis option.inject)
  have inj: "inj_on ((run_ref s)(c := None)) (dom ((run_ref s)(c := None)))"
    using I(12) by (auto simp: inj_on_def dom_def)
  have idle: "{d. d < g_total_cores s \<and> ((run_ref s)(c := None)) d = None}
      = insert c {d. d < g_total_cores s \<and> run_ref s d = None}"
    using cl I(2) by auto
  have pr: "p \<in> ran (run_ref s)" using r by (auto simp: ran_def)
  have cC: "c \<notin> {d. d < g_total_cores s \<and> run_ref s d = None}" using r by simp
  have "sched_inv (insert c C) (insert p F) ?s"
    unfolding sched_inv_def rr(2) ran
    using I(1-8,11,16) inj idle by (simp, use I(9,10,13-15) pr cC in blast)
  moreover have "sched_abs ?s = (sched_abs s)\<lparr>sp_running := (sp_running (sched_abs s))(c := None)\<rparr>"
    unfolding sched_abs_def rr(2) by (auto simp: fun_eq_iff)
  ultimately show ?thesis using rr(1) by (simp add: same_conf_def)
qed

text \<open>The queues.\<close>

lemma job_queue_inv:
  assumes inv: "sched_inv C F s" and q: "pq_ok q" "comparer q = scheme_comparer (g_scheme s)"
    and new: "distinct (queue_list q)" "set (queue_list q) \<inter> ran (run_ref s) = {}"
      "G \<inter> (set (queue_list q) \<union> ran (run_ref s)) = {}"
      "set (queue_list q) \<union> G = set (waiting_refs s) \<union> F"
  shows "sched_inv C G (s\<lparr>g_job_queue := q\<rparr>)"
proof -
  have "dom (jobs s) = set (queue_list q) \<union> ran (run_ref s) \<union> G"
    using sched_invD(15)[OF inv] new(4) by blast
  then show ?thesis
    using sched_invD(1-3,6-10,12,16)[OF inv] q new(1-3) unfolding sched_inv_def
    by (simp add: inf_commute)
qed

lemma offer_job_step:
  assumes inv: "sched_inv C F s" and p: "p \<in> F" and j: "jobs s p = Some j"
  shows "\<exists>s'. offer_job p s = Some s' \<and> sched_inv C (F - {p}) s' \<and> same_conf s s'
    \<and> jobs s' = jobs s \<and> run_ref s' = run_ref s
    \<and> sched_abs s' = (sched_abs s)\<lparr>sp_waiting := insert_job (g_scheme s) j (sp_waiting (sched_abs s))\<rparr>"
proof -
  note I = sched_invD[OF inv]
  let ?P = "\<lambda>y. 0 \<le> scheme_comparer (g_scheme s) (jobs s) p y"
  let ?A = "takeWhile ?P (waiting_refs s)" and ?B = "dropWhile ?P (waiting_refs s)"
  have "pq_ok (g_job_queue s) \<and> comparer (g_job_queue s) = scheme_comparer (g_scheme s)"
    using I(4,5) by simp
  from pq.offer_law[OF this, of "jobs s" p] obtain q where
    q: "priqueue_offer (jobs s) p (g_job_queue s) = Some (length ?A, q)" "pq_ok q"
      "comparer q = scheme_comparer (g_scheme s)" "queue_list q = ?A @ p # ?B" by blast
  have AB: "waiting_refs s = ?A @ ?B" by simp
  then have set: "set (queue_list q) = insert p (set (waiting_refs s))"
    unfolding q(4) by (metis Un_insert_right list.simps(15) set_append)
  have "mset (queue_list q) = mset (p # waiting_refs s)" unfolding q(4) by (simp only: mset_insert_at mset.simps)
  moreover have "distinct (p # waiting_refs s)" using I(11) floating(1)[OF inv p] by simp
  ultimately have "distinct (queue_list q)" by (metis mset_eq_imp_distinct_iff)
  then have inv': "sched_inv C (F - {p}) (s\<lparr>g_job_queue := q\<rparr>)"
  proof (rule job_queue_inv[OF inv q(2,3)], unfold set)
    show "insert p (set (waiting_refs s)) \<inter> ran (run_ref s) = {}"
      using I(13) floating(2)[OF inv p] by blast
    show "(F - {p}) \<inter> (insert p (set (waiting_refs s)) \<union> ran (run_ref s)) = {}"
      using I(14) by blast
    show "insert p (set (waiting_refs s)) \<union> (F - {p}) = set (waiting_refs s) \<union> F"
      using p by blast
  qed
  have key: "?P y \<longleftrightarrow> job_key (g_scheme s) (job_at (jobs s) y) \<le> job_key (g_scheme s) j" for y
    using scheme_comparer_key[of "g_scheme s" "jobs s" p y] j by (simp add: job_at_def)
  have "map (job_at (jobs s)) (queue_list q)
      = insert_job (g_scheme s) j (map (job_at (jobs s)) (waiting_refs s))"
    unfolding q(4) key using j
    by (simp add: insert_job_def takeWhile_map dropWhile_map o_def job_at_def)
  then have "sched_abs (s\<lparr>g_job_queue := q\<rparr>)
      = (sched_abs s)\<lparr>sp_waiting := insert_job (g_scheme s) j (sp_waiting (sched_abs s))\<rparr>"
    by (simp add: sched_abs_def)
  then show ?thesis using q(1) inv' by (simp add: offer_job_def same_conf_def)
qed

lemma poll_job_step:
  assumes inv: "sched_inv C F s" and w: "sp_waiting (sched_abs s) = j # w"
  shows "\<exists>p q. priqueue_poll (g_job_queue s) = Some (Some p, q)
    \<and> sched_inv C (insert p F) (s\<lparr>g_job_queue := q\<rparr>) \<and> jobs s p = Some j
    \<and> sched_abs (s\<lparr>g_job_queue := q\<rparr>) = (sched_abs s)\<lparr>sp_waiting := w\<rparr>"
proof -
  note I = sched_invD[OF inv]
  obtain p ps where ps: "waiting_refs s = p # ps" "j = job_at (jobs s) p" "w = map (job_at (jobs s)) ps"
    using w by (auto simp: sched_abs_def)
  have "pq_ok (g_job_queue s) \<and> comparer (g_job_queue s) = scheme_comparer (g_scheme s)"
    using I(4,5) by simp
  from pq.poll_cons[OF this ps(1)] obtain q where
    q: "priqueue_poll (g_job_queue s) = Some (Some p, q)" "pq_ok q"
      "comparer q = scheme_comparer (g_scheme s)" "queue_list q = ps" by blast
  have d: "p \<notin> set ps" "distinct ps" using I(11) ps(1) by simp_all
  have "p \<in> dom (jobs s)" "p \<notin> ran (run_ref s)" using I(13,15) ps(1) by auto
  then have "jobs s p = Some j" using ps(2) by (auto simp: job_at_def)
  moreover have "sched_inv C (insert p F) (s\<lparr>g_job_queue := q\<rparr>)"
    by (rule job_queue_inv[OF inv q(2,3)])
      (use d q(4) ps(1) I(13,14) \<open>p \<notin> ran (run_ref s)\<close> in auto)
  moreover have "sched_abs (s\<lparr>g_job_queue := q\<rparr>) = (sched_abs s)\<lparr>sp_waiting := w\<rparr>"
    using q(4) ps(3) by (simp add: sched_abs_def)
  ultimately show ?thesis using q(1) by blast
qed

lemma job_queue_empty:
  assumes "sched_inv C F s"
  shows "priqueue_is_empty (g_job_queue s) \<longleftrightarrow> sp_waiting (sched_abs s) = []"
  by (simp add: priqueue_is_empty_list sched_abs_def)

lemma abs_idle [simp]: "sched_abs (s\<lparr>g_idle_cores := q\<rparr>) = sched_abs s"
  by (simp add: sched_abs_def)

lemma idle_queue_inv:
  assumes "sched_inv C F s" "pq_ok q" "comparer q = core_compare" "sorted_wrt (<) (queue_list q)"
    "set (queue_list q) = {c. c < g_total_cores s \<and> run_ref s c = None} - D"
    "D \<subseteq> {c. c < g_total_cores s \<and> run_ref s c = None}"
  shows "sched_inv D F (s\<lparr>g_idle_cores := q\<rparr>)"
  using assms unfolding sched_inv_def by simp

text \<open>The first idle core is the least one.\<close>

lemma poll_idle_step:
  assumes inv: "sched_inv {} F s" and ne: "idle_cores (g_total_cores s) (sched_abs s) \<noteq> {}"
  defines "c \<equiv> Min (idle_cores (g_total_cores s) (sched_abs s))"
  shows "\<exists>q. priqueue_poll (g_idle_cores s) = Some (Some c, q) \<and> c < length (g_cores_list s)
    \<and> g_cores_list s ! c = int c \<and> sched_inv {c} F (s\<lparr>g_idle_cores := q\<rparr>)"
proof -
  note I = sched_invD[OF inv]
  have set: "set (idle_list s) = idle_cores (g_total_cores s) (sched_abs s)"
    using I(9) idle_cores_abs[OF inv] by simp
  then obtain d ds where ds: "idle_list s = d # ds" using ne by (cases "idle_list s") auto
  have "d = c"
    unfolding c_def set[symmetric] using I(8) ds by (auto intro!: Min_eqI[symmetric])
  have "pq_ok (g_idle_cores s) \<and> comparer (g_idle_cores s) = core_compare" using I(6,7) by simp
  from pq.poll_cons[OF this ds] obtain q where
    q: "priqueue_poll (g_idle_cores s) = Some (Some d, q)" "pq_ok q" "comparer q = core_compare"
      "queue_list q = ds" by blast
  have cs: "c \<in> {c. c < g_total_cores s \<and> run_ref s c = None}" using ds I(9) \<open>d = c\<close> by auto
  have "c \<notin> set ds" using I(8) ds \<open>d = c\<close> by auto
  then have "set ds = {c. c < g_total_cores s \<and> run_ref s c = None} - {c}"
    using I(9) ds \<open>d = c\<close> by auto
  then have "sched_inv {c} F (s\<lparr>g_idle_cores := q\<rparr>)"
    using cs I(8) ds q by (intro idle_queue_inv[OF inv]) auto
  then show ?thesis using q(1) \<open>d = c\<close> cs I(3) by auto
qed

lemma idle_empty:
  assumes "sched_inv {} F s"
  shows "priqueue_is_empty (g_idle_cores s) \<longleftrightarrow> idle_cores (g_total_cores s) (sched_abs s) = {}"
  using sched_invD(9)[OF assms] idle_cores_abs[OF assms]
  by (metis Diff_empty priqueue_is_empty_list set_empty)

lemma offer_idle_step:
  assumes inv: "sched_inv {c} F s"
  shows "\<exists>i q. priqueue_offer (g_cores_list s) c (g_idle_cores s) = Some (i, q)
    \<and> c < length (g_cores_list s) \<and> sched_inv {} F (s\<lparr>g_idle_cores := q\<rparr>)"
proof -
  note I = sched_invD[OF inv]
  let ?k = "\<lambda>d. g_cores_list s ! d"
  have c: "c < g_total_cores s" "run_ref s c = None" "c \<notin> set (idle_list s)" using I(9,10) by auto
  have k: "?k d = int d" if "d < g_total_cores s" for d using I(3) that by simp
  have pre: "pq_ok (g_idle_cores s) \<and> comparer (g_idle_cores s) = core_compare" using I(6,7) by simp
  have le: "\<forall>d\<in>set (idle_list s). d < g_total_cores s" using I(9) by auto
  have "map ?k (idle_list s) = map int (idle_list s)" using le k by auto
  then have s: "sorted (map ?k (idle_list s))"
    using I(8) by (simp add: sorted_map strict_sorted_iff sorted_wrt_mono_rel[of _ "(<)"])
  obtain i q where q: "priqueue_offer (g_cores_list s) c (g_idle_cores s) = Some (i, q)"
    using pq.offer_law[OF pre] by blast
  note q' = idle.offer_sorted[OF pre s q]
  have set: "set (queue_list q) = insert c (set (idle_list s))"
    using q' by (metis set_mset_add_mset_insert set_mset_mset)
  have "distinct (queue_list q)"
  proof -
    have "distinct (c # idle_list s)" using c(3) I(8) by (simp add: strict_sorted_iff)
    moreover have "mset (queue_list q) = mset (c # idle_list s)" using q' by simp
    ultimately show ?thesis by (metis mset_eq_imp_distinct_iff)
  qed
  moreover have "map ?k (queue_list q) = map int (queue_list q)"
    using set le c(1) k by auto
  then have "sorted (map int (queue_list q))" using q' by metis
  then have "sorted (queue_list q)" by (simp add: sorted_map)
  ultimately have "sorted_wrt (<) (queue_list q)" by (simp add: strict_sorted_iff)
  then have "sched_inv {} F (s\<lparr>g_idle_cores := q\<rparr>)"
    using q' set I(9) c by (intro idle_queue_inv[OF inv]) auto
  then show ?thesis using q c(1) I(3) by simp
qed

section \<open>Operations\<close>

lemma spec_upd_None:
  assumes "sp_running sp c = None"
  shows "sp\<lparr>sp_running := (sp_running sp)(c := None)\<rparr> = sp"
  using fun_upd_triv[of "sp_running sp" c] assms by simp

lemma upd_upd [simp]: "m(c := x, c := y) = m(c := y)"
  by simp

lemma run_ref_None_abs: "run_ref s c = None \<Longrightarrow> sp_running (sched_abs s) c = None"
  by (simp add: sched_abs_def)

lemma schedule_next_ok:
  assumes inv: "sched_inv {c} {} s"
  shows "\<exists>s'. schedule_next_job (int c) time s = Some (fst (spec_next c time (sched_abs s)), s')
    \<and> sched_inv {} {} s' \<and> sched_abs s' = snd (spec_next c time (sched_abs s)) \<and> same_conf s s'"
proof (cases "sp_waiting (sched_abs s)")
  case Nil
  obtain i q where q: "priqueue_offer (g_cores_list s) c (g_idle_cores s) = Some (i, q)"
    "c < length (g_cores_list s)" "sched_inv {} {} (s\<lparr>g_idle_cores := q\<rparr>)"
    using offer_idle_step[OF inv] by blast
  have "run_ref s c = None" using sched_invD(10)[OF inv] by simp
  then have "snd (spec_next c time (sched_abs s)) = sched_abs s"
    using Nil spec_upd_None[OF run_ref_None_abs] by (simp add: spec_next_def)
  then show ?thesis
    using q Nil job_queue_empty[OF inv]
    by (simp add: schedule_next_job_def spec_next_def same_conf_def)
next
  case (Cons j w)
  from poll_job_step[OF inv this] obtain p q where
    q: "priqueue_poll (g_job_queue s) = Some (Some p, q)" "sched_inv {c} {p} (s\<lparr>g_job_queue := q\<rparr>)"
      "jobs s p = Some j" "sched_abs (s\<lparr>g_job_queue := q\<rparr>) = (sched_abs s)\<lparr>sp_waiting := w\<rparr>"
    by blast
  have "jobs (s\<lparr>g_job_queue := q\<rparr>) p = Some j" using q(3) by simp
  from schedule_job_step[OF q(2) _ _ this] obtain s' where
    s': "schedule_job p (int c) time (s\<lparr>g_job_queue := q\<rparr>) = Some s'" "sched_inv ({c} - {c}) ({p} - {p}) s'"
      "sched_abs s' = (sched_abs (s\<lparr>g_job_queue := q\<rparr>))\<lparr>sp_running :=
         (sp_running (sched_abs (s\<lparr>g_job_queue := q\<rparr>)))(c \<mapsto> started time j)\<rparr>"
      "same_conf (s\<lparr>g_job_queue := q\<rparr>) s'" "jobs s' p = Some (started time j)"
    by blast
  have "job_id (started time j) = job_id j" by (simp add: started_def)
  then show ?thesis
    using q s' Cons job_queue_empty[OF inv]
    by (simp add: schedule_next_job_def spec_next_def same_conf_def)
qed

lemma running_refs:
  assumes inv: "sched_inv C F s" and r: "sp_running (sched_abs s) c = Some j"
  obtains p where "run_ref s c = Some p" "jobs s p = Some j" "running_job s (int c) = Some p"
  using r running_job_ref[of s c] by (cases "run_ref s c") (auto simp: sched_abs_def)

lemma free_job_inv:
  assumes inv: "sched_inv C F s" and p: "p \<in> F"
  shows "sched_inv C (F - {p}) (s\<lparr>jobs := (jobs s)(p := None)\<rparr>)"
proof -
  note I = sched_invD[OF inv]
  have d: "dom ((jobs s)(p := None)) = dom (jobs s) - {p}" by auto
  have "dom (jobs s) - {p} = set (waiting_refs s) \<union> ran (run_ref s) \<union> (F - {p})"
    using I(15) floating[OF inv p] by blast
  moreover have "(F - {p}) \<inter> (set (waiting_refs s) \<union> ran (run_ref s)) = {}" using I(14) by blast
  moreover have "\<forall>q\<in>dom (jobs s) - {p}. q < next_ref s" using I(16) by blast
  ultimately show ?thesis
    using I(1-13) unfolding sched_inv_def by (simp add: d)
qed

lemma inv_totals:
  "sched_inv C F (s\<lparr>total_jobs := a, total_turnaround_time := b, total_waiting_time := d,
     total_response_time := e, jobs := h\<rparr>) = sched_inv C F (s\<lparr>jobs := h\<rparr>)"
  by (simp add: sched_inv_def)

lemma queued_fun: "(\<lambda>j. j\<lparr>latest_queue_time := time\<rparr>) = queued time"
  by (simp add: fun_eq_iff queued_def)

lemma finished_ok:
  assumes inv: "sched_inv {} {} s" and r: "sp_running (sched_abs s) c = Some j"
  shows "\<exists>s'. scheduler_job_finished (int c) n time s = Some (fst (spec_finish c time (sched_abs s)), s')
    \<and> sched_inv {} {} s' \<and> sched_abs s' = snd (spec_finish c time (sched_abs s)) \<and> same_conf s s'"
proof -
  obtain p where p: "run_ref s c = Some p" "jobs s p = Some j" "running_job s (int c) = Some p"
    using running_refs[OF inv r] .
  from take_running[OF inv p(1)] obtain s1 where
    s1: "set_running (int c) None s = Some s1" "sched_inv {c} {p} s1" "jobs s1 = jobs s"
      "sched_abs s1 = (sched_abs s)\<lparr>sp_running := (sp_running (sched_abs s))(c := None)\<rparr>" "same_conf s s1"
    by auto
  let ?t = "time - arrival_time j"
  let ?s2 = "s1\<lparr>total_jobs := total_jobs s1 + 1, total_turnaround_time := total_turnaround_time s1 + ?t,
    total_waiting_time := total_waiting_time s1 + (?t - running_time j),
    total_response_time := total_response_time s1 + (start_time j - arrival_time j),
    jobs := (jobs s1)(p := None)\<rparr>"
  note fl = floating[OF s1(2), of p]
  have inv2: "sched_inv {c} {} ?s2"
    using free_job_inv[OF s1(2), of p] by (simp add: inv_totals)
  have run: "scheduler_job_finished (int c) n time s = schedule_next_job (int c) time ?s2"
    using p s1(1,3) by (simp add: scheduler_job_finished_def Let_def)
  have "sched_abs (s1\<lparr>jobs := (jobs s1)(p := None)\<rparr>) = sched_abs s1"
    by (rule abs_upd_float) (use fl in simp_all)
  then have abs2: "sched_abs ?s2 = (sched_abs s1)\<lparr>sp_jobs := total_jobs s1 + 1,
      sp_waiting_time := total_waiting_time s1 + (?t - running_time j),
      sp_turnaround_time := total_turnaround_time s1 + ?t,
      sp_response_time := total_response_time s1 + (start_time j - arrival_time j)\<rparr>"
    by (simp add: sched_abs_def)
  have tot: "total_jobs s1 = sp_jobs (sched_abs s)" "total_waiting_time s1 = sp_waiting_time (sched_abs s)"
    "total_turnaround_time s1 = sp_turnaround_time (sched_abs s)"
    "total_response_time s1 = sp_response_time (sched_abs s)"
    using arg_cong[OF s1(4), of sp_jobs] arg_cong[OF s1(4), of sp_waiting_time]
      arg_cong[OF s1(4), of sp_turnaround_time] arg_cong[OF s1(4), of sp_response_time]
    by (simp_all add: sched_abs_def)
  have "spec_next c time (sched_abs ?s2) = spec_finish c time (sched_abs s)"
    unfolding abs2 unfolding s1(4) tot spec_finish_def r
    by (simp add: spec_next_def Let_def split: list.split)
  then show ?thesis
    using schedule_next_ok[OF inv2, of time] run s1(5) by (auto simp: same_conf_def)
qed

lemma expired_ok:
  assumes inv: "sched_inv {} {} s" and r: "sp_running (sched_abs s) c = Some j"
  shows "\<exists>s'. scheduler_quantum_expired (int c) time s
      = Some (fst (spec_expire (g_scheme s) c time (sched_abs s)), s')
    \<and> sched_inv {} {} s' \<and> sched_abs s' = snd (spec_expire (g_scheme s) c time (sched_abs s))
    \<and> same_conf s s'"
proof -
  obtain p where p: "run_ref s c = Some p" "jobs s p = Some j" "running_job s (int c) = Some p"
    using running_refs[OF inv r] .
  from take_running[OF inv p(1)] obtain s1 where
    s1: "set_running (int c) None s = Some s1" "sched_inv {c} {p} s1" "jobs s1 = jobs s"
      "sched_abs s1 = (sched_abs s)\<lparr>sp_running := (sp_running (sched_abs s))(c := None)\<rparr>" "same_conf s s1"
    by auto
  have "jobs s1 p = Some j" using s1(3) p(2) by simp
  from set_job_float[OF s1(2) _ this, of "queued time"] obtain s2 where
    s2: "set_job p (queued time) s1 = Some s2" "sched_inv {c} {p} s2" "jobs s2 p = Some (queued time j)"
      "sched_abs s2 = sched_abs s1" "same_conf s1 s2" by auto
  from offer_job_step[OF s2(2) _ s2(3)] obtain s3 where
    s3: "offer_job p s2 = Some s3" "sched_inv {c} {} s3" "same_conf s2 s3"
      "sched_abs s3 = (sched_abs s2)\<lparr>sp_waiting := insert_job (g_scheme s2) (queued time j) (sp_waiting (sched_abs s2))\<rparr>"
    by auto
  have run: "scheduler_quantum_expired (int c) time s = schedule_next_job (int c) time s3"
    using p s1(1) s2(1) s3(1) unfolding scheduler_quantum_expired_def queued_fun by simp
  have sch: "g_scheme s2 = g_scheme s" using s1(5) s2(5) by (simp add: same_conf_def)
  have "spec_next c time (sched_abs s3) = spec_expire (g_scheme s) c time (sched_abs s)"
    unfolding s3(4) s2(4) s1(4) sch spec_expire_def r
    by (simp add: spec_next_def split: list.split)
  then show ?thesis
    using schedule_next_ok[OF s3(2), of time] run s1(5) s2(5) s3(3) by (auto simp: same_conf_def)
qed

text \<open>Arrivals.\<close>

lemma worst_core_le: "worst_core scheme run n \<le> n"
  by (induction n) (auto simp: Let_def)

lemma job_at_running:
  assumes "run_ref s c = Some p" "sp_running (sched_abs s) c = Some j"
  shows "job_at (jobs s) p = j"
  using assms by (simp add: sched_abs_def job_at_def)

lemma find_least_ok:
  fixes time :: int and run0 :: "nat \<Rightarrow> job_t option"
  defines "R \<equiv> \<lambda>c. map_option (refreshed time) (run0 c)"
  assumes "sched_inv {} F s" and "g_scheme s = PSJF \<or> g_scheme s = PPRI"
    and "\<forall>c<g_total_cores s. run0 c \<noteq> None" and "i + n = g_total_cores s" and "0 < i"
    and "sp_running (sched_abs s) = (\<lambda>c. if c < i then R c else run0 c)"
    and "least = worst_core (g_scheme s) R (i - 1)"
  shows "\<exists>s'. find_least n i (int least) time s
      = Some (int (worst_core (g_scheme s) R (g_total_cores s - 1)), s')
    \<and> sched_inv {} F s' \<and> same_conf s s' \<and> (\<forall>q\<in>F. jobs s' q = jobs s q)
    \<and> sched_abs s' = (sched_abs s)\<lparr>sp_running := (\<lambda>c. if c < g_total_cores s then R c else run0 c)\<rparr>"
  using assms(2-)
proof (induction n arbitrary: i least s)
  case 0
  have i: "i = g_total_cores s" using 0(4) by simp
  then have "(\<lambda>c. if c < g_total_cores s then R c else run0 c) = sp_running (sched_abs s)"
    unfolding 0(6) by simp
  moreover have "find_least 0 i (int least) time s = Some (int (worst_core (g_scheme s) R (g_total_cores s - 1)), s)"
    unfolding 0(7) i by simp
  ultimately show ?case using 0(1) by simp
next
  case (Suc n)
  note inv = Suc.prems(1) and pre = Suc.prems(2)
  have i: "i < g_total_cores s" using Suc.prems(4) by simp
  then obtain j where j: "run0 i = Some j" using Suc.prems(3) by blast
  then have ri: "sp_running (sched_abs s) i = Some j" using Suc.prems(6) by simp
  obtain p where p: "run_ref s i = Some p" "jobs s p = Some j" "running_job s (int i) = Some p"
    using running_refs[OF inv ri] .
  from refresh_running[OF inv p(1) ri, of time] obtain s1 where
    s1: "update_remaining_time p time s = Some s1" "sched_inv {} F s1" "same_conf s s1"
      "run_ref s1 = run_ref s" "\<forall>q. q \<noteq> p \<longrightarrow> jobs s1 q = jobs s q"
      "sched_abs s1 = (sched_abs s)\<lparr>sp_running := (sp_running (sched_abs s))(i \<mapsto> refreshed time j)\<rparr>"
    by blast
  have run1: "sp_running (sched_abs s1) = (\<lambda>c. if c < Suc i then R c else run0 c)"
    unfolding s1(6) Suc.prems(6) using j by (auto simp: R_def less_Suc_eq)
  have c1: "g_scheme s1 = g_scheme s" "g_total_cores s1 = g_total_cores s"
    using s1(3) by (simp_all add: same_conf_def)
  have ll: "least \<le> i - 1" using worst_core_le Suc.prems(7) by simp
  then have lN: "least < g_total_cores s" "least < Suc i" using i Suc.prems(5) by simp_all
  obtain jl where jl: "run0 least = Some jl" using Suc.prems(3) lN(1) by blast
  then have rl: "sp_running (sched_abs s1) least = Some (refreshed time jl)"
    unfolding run1 using lN(2) by (simp add: R_def)
  obtain l where l: "run_ref s1 least = Some l" "running_job s1 (int least) = Some l"
    using running_refs[OF s1(2) rl] by metis
  have ri1: "sp_running (sched_abs s1) i = Some (refreshed time j)"
    unfolding run1 using j by (simp add: R_def)
  have p1: "run_ref s1 i = Some p" using s1(4) p(1) by simp
  let ?least = "worst_core (g_scheme s) R i"
  have cmp: "0 < comparer (g_job_queue s1) (jobs s1) p l \<longleftrightarrow>
      job_key (g_scheme s) (the (R least)) < job_key (g_scheme s) (the (R i))"
    using sched_invD(5)[OF s1(2)] scheme_comparer_strict(2)[OF pre, of "jobs s1" p l]
      job_at_running[OF l(1) rl] job_at_running[OF p1 ri1] c1(1) j jl
    by (simp add: R_def)
  have "?least = (if 0 < comparer (g_job_queue s1) (jobs s1) p l then i else least)"
    unfolding cmp using Suc.prems(5,7) by (cases i) (simp_all add: Let_def)
  then have step: "find_least (Suc n) i (int least) time s = find_least n (Suc i) (int ?least) time s1"
    using p(3) s1(1) l(2) by simp
  have "\<exists>s'. find_least n (Suc i) (int ?least) time s1
      = Some (int (worst_core (g_scheme s1) R (g_total_cores s1 - 1)), s')
    \<and> sched_inv {} F s' \<and> same_conf s1 s' \<and> (\<forall>q\<in>F. jobs s' q = jobs s1 q)
    \<and> sched_abs s' = (sched_abs s1)\<lparr>sp_running := (\<lambda>c. if c < g_total_cores s1 then R c else run0 c)\<rparr>"
    by (rule Suc.IH[OF s1(2)]) (use c1 pre Suc.prems(3,4) run1 in simp_all)
  moreover have "\<forall>q\<in>F. jobs s1 q = jobs s q"
    using s1(5) floating(2)[OF inv] p(1) by (metis ranI)
  ultimately show ?case
    unfolding step c1 s1(6) using same_conf_trans[OF s1(3)] by auto
qed

lemma enqueue_ok:
  assumes inv: "sched_inv {} {p} s" and j: "jobs s p = Some j"
  shows "\<exists>s'. enqueue_job p time s = Some (fst (spec_enqueue (g_scheme s) j time (sched_abs s)), s')
    \<and> sched_inv {} {} s' \<and> sched_abs s' = snd (spec_enqueue (g_scheme s) j time (sched_abs s))
    \<and> same_conf s s'"
proof -
  from set_job_float[OF inv _ j, of "queued time"] obtain s1 where
    s1: "set_job p (queued time) s = Some s1" "sched_inv {} {p} s1" "jobs s1 p = Some (queued time j)"
      "sched_abs s1 = sched_abs s" "same_conf s s1" by auto
  from offer_job_step[OF s1(2) _ s1(3)] obtain s2 where
    s2: "offer_job p s1 = Some s2" "sched_inv {} {} s2" "same_conf s1 s2"
      "sched_abs s2 = (sched_abs s1)\<lparr>sp_waiting := insert_job (g_scheme s1) (queued time j) (sp_waiting (sched_abs s1))\<rparr>"
    by auto
  have "enqueue_job p time s = Some (- 1, s2)"
    using s1(1) s2(1) unfolding enqueue_job_def queued_fun by simp
  then show ?thesis
    using s1(4,5) s2 by (simp add: spec_enqueue_def same_conf_def)
qed

lemma unschedule_ok:
  assumes inv: "sched_inv {} {p} s" and r: "sp_running (sched_abs s) c = Some v"
  shows "\<exists>s'. unschedule_job (int c) time s = Some s' \<and> sched_inv {c} {p} s' \<and> jobs s' p = jobs s p
    \<and> same_conf s s'
    \<and> sched_abs s' = (sched_abs s)\<lparr>sp_running := (sp_running (sched_abs s))(c := None),
         sp_waiting := insert_job (g_scheme s) (preempted time v) (sp_waiting (sched_abs s))\<rparr>"
proof -
  let ?f = "\<lambda>j. if start_time j = time then j\<lparr>start_time := - 1\<rparr> else j"
  obtain l where l: "run_ref s c = Some l" "jobs s l = Some v" "running_job s (int c) = Some l"
    using running_refs[OF inv r] .
  have lp: "p \<noteq> l" using floating(2)[OF inv, of p] l(1) by (auto intro: ranI)
  from take_running[OF inv l(1)] obtain s1 where
    s1: "set_running (int c) None s = Some s1" "sched_inv {c} {l, p} s1" "jobs s1 = jobs s"
      "sched_abs s1 = (sched_abs s)\<lparr>sp_running := (sp_running (sched_abs s))(c := None)\<rparr>" "same_conf s s1"
    by auto
  have "jobs s1 l = Some v" using s1(3) l(2) by simp
  from set_job_float[OF s1(2) _ this, of ?f] obtain s2 where
    s2: "set_job l ?f s1 = Some s2" "sched_inv {c} {l, p} s2" "jobs s2 l = Some (?f v)"
      "jobs s2 p = jobs s1 p" "sched_abs s2 = sched_abs s1" "same_conf s1 s2" using lp by blast
  from set_job_float[OF s2(2) _ s2(3), of "refreshed time"] obtain s3 where
    s3: "set_job l (refreshed time) s2 = Some s3" "sched_inv {c} {l, p} s3"
      "jobs s3 l = Some (refreshed time (?f v))" "jobs s3 p = jobs s2 p" "sched_abs s3 = sched_abs s2"
      "same_conf s2 s3" using lp by blast
  from set_job_float[OF s3(2) _ s3(3), of "queued time"] obtain s4 where
    s4: "set_job l (queued time) s3 = Some s4" "sched_inv {c} {l, p} s4"
      "jobs s4 l = Some (queued time (refreshed time (?f v)))" "jobs s4 p = jobs s3 p"
      "sched_abs s4 = sched_abs s3" "same_conf s3 s4" using lp by blast
  from offer_job_step[OF s4(2) _ s4(3)] obtain s5 where
    s5: "offer_job l s4 = Some s5" "sched_inv {c} ({l, p} - {l}) s5" "same_conf s4 s5" "jobs s5 = jobs s4"
      "sched_abs s5 = (sched_abs s4)\<lparr>sp_waiting := insert_job (g_scheme s4)
         (queued time (refreshed time (?f v))) (sp_waiting (sched_abs s4))\<rparr>"
    by blast
  have "unschedule_job (int c) time s = Some s5"
    using l(3) s1(1) s2(1) s3(1) s4(1) s5(1)
    unfolding unschedule_job_def update_remaining_set queued_fun by simp
  moreover have "{l, p} - {l} = {p}" using lp by auto
  moreover have "g_scheme s4 = g_scheme s"
    using s1(5) s2(6) s3(6) s4(6) by (simp add: same_conf_def)
  ultimately show ?thesis
    using s5 s4(4,5,6) s3(4,5,6) s2(4,5,6) s1(3,4,5) unfolding preempted_def
    by (auto simp: same_conf_def)
qed

lemma preempt_ok:
  assumes inv: "sched_inv {} {p} s" and j: "jobs s p = Some j"
    and pre: "g_scheme s = PSJF \<or> g_scheme s = PPRI"
    and busy: "idle_cores (g_total_cores s) (sched_abs s) = {}"
  shows "\<exists>s'. preempt_or_enqueue p time s
      = Some (fst (spec_preempt (g_scheme s) (g_total_cores s) j time (sched_abs s)), s')
    \<and> sched_inv {} {} s'
    \<and> sched_abs s' = snd (spec_preempt (g_scheme s) (g_total_cores s) j time (sched_abs s))
    \<and> same_conf s s'"
proof -
  let ?N = "g_total_cores s" and ?run0 = "sp_running (sched_abs s)"
  let ?R = "\<lambda>c. map_option (refreshed time) (?run0 c)"
  let ?w = "worst_core (g_scheme s) ?R (?N - 1)"
  have full: "\<forall>c<?N. ?run0 c \<noteq> None" using busy by (auto simp: idle_cores_eq)
  have N: "0 < ?N" by (rule sched_invD(1)[OF inv])
  then obtain j0 where j0: "?run0 0 = Some j0" using full by blast
  obtain r where "run_ref s 0 = Some r" using running_refs[OF inv j0] by blast
  then have r: "run_ref s 0 = Some r" "running_job s 0 = Some r"
    using running_job_ref[of s 0] by simp_all
  from refresh_running[OF inv r(1) j0, of time] obtain s1 where
    s1: "update_remaining_time r time s = Some s1" "sched_inv {} {p} s1" "same_conf s s1"
      "\<forall>q. q \<noteq> r \<longrightarrow> jobs s1 q = jobs s q"
      "sched_abs s1 = (sched_abs s)\<lparr>sp_running := ?run0(0 \<mapsto> refreshed time j0)\<rparr>"
    by blast
  have c1: "g_scheme s1 = g_scheme s" "g_total_cores s1 = ?N"
    using s1(3) by (simp_all add: same_conf_def)
  have pr: "p \<noteq> r" using floating(2)[OF inv, of p] r(1) by (auto intro: ranI)
  have "\<exists>s'. find_least (?N - 1) 1 (int 0) time s1
      = Some (int (worst_core (g_scheme s1) ?R (g_total_cores s1 - 1)), s')
    \<and> sched_inv {} {p} s' \<and> same_conf s1 s' \<and> (\<forall>q\<in>{p}. jobs s' q = jobs s1 q)
    \<and> sched_abs s' = (sched_abs s1)\<lparr>sp_running := (\<lambda>c. if c < g_total_cores s1 then ?R c else ?run0 c)\<rparr>"
    by (rule find_least_ok[OF s1(2)])
      (use c1 pre full N j0 s1(5) in \<open>auto simp: fun_eq_iff\<close>)
  then obtain s2 where s2: "find_least (?N - 1) 1 0 time s1 = Some (int ?w, s2)" "sched_inv {} {p} s2"
    "same_conf s1 s2" "jobs s2 p = jobs s1 p"
    "sched_abs s2 = (sched_abs s1)\<lparr>sp_running := (\<lambda>c. if c < ?N then ?R c else ?run0 c)\<rparr>"
    unfolding c1 by auto
  have out: "?run0 c = None" if "\<not> c < ?N" for c
  proof -
    have "run_ref s c = None" using that sched_invD(2)[OF inv] by (simp add: run_ref_def)
    then show ?thesis by (rule run_ref_None_abs)
  qed
  have "(\<lambda>c. if c < ?N then ?R c else ?run0 c) = ?R" using out by (auto simp: fun_eq_iff)
  then have abs2: "sched_abs s2 = refresh_all time (sched_abs s)"
    unfolding s2(5) s1(5) by (simp add: refresh_all_def)
  then have runR: "sp_running (sched_abs s2) = ?R" by (simp add: refresh_all_def)
  have c2: "g_scheme s2 = g_scheme s" "g_total_cores s2 = ?N"
    using c1 s2(3) by (simp_all add: same_conf_def)
  have "?w < ?N" using worst_core_le[of "g_scheme s" ?R "?N - 1"] N by simp
  then obtain v0 where "?run0 ?w = Some v0" using full by blast
  then obtain v where v: "?R ?w = Some v" by simp
  then have rv: "sp_running (sched_abs s2) ?w = Some v" unfolding abs2 by (simp add: refresh_all_def)
  obtain l where l: "run_ref s2 ?w = Some l" "running_job s2 (int ?w) = Some l"
    using running_refs[OF s2(2) rv] by metis
  have jp: "jobs s2 p = Some j" using s2(4) s1(4) pr j by simp
  then have "job_at (jobs s2) p = j" by (simp add: job_at_def)
  then have cmp: "comparer (g_job_queue s2) (jobs s2) p l < 0 \<longleftrightarrow> job_key (g_scheme s) j < job_key (g_scheme s) v"
    using sched_invD(5)[OF s2(2)] c2(1) scheme_comparer_strict(1)[OF pre, of "jobs s2" p l]
      job_at_running[OF l(1) rv] by simp
  have run: "preempt_or_enqueue p time s =
      (if job_key (g_scheme s) j < job_key (g_scheme s) v
       then Option.bind (unschedule_job (int ?w) time s2) (\<lambda>s.
         map_option (\<lambda>s. (int ?w, s)) (schedule_job p (int ?w) time s))
       else enqueue_job p time s2)"
    unfolding preempt_or_enqueue_def using r(2) s1(1) s2(1) l(2) cmp c1(2) by simp
  have spec: "spec_preempt (g_scheme s) ?N j time (sched_abs s) =
      (if job_key (g_scheme s) j < job_key (g_scheme s) v
       then (int ?w, (sched_abs s2)\<lparr>sp_running := (sp_running (sched_abs s2))(?w \<mapsto> started time j),
              sp_waiting := insert_job (g_scheme s) (preempted time v) (sp_waiting (sched_abs s2))\<rparr>)
       else spec_enqueue (g_scheme s) j time (sched_abs s2))"
    unfolding spec_preempt_def abs2[symmetric] Let_def runR v option.sel by (rule refl)
  show ?thesis
  proof (cases "job_key (g_scheme s) j < job_key (g_scheme s) v")
    case True
    from unschedule_ok[OF s2(2) rv, of time] obtain s3 where
      s3: "unschedule_job (int ?w) time s2 = Some s3" "sched_inv {?w} {p} s3" "jobs s3 p = jobs s2 p"
        "same_conf s2 s3"
        "sched_abs s3 = (sched_abs s2)\<lparr>sp_running := (sp_running (sched_abs s2))(?w := None),
           sp_waiting := insert_job (g_scheme s2) (preempted time v) (sp_waiting (sched_abs s2))\<rparr>"
      by blast
    have "jobs s3 p = Some j" using s3(3) jp by simp
    from schedule_job_step[OF s3(2) _ _ this, of ?w time] obtain s4 where
      s4: "schedule_job p (int ?w) time s3 = Some s4" "sched_inv ({?w} - {?w}) ({p} - {p}) s4"
        "sched_abs s4 = (sched_abs s3)\<lparr>sp_running := (sp_running (sched_abs s3))(?w \<mapsto> started time j)\<rparr>"
        "same_conf s3 s4" by blast
    have "sched_abs s4 = snd (spec_preempt (g_scheme s) ?N j time (sched_abs s))"
      unfolding s4(3) s3(5) spec using True c2(1) by simp
    moreover have "same_conf s s4"
      using s1(3) s2(3) s3(4) s4(4) by (simp add: same_conf_def)
    ultimately show ?thesis
      unfolding run using True s3(1) s4(1,2) spec by simp
  next
    case False
    show ?thesis
      using enqueue_ok[OF s2(2) jp, of time] False s1(3) s2(3) c2(1)
      unfolding run spec by (auto simp: same_conf_def)
  qed
qed

lemma new_job_ok:
  assumes inv: "sched_inv {} {} s"
  shows "\<exists>s'. scheduler_new_job i time run pri s
      = Some (fst (spec_arrive (g_scheme s) (g_total_cores s) (fresh_job i pri time run) time (sched_abs s)), s')
    \<and> sched_inv {} {} s'
    \<and> sched_abs s' = snd (spec_arrive (g_scheme s) (g_total_cores s) (fresh_job i pri time run) time (sched_abs s))
    \<and> same_conf s s'"
proof -
  let ?j = "fresh_job i pri time run"
  obtain p s1 where n: "new_job i pri time run s = (p, s1)" by (cases "new_job i pri time run s")
  note s1 = new_job_step[OF inv n]
  have c1: "g_scheme s1 = g_scheme s" "g_total_cores s1 = g_total_cores s"
    using s1(4) by (simp_all add: same_conf_def)
  show ?thesis
  proof (cases "idle_cores (g_total_cores s) (sched_abs s) = {}")
    case False
    let ?c = "Min (idle_cores (g_total_cores s) (sched_abs s))"
    have ne: "idle_cores (g_total_cores s1) (sched_abs s1) \<noteq> {}" using False s1(3) c1 by simp
    from poll_idle_step[OF s1(1) this] obtain q where
      q: "priqueue_poll (g_idle_cores s1) = Some (Some ?c, q)" "?c < length (g_cores_list s1)"
        "g_cores_list s1 ! ?c = int ?c" "sched_inv {?c} {p} (s1\<lparr>g_idle_cores := q\<rparr>)"
      unfolding s1(3) c1 by auto
    have "jobs (s1\<lparr>g_idle_cores := q\<rparr>) p = Some ?j" using s1(2) by simp
    from schedule_job_step[OF q(4) _ _ this, of ?c time] obtain s2 where
      s2: "schedule_job p (int ?c) time (s1\<lparr>g_idle_cores := q\<rparr>) = Some s2"
        "sched_inv ({?c} - {?c}) ({p} - {p}) s2"
        "sched_abs s2 = (sched_abs s1)\<lparr>sp_running := (sp_running (sched_abs s1))(?c \<mapsto> started time ?j)\<rparr>"
        "same_conf (s1\<lparr>g_idle_cores := q\<rparr>) s2" by auto
    have "\<not> priqueue_is_empty (g_idle_cores s1)"
      using q(1) by (auto simp: priqueue_poll_def priqueue_is_empty_def priqueue_size_def split: if_splits)
    then have "scheduler_new_job i time run pri s = Some (int ?c, s2)"
      using n q(1-3) s2(1) by (simp add: scheduler_new_job_def Let_def)
    then show ?thesis
      using s2 s1(3,4) False by (auto simp: spec_arrive_def Let_def same_conf_def)
  next
    case True
    have "idle_cores (g_total_cores s1) (sched_abs s1) = {}" unfolding s1(3) c1 by (rule True)
    then have "{c. c < g_total_cores s1 \<and> run_ref s1 c = None} = {}"
      unfolding idle_cores_abs[OF s1(1)] .
    then have "set (idle_list s1) = {}" unfolding sched_invD(9)[OF s1(1)] by (simp only: Diff_empty)
    then have "priqueue_is_empty (g_idle_cores s1)" by (simp add: priqueue_is_empty_list)
    then have run: "scheduler_new_job i time run pri s =
        (if g_scheme s = PSJF \<or> g_scheme s = PPRI then preempt_or_enqueue p time s1
         else enqueue_job p time s1)"
      using n c1 by (simp add: scheduler_new_job_def)
    have inv1: "sched_inv {} {p} s1" using s1(1) by simp
    show ?thesis
    proof (cases "g_scheme s = PSJF \<or> g_scheme s = PPRI")
      case pre: True
      then have "g_scheme s1 = PSJF \<or> g_scheme s1 = PPRI" using c1 by simp
      from preempt_ok[OF inv1 s1(2) this, of time] True pre show ?thesis
        unfolding run using s1(3,4) c1 by (auto simp: spec_arrive_def same_conf_def)
    next
      case False
      from enqueue_ok[OF inv1 s1(2), of time] True False show ?thesis
        unfolding run using s1(3,4) c1 by (auto simp: spec_arrive_def same_conf_def)
    qed
  qed
qed

end
