(* ===== verification/Scheduler_Runs.thy ===== *)
theory Scheduler_Runs
  imports Scheduler_Correct
begin

text \<open>
  Runs of the scheduler: sequences of calls as the simulator makes them. The library is
  refined to its specification along every run, and the properties of a schedule (work
  conservation, order of the waiting jobs, the best jobs running, first in first out, the
  accounting) are invariants of the specification.
\<close>

section \<open>Runs\<close>

datatype event =
    Arrive int int int int \<comment> \<open>id, time, running time, priority\<close>
  | Finish nat int int \<comment> \<open>core, id, time\<close>
  | Expire nat int \<comment> \<open>core, time\<close>

definition sched_step :: "event \<Rightarrow> sched \<Rightarrow> (int \<times> sched) option" where
  "sched_step e s = (case e of
     Arrive i time run pri \<Rightarrow> scheduler_new_job i time run pri s
   | Finish c i time \<Rightarrow> scheduler_job_finished (int c) i time s
   | Expire c time \<Rightarrow> scheduler_quantum_expired (int c) time s)"

definition spec_step :: "scheme_t \<Rightarrow> nat \<Rightarrow> event \<Rightarrow> spec \<Rightarrow> int \<times> spec" where
  "spec_step scheme n e sp = (case e of
     Arrive i time run pri \<Rightarrow> spec_arrive scheme n (fresh_job i pri time run) time sp
   | Finish c i time \<Rightarrow> spec_finish c time sp
   | Expire c time \<Rightarrow> spec_expire scheme c time sp)"

text \<open>A job finishes on a core that runs one; quanta expire under round robin only.\<close>

definition enabled :: "scheme_t \<Rightarrow> event \<Rightarrow> spec \<Rightarrow> bool" where
  "enabled scheme e sp = (case e of
     Arrive _ _ _ _ \<Rightarrow> True
   | Finish c _ _ \<Rightarrow> sp_running sp c \<noteq> None
   | Expire c _ \<Rightarrow> scheme = RR \<and> sp_running sp c \<noteq> None)"

fun sched_run :: "event list \<Rightarrow> sched \<Rightarrow> (int list \<times> sched) option" where
  "sched_run [] s = Some ([], s)"
| "sched_run (e # es) s = Option.bind (sched_step e s) (\<lambda>(r, s).
     map_option (\<lambda>(rs, s). (r # rs, s)) (sched_run es s))"

fun spec_run :: "scheme_t \<Rightarrow> nat \<Rightarrow> event list \<Rightarrow> spec \<Rightarrow> int list \<times> spec" where
  "spec_run scheme n [] sp = ([], sp)"
| "spec_run scheme n (e # es) sp =
     (let (r, sp) = spec_step scheme n e sp; (rs, sp) = spec_run scheme n es sp in (r # rs, sp))"

fun legal :: "scheme_t \<Rightarrow> nat \<Rightarrow> event list \<Rightarrow> spec \<Rightarrow> bool" where
  "legal scheme n [] sp = True"
| "legal scheme n (e # es) sp =
     (enabled scheme e sp \<and> legal scheme n es (snd (spec_step scheme n e sp)))"

definition event_time :: "event \<Rightarrow> int" where
  "event_time e = (case e of Arrive _ time _ _ \<Rightarrow> time | Finish _ _ time \<Rightarrow> time | Expire _ time \<Rightarrow> time)"

definition spec_init :: spec where
  "spec_init = \<lparr>sp_running = Map.empty, sp_waiting = [], sp_jobs = 0, sp_waiting_time = 0,
     sp_turnaround_time = 0, sp_response_time = 0\<rparr>"

section \<open>Start-up\<close>

lemma fill_idle_cores_ok:
  "\<exists>q. fill_idle_cores n = Some (map int [0..<n], q) \<and> pq_ok q \<and> comparer q = core_compare
    \<and> queue_list q = [0..<n]"
proof (induction n)
  case 0
  then show ?case using priqueue_init_list[of core_compare] by simp
next
  case (Suc n)
  then obtain q where q: "fill_idle_cores n = Some (map int [0..<n], q)" "pq_ok q"
    "comparer q = core_compare" "queue_list q = [0..<n]" by blast
  let ?P = "\<lambda>y. 0 \<le> core_compare (map int [0..<Suc n]) n y"
  have all: "\<forall>y\<in>set [0..<n]. ?P y" by (auto simp: core_compare_def nth_append)
  then have tw: "takeWhile ?P [0..<n] = [0..<n]" "dropWhile ?P [0..<n] = []" by simp_all
  from pq.offer_law[of q core_compare "map int [0..<Suc n]" n] q(2,3) obtain q' where
    "priqueue_offer (map int [0..<Suc n]) n q = Some (length (takeWhile ?P [0..<n]), q')" "pq_ok q'"
    "comparer q' = core_compare" "queue_list q' = takeWhile ?P [0..<n] @ n # dropWhile ?P [0..<n]"
    unfolding q(4) by blast
  then show ?case unfolding tw using q(1) by simp
qed

lemma start_up_ok:
  assumes "0 < n"
  shows "\<exists>s. scheduler_start_up n scheme = Some s \<and> sched_inv {} {} s \<and> sched_abs s = spec_init
    \<and> g_scheme s = scheme \<and> g_total_cores s = n"
proof -
  obtain q where q: "fill_idle_cores n = Some (map int [0..<n], q)" "pq_ok q"
    "comparer q = core_compare" "queue_list q = [0..<n]" using fill_idle_cores_ok by blast
  let ?s = "\<lparr>g_scheme = scheme, g_job_queue = priqueue_init (scheme_comparer scheme),
      g_idle_cores = q, g_total_cores = n, g_running_jobs = replicate n Uninit,
      g_cores_list = map int [0..<n], total_jobs = 0, total_waiting_time = 0,
      total_turnaround_time = 0, total_response_time = 0, jobs = Map.empty, next_ref = 0\<rparr>"
  have rr: "run_ref ?s = Map.empty" by (simp add: run_ref_def fun_eq_iff)
  have "sched_inv {} {} ?s"
    unfolding sched_inv_def rr using assms q by (auto simp: priqueue_init_list)
  moreover have "sched_abs ?s = spec_init"
    unfolding sched_abs_def rr spec_init_def by (simp add: priqueue_init_list)
  moreover have "scheduler_start_up n scheme = Some ?s"
    using q(1) by (simp add: scheduler_start_up_def)
  ultimately show ?thesis by auto
qed

section \<open>Refinement along runs\<close>

lemma step_ok:
  assumes inv: "sched_inv {} {} s" and en: "enabled (g_scheme s) e (sched_abs s)"
  shows "\<exists>s'. sched_step e s = Some (fst (spec_step (g_scheme s) (g_total_cores s) e (sched_abs s)), s')
    \<and> sched_inv {} {} s' \<and> sched_abs s' = snd (spec_step (g_scheme s) (g_total_cores s) e (sched_abs s))
    \<and> same_conf s s'"
proof (cases e)
  case (Arrive i time run pri)
  then show ?thesis using new_job_ok[OF inv, of i time run pri]
    by (simp add: sched_step_def spec_step_def)
next
  case (Finish c i time)
  then show ?thesis using finished_ok[OF inv, of c _ i time] en
    by (auto simp: sched_step_def spec_step_def enabled_def)
next
  case (Expire c time)
  then show ?thesis using expired_ok[OF inv, of c _ time] en
    by (auto simp: sched_step_def spec_step_def enabled_def)
qed

lemma run_ok:
  assumes "sched_inv {} {} s" "legal (g_scheme s) (g_total_cores s) es (sched_abs s)"
  shows "\<exists>s'. sched_run es s = Some (fst (spec_run (g_scheme s) (g_total_cores s) es (sched_abs s)), s')
    \<and> sched_inv {} {} s' \<and> sched_abs s' = snd (spec_run (g_scheme s) (g_total_cores s) es (sched_abs s))
    \<and> same_conf s s'"
  using assms
proof (induction es arbitrary: s)
  case Nil
  then show ?case by simp
next
  case (Cons e es)
  let ?N = "g_total_cores s" and ?S = "g_scheme s"
  have "enabled ?S e (sched_abs s)" using Cons.prems(2) by simp
  from step_ok[OF Cons.prems(1) this] obtain s1 where
    s1: "sched_step e s = Some (fst (spec_step ?S ?N e (sched_abs s)), s1)" "sched_inv {} {} s1"
      "sched_abs s1 = snd (spec_step ?S ?N e (sched_abs s))" "same_conf s s1" by blast
  have c: "g_scheme s1 = ?S" "g_total_cores s1 = ?N" using s1(4) by (simp_all add: same_conf_def)
  have "legal (g_scheme s1) (g_total_cores s1) es (sched_abs s1)"
    using Cons.prems(2) unfolding c s1(3) by simp
  from Cons.IH[OF s1(2) this] show ?case
    using s1(1,3) same_conf_trans[OF s1(4)] unfolding c
    by (auto simp: case_prod_unfold Let_def)
qed

section \<open>Invariants of a schedule\<close>

lemma set_insert_job: "set (insert_job scheme j w) = insert j (set w)"
  unfolding insert_job_def by (metis mset_insert_at set_mset_add_mset_insert set_mset_mset)

lemma sorted_insert_job:
  assumes "sorted (map (job_key scheme) w)"
  shows "sorted (map (job_key scheme) (insert_job scheme j w))"
  using assms
proof (induction w)
  case Nil
  then show ?case by (simp add: insert_job_def)
next
  case (Cons x w)
  then have IH: "sorted (map (job_key scheme) (insert_job scheme j w))" by simp
  show ?case
  proof (cases "job_key scheme x \<le> job_key scheme j")
    case True
    then have "insert_job scheme j (x # w) = x # insert_job scheme j w" by (simp add: insert_job_def)
    then show ?thesis using IH True Cons.prems by (simp add: set_insert_job)
  next
    case False
    then have "job_key scheme j \<le> job_key scheme x" by simp
    then show ?thesis using False Cons.prems by (fastforce simp: insert_job_def)
  qed
qed

text \<open>No core idles while jobs wait, and the waiting jobs are in the order of the scheme.\<close>

definition conserving :: "nat \<Rightarrow> spec \<Rightarrow> bool" where
  "conserving n sp \<longleftrightarrow> (sp_waiting sp \<noteq> [] \<longrightarrow> idle_cores n sp = {})"

definition ordered :: "scheme_t \<Rightarrow> spec \<Rightarrow> bool" where
  "ordered scheme sp \<longleftrightarrow> sorted (map (job_key scheme) (sp_waiting sp))"

lemma idle_cores_upd:
  "idle_cores n (sp\<lparr>sp_running := (sp_running sp)(c \<mapsto> j), sp_waiting := w\<rparr>) = idle_cores n sp - {c}"
  "idle_cores n (sp\<lparr>sp_running := (sp_running sp)(c \<mapsto> j)\<rparr>) = idle_cores n sp - {c}"
  "idle_cores n (sp\<lparr>sp_waiting := w\<rparr>) = idle_cores n sp"
  "idle_cores n (refresh_all time sp) = idle_cores n sp"
  by (auto simp: idle_cores_eq refresh_all_def)

lemma spec_next_conserving:
  assumes "sp_waiting sp \<noteq> [] \<Longrightarrow> idle_cores n sp = {}"
  shows "conserving n (snd (spec_next c time sp))"
  using assms by (cases "sp_waiting sp") (simp_all add: spec_next_def conserving_def idle_cores_upd)

lemma spec_next_ordered: "ordered scheme sp \<Longrightarrow> ordered scheme (snd (spec_next c time sp))"
  by (cases "sp_waiting sp") (simp_all add: spec_next_def ordered_def)

lemma conserving_cong:
  "sp_waiting sp = sp_waiting sp' \<Longrightarrow> sp_running sp = sp_running sp' \<Longrightarrow> conserving n sp = conserving n sp'"
  by (simp add: conserving_def idle_cores_eq)

lemma enqueue_conserving:
  assumes "idle_cores n sp = {}"
  shows "conserving n (snd (spec_enqueue scheme j time sp))"
  using assms by (simp add: spec_enqueue_def conserving_def idle_cores_upd)

lemma enqueue_ordered: "ordered scheme sp \<Longrightarrow> ordered scheme (snd (spec_enqueue scheme j time sp))"
  by (simp add: spec_enqueue_def ordered_def sorted_insert_job)

lemma refresh_all_simps [simp]:
  "sp_waiting (refresh_all time sp) = sp_waiting sp"
  "sp_running (refresh_all time sp) c = map_option (refreshed time) (sp_running sp c)"
  by (simp_all add: refresh_all_def)

lemma spec_preempt_cases:
  obtains w v where "sp_running (refresh_all time sp) w = v"
    "w = worst_core scheme (sp_running (refresh_all time sp)) (n - 1)"
    "job_key scheme j < job_key scheme (the v)"
    "spec_preempt scheme n j time sp = (int w, (refresh_all time sp)
       \<lparr>sp_running := (sp_running (refresh_all time sp))(w \<mapsto> started time j),
        sp_waiting := insert_job scheme (preempted time (the v)) (sp_waiting sp)\<rparr>)"
  | "\<not> job_key scheme j < job_key scheme (the (sp_running (refresh_all time sp)
       (worst_core scheme (sp_running (refresh_all time sp)) (n - 1))))"
    "spec_preempt scheme n j time sp = spec_enqueue scheme j time (refresh_all time sp)"
  by (cases "job_key scheme j < job_key scheme (the (sp_running (refresh_all time sp)
       (worst_core scheme (sp_running (refresh_all time sp)) (n - 1))))")
    (auto simp: spec_preempt_def Let_def)

text \<open>Finishing is accounting followed by the choice of the next job.\<close>

definition accounted :: "nat \<Rightarrow> int \<Rightarrow> spec \<Rightarrow> spec" where
  "accounted core time sp =
     (let j = the (sp_running sp core); t = time - arrival_time j in
      sp\<lparr>sp_jobs := sp_jobs sp + 1,
        sp_turnaround_time := sp_turnaround_time sp + t,
        sp_waiting_time := sp_waiting_time sp + (t - running_time j),
        sp_response_time := sp_response_time sp + (start_time j - arrival_time j)\<rparr>)"

lemma spec_finish_accounted: "spec_finish c time sp = spec_next c time (accounted c time sp)"
  by (simp add: spec_finish_def accounted_def Let_def)

lemma accounted_simps [simp]:
  "sp_running (accounted c time sp) = sp_running sp" "sp_waiting (accounted c time sp) = sp_waiting sp"
  "idle_cores n (accounted c time sp) = idle_cores n sp"
  by (simp_all add: accounted_def Let_def idle_cores_eq)

lemma step_conserving:
  assumes "conserving n sp" "enabled scheme e sp" "0 < n"
  shows "conserving n (snd (spec_step scheme n e sp))"
proof (cases e)
  case (Arrive i time run pri)
  let ?j = "fresh_job i pri time run"
  show ?thesis
  proof (cases "idle_cores n sp = {}")
    case True
    have "conserving n (snd (spec_preempt scheme n ?j time sp))"
      by (rule spec_preempt_cases[of time sp scheme n ?j])
        (simp_all add: conserving_def idle_cores_upd True enqueue_conserving[unfolded conserving_def])
    then show ?thesis
      using True enqueue_conserving[OF True]
      by (simp add: spec_step_def Arrive spec_arrive_def)
  next
    case False
    then have "sp_waiting sp = []" using assms(1) by (auto simp: conserving_def)
    then show ?thesis using False
      by (simp add: spec_step_def Arrive spec_arrive_def Let_def conserving_def)
  qed
next
  case (Finish c i time)
  then show ?thesis
    using assms(1) spec_next_conserving[of "accounted c time sp" n c time]
    by (simp add: spec_step_def spec_finish_accounted conserving_def)
next
  case (Expire c time)
  then have r: "sp_running sp c \<noteq> None" using assms(2) by (simp add: enabled_def)
  let ?w = "insert_job scheme (queued time (the (sp_running sp c))) (sp_waiting sp)"
  have "?w \<noteq> []" by (simp add: insert_job_def)
  then obtain k ks where w: "?w = k # ks" by (cases ?w) auto
  show ?thesis
  proof (cases "ks = []")
    case True
    then show ?thesis using w by (simp add: spec_step_def Expire spec_expire_def spec_next_def conserving_def)
  next
    case False
    then have "sp_waiting sp \<noteq> []" using w by (auto simp: insert_job_def)
    then have "idle_cores n sp = {}" using assms(1) by (simp add: conserving_def)
    then show ?thesis using w
      by (simp add: spec_step_def Expire spec_expire_def spec_next_def conserving_def idle_cores_upd)
  qed
qed

lemma step_ordered:
  assumes "ordered scheme sp"
  shows "ordered scheme (snd (spec_step scheme n e sp))"
proof (cases e)
  case (Arrive i time run pri)
  let ?j = "fresh_job i pri time run"
  have r: "ordered scheme (refresh_all time sp)" using assms by (simp add: ordered_def)
  have "ordered scheme (snd (spec_preempt scheme n ?j time sp))"
    by (rule spec_preempt_cases[of time sp scheme n ?j])
      (use assms r in \<open>simp_all add: ordered_def sorted_insert_job enqueue_ordered[unfolded ordered_def]\<close>)
  then show ?thesis
    using assms enqueue_ordered[OF assms]
    by (auto simp: spec_step_def Arrive spec_arrive_def Let_def ordered_def)
next
  case (Finish c i time)
  then show ?thesis using assms spec_next_ordered[of scheme "accounted c time sp" c time]
    by (simp add: spec_step_def spec_finish_accounted ordered_def)
next
  case (Expire c time)
  then show ?thesis using assms
    by (auto simp: spec_step_def spec_expire_def ordered_def
        intro!: spec_next_ordered[unfolded ordered_def] sorted_insert_job)
qed

text \<open>An invariant that every enabled step keeps holds after every legal run.\<close>

lemma spec_run_inv:
  assumes "P T sp" "legal scheme n es sp" "sorted (T # map event_time es)"
    and "\<And>T sp e. P T sp \<Longrightarrow> enabled scheme e sp \<Longrightarrow> T \<le> event_time e \<Longrightarrow>
      P (event_time e) (snd (spec_step scheme n e sp))"
  shows "\<exists>T'. P T' (snd (spec_run scheme n es sp))"
  using assms(1-3)
proof (induction es arbitrary: T sp)
  case Nil
  then show ?case by auto
next
  case (Cons e es)
  have "P (event_time e) (snd (spec_step scheme n e sp))"
    by (rule assms(4)) (use Cons.prems in auto)
  then have "\<exists>T'. P T' (snd (spec_run scheme n es (snd (spec_step scheme n e sp))))"
    by (rule Cons.IH) (use Cons.prems in auto)
  then show ?case by (simp add: case_prod_unfold Let_def)
qed

text \<open>
  Under the preemptive schemes every running job is at least as good as every waiting job. The
  remaining time of a running job is brought up to date only when a job arrives, and the
  value in between is an upper bound, so the statement holds for the actual times too.
\<close>

definition preemptive :: "scheme_t \<Rightarrow> bool" where
  "preemptive scheme \<longleftrightarrow> scheme = PSJF \<or> scheme = PPRI"

definition best_running :: "scheme_t \<Rightarrow> spec \<Rightarrow> bool" where
  "best_running scheme sp \<longleftrightarrow> (\<forall>c j. sp_running sp c = Some j \<longrightarrow>
     (\<forall>w\<in>set (sp_waiting sp). job_key scheme j \<le> job_key scheme w))"

text \<open>Times stored in jobs never lie in the future.\<close>

definition job_times :: "int \<Rightarrow> job_t \<Rightarrow> bool" where
  "job_times T j \<longleftrightarrow> 0 \<le> arrival_time j \<and> arrival_time j \<le> T \<and> latest_queue_time j \<le> T
     \<and> latest_update_time j \<le> T
     \<and> (start_time j = - 1 \<or> arrival_time j \<le> start_time j \<and> start_time j \<le> T)"

definition clocked :: "int \<Rightarrow> spec \<Rightarrow> bool" where
  "clocked T sp \<longleftrightarrow> (\<forall>c j. sp_running sp c = Some j \<longrightarrow> job_times T j \<and> start_time j \<noteq> - 1)
     \<and> (\<forall>j\<in>set (sp_waiting sp). job_times T j)"

lemma job_times_mono: "job_times T j \<Longrightarrow> T \<le> T' \<Longrightarrow> job_times T' j"
  by (auto simp: job_times_def)

lemma clocked_mono: "clocked T sp \<Longrightarrow> T \<le> T' \<Longrightarrow> clocked T' sp"
  unfolding clocked_def using job_times_mono by blast

lemma job_times_steps:
  assumes "job_times T j"
  shows "job_times T (started T j)" "start_time (started T j) \<noteq> - 1" "job_times T (refreshed T j)"
    "job_times T (queued T j)" "job_times T (preempted T j)" "start_time (refreshed T j) = start_time j"
  using assms by (auto simp: job_times_def started_def refreshed_def queued_def preempted_def)

lemma job_times_fresh: "0 \<le> T \<Longrightarrow> job_times T (fresh_job i pri T run)"
  by (simp add: job_times_def fresh_job_def)

lemma spec_next_clocked: "clocked T sp \<Longrightarrow> clocked T (snd (spec_next c T sp))"
  by (cases "sp_waiting sp") (auto simp: spec_next_def clocked_def job_times_steps)

lemma clocked_cong:
  "sp_running sp = sp_running sp' \<Longrightarrow> sp_waiting sp = sp_waiting sp' \<Longrightarrow> clocked T sp = clocked T sp'"
  by (simp add: clocked_def)

lemma enqueue_clocked:
  "clocked T sp \<Longrightarrow> job_times T j \<Longrightarrow> clocked T (snd (spec_enqueue scheme j T sp))"
  by (auto simp: spec_enqueue_def clocked_def set_insert_job job_times_steps)

lemma refresh_clocked: "clocked T sp \<Longrightarrow> clocked T (refresh_all T sp)"
  by (auto simp: clocked_def job_times_steps)

lemma worst_running:
  assumes "idle_cores n sp = {}" "0 < n"
  obtains v where "sp_running (refresh_all time sp)
    (worst_core scheme (sp_running (refresh_all time sp)) (n - 1)) = Some v"
proof -
  have "worst_core scheme (sp_running (refresh_all time sp)) (n - 1) < n"
    using worst_core_le[of scheme _ "n - 1"] assms(2) by (meson diff_less le_less_trans zero_less_one)
  then show thesis using assms(1) that by (auto simp: idle_cores_eq)
qed

lemma preempt_clocked:
  assumes c: "clocked T sp" and j: "job_times T j" and busy: "idle_cores n sp = {}" "0 < n"
  shows "clocked T (snd (spec_preempt scheme n j T sp))"
proof (rule spec_preempt_cases[of T sp scheme n j])
  fix w v
  assume v: "sp_running (refresh_all T sp) w = v"
    "w = worst_core scheme (sp_running (refresh_all T sp)) (n - 1)"
    and eq: "spec_preempt scheme n j T sp = (int w, (refresh_all T sp)
       \<lparr>sp_running := (sp_running (refresh_all T sp))(w \<mapsto> started T j),
        sp_waiting := insert_job scheme (preempted T (the v)) (sp_waiting sp)\<rparr>)"
  note cr = refresh_clocked[OF c]
  obtain v' where v': "v = Some v'" using worst_running[OF busy, of T scheme] v by metis
  then have "job_times T v'" using cr v(1) by (auto simp: clocked_def)
  then show ?thesis
    unfolding eq using cr j v'
    by (auto simp: clocked_def set_insert_job job_times_steps split: if_splits)
next
  assume "spec_preempt scheme n j T sp = spec_enqueue scheme j T (refresh_all T sp)"
  then show ?thesis using enqueue_clocked[OF refresh_clocked[OF c] j] by simp
qed

lemma step_clocked:
  assumes c: "clocked T sp" and t: "T \<le> event_time e" "0 \<le> T" and en: "enabled scheme e sp" and n: "0 < n"
  shows "clocked (event_time e) (snd (spec_step scheme n e sp))"
proof (cases e)
  case (Arrive i time run pri)
  let ?j = "fresh_job i pri time run"
  have c': "clocked time sp" using clocked_mono[OF c] t(1) Arrive by (simp add: event_time_def)
  have "0 \<le> time" using t Arrive by (simp add: event_time_def)
  then have j: "job_times time ?j" by (rule job_times_fresh)
  show ?thesis
    using preempt_clocked[OF c' j _ n] enqueue_clocked[OF c' j] c' job_times_steps(1,2)[OF j]
    by (auto simp: spec_step_def Arrive event_time_def spec_arrive_def Let_def clocked_def)
next
  case (Finish core i time)
  then have "clocked time sp" using clocked_mono[OF c] t(1) by (simp add: event_time_def)
  then have "clocked time (accounted core time sp)" by (simp add: clocked_def)
  from spec_next_clocked[OF this, of core] show ?thesis
    by (simp add: spec_step_def Finish event_time_def spec_finish_accounted)
next
  case (Expire core time)
  then have c': "clocked time sp" using clocked_mono[OF c] t(1) by (simp add: event_time_def)
  obtain j where j: "sp_running sp core = Some j" using en Expire by (auto simp: enabled_def)
  then have "job_times time (queued time j)" using c' job_times_steps(4) by (auto simp: clocked_def)
  then have "clocked time (sp\<lparr>sp_waiting := insert_job scheme (queued time j) (sp_waiting sp)\<rparr>)"
    using c' by (auto simp: clocked_def set_insert_job)
  then show ?thesis
    using spec_next_clocked j by (simp add: spec_step_def Expire event_time_def spec_expire_def)
qed

lemma preemptive_keys:
  assumes "preemptive scheme"
  shows "job_key scheme (started time j) = job_key scheme j"
    and "job_key scheme (queued time j) = job_key scheme j"
    and "latest_update_time j \<le> time \<Longrightarrow> job_key scheme (refreshed time j) \<le> job_key scheme j"
    and "job_key scheme (preempted time (refreshed time j)) = job_key scheme (refreshed time j)"
  using assms by (auto simp: preemptive_def job_key_def started_def queued_def refreshed_def preempted_def)

lemma worst_core_max:
  "c \<le> n \<Longrightarrow> job_key scheme (the (run c)) \<le> job_key scheme (the (run (worst_core scheme run n)))"
proof (induction n)
  case (Suc n)
  let ?w = "worst_core scheme run n"
  show ?case
  proof (cases "c = Suc n")
    case False
    then have "job_key scheme (the (run c)) \<le> job_key scheme (the (run ?w))" using Suc by simp
    then show ?thesis by (auto simp: Let_def)
  qed (auto simp: Let_def)
qed simp

lemma spec_next_best:
  assumes "preemptive scheme" "ordered scheme sp" "best_running scheme sp"
  shows "best_running scheme (snd (spec_next c time sp))"
proof (cases "sp_waiting sp")
  case Nil
  then show ?thesis by (simp add: spec_next_def best_running_def)
next
  case (Cons j w)
  then have "\<forall>x\<in>set w. job_key scheme j \<le> job_key scheme x" using assms(2) by (simp add: ordered_def)
  then show ?thesis
    using assms(3) Cons preemptive_keys(1)[OF assms(1), of time j]
    by (auto simp: spec_next_def best_running_def)
qed

lemma refresh_best:
  assumes "preemptive scheme" "best_running scheme sp" "clocked T sp" "T \<le> time"
  shows "best_running scheme (refresh_all time sp)"
  unfolding best_running_def
proof (intro allI impI ballI)
  fix c j w assume j: "sp_running (refresh_all time sp) c = Some j" and w: "w \<in> set (sp_waiting (refresh_all time sp))"
  then obtain j0 where j0: "sp_running sp c = Some j0" "j = refreshed time j0" by auto
  have "latest_update_time j0 \<le> time" using assms(3,4) j0(1) by (fastforce simp: clocked_def job_times_def)
  then have "job_key scheme j \<le> job_key scheme j0" using preemptive_keys(3)[OF assms(1)] j0(2) by simp
  also have "\<dots> \<le> job_key scheme w" using assms(2) j0(1) w by (simp add: best_running_def)
  finally show "job_key scheme j \<le> job_key scheme w" .
qed

lemma preempt_best:
  assumes p: "preemptive scheme" and best: "best_running scheme sp" and c: "clocked T sp" "T \<le> time"
    and busy: "idle_cores n sp = {}" "0 < n" "\<forall>c. sp_running sp c \<noteq> None \<longrightarrow> c < n"
  shows "best_running scheme (snd (spec_preempt scheme n j time sp))"
proof -
  let ?run = "sp_running (refresh_all time sp)"
  let ?w = "worst_core scheme ?run (n - 1)"
  note br = refresh_best[OF p best c]
  obtain v where v: "?run ?w = Some v" using worst_running[OF busy(1,2), of time scheme] by blast
  have max: "job_key scheme j' \<le> job_key scheme v" if "?run c = Some j'" for c j'
  proof -
    have "c \<le> n - 1" using that busy(3) by (cases "sp_running sp c") (auto simp: Suc_leI[THEN diff_le_mono] nat_less_le)
    from worst_core_max[OF this, of scheme ?run] show ?thesis unfolding v that option.sel .
  qed
  obtain v0 where "v = refreshed time v0" using v by auto
  then have kv: "job_key scheme (preempted time v) = job_key scheme v"
    using preemptive_keys(4)[OF p] by simp
  have vw: "job_key scheme v \<le> job_key scheme x" if "x \<in> set (sp_waiting sp)" for x
    using br v that by (auto simp: best_running_def)
  show ?thesis
  proof (rule spec_preempt_cases[of time sp scheme n j])
    fix w v'
    assume *: "?run w = v'" "w = ?w" "job_key scheme j < job_key scheme (the v')"
      and eq: "spec_preempt scheme n j time sp = (int w, (refresh_all time sp)
       \<lparr>sp_running := ?run(w \<mapsto> started time j),
        sp_waiting := insert_job scheme (preempted time (the v')) (sp_waiting sp)\<rparr>)"
    have v': "v' = Some v" using * v by simp
    have low: "job_key scheme x \<le> job_key scheme v" if "(?run(w \<mapsto> started time j)) c = Some x" for c x
      using that max[of c x] *(3) v' preemptive_keys(1)[OF p, of time j] by (auto split: if_splits)
    have high: "job_key scheme v \<le> job_key scheme x"
      if "x \<in> set (insert_job scheme (preempted time v) (sp_waiting sp))" for x
      using that vw kv by (auto simp: set_insert_job)
    show ?thesis
      unfolding eq best_running_def snd_conv v' option.sel
    proof (intro allI impI ballI)
      fix c x y
      assume x: "sp_running ((refresh_all time sp)\<lparr>sp_running := ?run(w \<mapsto> started time j),
          sp_waiting := insert_job scheme (preempted time v) (sp_waiting sp)\<rparr>) c = Some x"
        and y: "y \<in> set (sp_waiting ((refresh_all time sp)\<lparr>sp_running := ?run(w \<mapsto> started time j),
          sp_waiting := insert_job scheme (preempted time v) (sp_waiting sp)\<rparr>))"
      have "(?run(w \<mapsto> started time j)) c = Some x" using x by simp
      then have "job_key scheme x \<le> job_key scheme v" by (rule low)
      also have "\<dots> \<le> job_key scheme y" by (rule high) (use y in simp)
      finally show "job_key scheme x \<le> job_key scheme y" .
    qed
  next
    assume *: "\<not> job_key scheme j < job_key scheme (the (?run ?w))"
      "spec_preempt scheme n j time sp = spec_enqueue scheme j time (refresh_all time sp)"
    then have "job_key scheme v \<le> job_key scheme (queued time j)"
      unfolding v option.sel preemptive_keys(2)[OF p] by simp
    then show ?thesis
      using br max order_trans unfolding *(2)
      by (fastforce simp: spec_enqueue_def best_running_def set_insert_job)
  qed
qed

text \<open>All invariants together.\<close>

definition schedule_inv :: "scheme_t \<Rightarrow> nat \<Rightarrow> int \<Rightarrow> spec \<Rightarrow> bool" where
  "schedule_inv scheme n T sp \<longleftrightarrow> 0 \<le> T \<and> conserving n sp \<and> ordered scheme sp \<and> clocked T sp
     \<and> (preemptive scheme \<longrightarrow> best_running scheme sp)
     \<and> (\<forall>c. sp_running sp c \<noteq> None \<longrightarrow> c < n)"

lemma idle_Min: "idle_cores n sp \<noteq> {} \<Longrightarrow> Min (idle_cores n sp) < n"
proof -
  assume "idle_cores n sp \<noteq> {}"
  moreover have "finite (idle_cores n sp)" by (simp add: idle_cores_eq)
  ultimately show ?thesis using Min_in[of "idle_cores n sp"] by (simp add: idle_cores_eq)
qed

lemma step_running_bound:
  assumes "\<forall>c. sp_running sp c \<noteq> None \<longrightarrow> c < n" "enabled scheme e sp" "0 < n"
  shows "\<forall>c. sp_running (snd (spec_step scheme n e sp)) c \<noteq> None \<longrightarrow> c < n"
proof -
  have nx: "\<forall>c. sp_running (snd (spec_next d time sp')) c \<noteq> None \<longrightarrow> c < n"
    if "sp_running sp' = sp_running sp" "d < n" for d time sp'
    using that assms(1) by (cases "sp_waiting sp'") (auto simp: spec_next_def)
  show ?thesis
  proof (cases e)
    case (Arrive i time run pri)
    have w: "worst_core scheme r (n - 1) < n" for r
      using worst_core_le[of scheme r "n - 1"] assms(3) by linarith
    show ?thesis
      using assms(1) idle_Min[of n sp] w
      by (auto simp: spec_step_def Arrive spec_arrive_def Let_def spec_preempt_def spec_enqueue_def split: if_splits)
  next
    case (Finish c i time)
    then have "c < n" using assms(1,2) by (simp add: enabled_def)
    then show ?thesis using nx[of "accounted c time sp" c time]
      by (simp add: spec_step_def Finish spec_finish_accounted)
  next
    case (Expire c time)
    then have "c < n" using assms(1,2) by (simp add: enabled_def)
    then show ?thesis
      using nx[of "sp\<lparr>sp_waiting := insert_job scheme (queued time (the (sp_running sp c))) (sp_waiting sp)\<rparr>" c time]
      by (simp add: spec_step_def Expire spec_expire_def)
  qed
qed

lemma step_schedule_inv:
  assumes inv: "schedule_inv scheme n T sp" and en: "enabled scheme e sp" and t: "T \<le> event_time e" and n: "0 < n"
  shows "schedule_inv scheme n (event_time e) (snd (spec_step scheme n e sp))"
proof -
  have I: "0 \<le> T" "conserving n sp" "ordered scheme sp" "clocked T sp"
    "preemptive scheme \<Longrightarrow> best_running scheme sp" "\<forall>c. sp_running sp c \<noteq> None \<longrightarrow> c < n"
    using inv by (simp_all add: schedule_inv_def)
  have "best_running scheme (snd (spec_step scheme n e sp))" if p: "preemptive scheme"
  proof (cases e)
    case (Arrive i time run pri)
    let ?j = "fresh_job i pri time run"
    show ?thesis
    proof (cases "idle_cores n sp = {}")
      case True
      have "T \<le> time" using t Arrive by (simp add: event_time_def)
      from preempt_best[OF p I(5)[OF p] I(4) this True n I(6)]
      show ?thesis using True p by (simp add: spec_step_def Arrive spec_arrive_def preemptive_def)
    next
      case False
      then have "sp_waiting sp = []" using I(2) by (auto simp: conserving_def)
      then show ?thesis using False
        by (simp add: spec_step_def Arrive spec_arrive_def Let_def best_running_def)
    qed
  next
    case (Finish c i time)
    then show ?thesis
      using spec_next_best[OF p, of "accounted c time sp" c time] I(3) I(5)[OF p]
      by (simp add: spec_step_def spec_finish_accounted ordered_def best_running_def)
  next
    case (Expire c time)
    then show ?thesis using en p by (simp add: enabled_def preemptive_def)
  qed
  then show ?thesis
    using I t step_conserving[OF I(2) en n] step_ordered[OF I(3)] step_clocked[OF I(4) t I(1) en n]
      step_running_bound[OF I(6) en n]
    by (simp add: schedule_inv_def)
qed

lemma spec_init_inv: "schedule_inv scheme n 0 spec_init"
  by (simp add: schedule_inv_def spec_init_def conserving_def ordered_def clocked_def best_running_def)

lemma run_schedule_inv:
  assumes "0 < n" "legal scheme n es spec_init" "sorted (0 # map event_time es)"
  shows "\<exists>T. schedule_inv scheme n T (snd (spec_run scheme n es spec_init))"
  using spec_run_inv[of "schedule_inv scheme n", OF spec_init_inv assms(2,3)]
    step_schedule_inv assms(1) by blast

text \<open>The time of the invariant is that of the last event.\<close>

lemma run_schedule_inv_last:
  assumes "0 < n" "legal scheme n es sp" "sorted (T # map event_time es)" "schedule_inv scheme n T sp"
  shows "schedule_inv scheme n (last (T # map event_time es)) (snd (spec_run scheme n es sp))"
  using assms(2-)
proof (induction es arbitrary: T sp)
  case Nil
  then show ?case by simp
next
  case (Cons e es)
  have "schedule_inv scheme n (event_time e) (snd (spec_step scheme n e sp))"
    by (rule step_schedule_inv[OF Cons.prems(3)]) (use Cons.prems assms(1) in auto)
  then have "schedule_inv scheme n (last (event_time e # map event_time es))
      (snd (spec_run scheme n es (snd (spec_step scheme n e sp))))"
    by (intro Cons.IH) (use Cons.prems in auto)
  then show ?case by (simp add: case_prod_unfold Let_def)
qed

section \<open>Accounting\<close>

text \<open>The jobs a run finishes, each with the time it finished at.\<close>

fun finish_log :: "scheme_t \<Rightarrow> nat \<Rightarrow> event list \<Rightarrow> spec \<Rightarrow> (job_t \<times> int) list" where
  "finish_log scheme n [] sp = []"
| "finish_log scheme n (e # es) sp =
     (case e of Finish c i time \<Rightarrow> [(the (sp_running sp c), time)] | _ \<Rightarrow> [])
     @ finish_log scheme n es (snd (spec_step scheme n e sp))"

definition turnaround :: "job_t \<times> int \<Rightarrow> int" where
  "turnaround = (\<lambda>(j, time). time - arrival_time j)"

definition waited :: "job_t \<times> int \<Rightarrow> int" where
  "waited = (\<lambda>(j, time). time - arrival_time j - running_time j)"

definition response :: "job_t \<times> int \<Rightarrow> int" where
  "response = (\<lambda>(j, time). start_time j - arrival_time j)"

lemma spec_next_totals [simp]:
  "sp_jobs (snd (spec_next c time sp)) = sp_jobs sp"
  "sp_turnaround_time (snd (spec_next c time sp)) = sp_turnaround_time sp"
  "sp_waiting_time (snd (spec_next c time sp)) = sp_waiting_time sp"
  "sp_response_time (snd (spec_next c time sp)) = sp_response_time sp"
  by (simp_all add: spec_next_def split: list.split)

lemma arrive_totals [simp]:
  "sp_jobs (snd (spec_arrive scheme n j time sp)) = sp_jobs sp"
  "sp_turnaround_time (snd (spec_arrive scheme n j time sp)) = sp_turnaround_time sp"
  "sp_waiting_time (snd (spec_arrive scheme n j time sp)) = sp_waiting_time sp"
  "sp_response_time (snd (spec_arrive scheme n j time sp)) = sp_response_time sp"
  by (simp_all add: spec_arrive_def Let_def spec_preempt_def spec_enqueue_def refresh_all_def)

lemma spec_run_totals:
  "sp_jobs (snd (spec_run scheme n es sp)) = sp_jobs sp + int (length (finish_log scheme n es sp))
   \<and> sp_turnaround_time (snd (spec_run scheme n es sp))
      = sp_turnaround_time sp + sum_list (map turnaround (finish_log scheme n es sp))
   \<and> sp_waiting_time (snd (spec_run scheme n es sp))
      = sp_waiting_time sp + sum_list (map waited (finish_log scheme n es sp))
   \<and> sp_response_time (snd (spec_run scheme n es sp))
      = sp_response_time sp + sum_list (map response (finish_log scheme n es sp))"
proof (induction es arbitrary: sp)
  case Nil
  then show ?case by simp
next
  case (Cons e es)
  show ?case
    using Cons.IH[of "snd (spec_step scheme n e sp)"]
    by (cases e) (simp_all add: case_prod_unfold Let_def spec_step_def spec_finish_accounted
        accounted_def spec_expire_def turnaround_def waited_def response_def)
qed

lemma finish_log_times:
  assumes "0 < n" "legal scheme n es sp" "sorted (T # map event_time es)" "schedule_inv scheme n T sp"
    and "(j, time) \<in> set (finish_log scheme n es sp)"
  shows "0 \<le> arrival_time j \<and> arrival_time j \<le> start_time j \<and> start_time j \<le> time"
  using assms(2-)
proof (induction es arbitrary: T sp)
  case Nil
  then show ?case by simp
next
  case (Cons e es)
  have en: "enabled scheme e sp" and t: "T \<le> event_time e" using Cons.prems by auto
  have inv: "schedule_inv scheme n (event_time e) (snd (spec_step scheme n e sp))"
    by (rule step_schedule_inv[OF Cons.prems(3) en t assms(1)])
  consider c i where "e = Finish c i time" "j = the (sp_running sp c)"
    | "(j, time) \<in> set (finish_log scheme n es (snd (spec_step scheme n e sp)))"
    using Cons.prems(4) by (cases e) auto
  then show ?case
  proof cases
    case (1 c i)
    then have "sp_running sp c = Some j" using en by (auto simp: enabled_def)
    moreover have "clocked T sp" using Cons.prems(3) by (simp add: schedule_inv_def)
    ultimately have "job_times T j" "start_time j \<noteq> - 1" by (auto simp: clocked_def)
    then show ?thesis using t 1(1) by (auto simp: job_times_def event_time_def)
  next
    case 2
    show ?thesis by (rule Cons.IH[OF _ _ inv 2]) (use Cons.prems in auto)
  qed
qed

lemma sched_run_from_start:
  assumes "0 < n" "legal scheme n es spec_init"
  shows "\<exists>s0 s. scheduler_start_up n scheme = Some s0
    \<and> sched_run es s0 = Some (fst (spec_run scheme n es spec_init), s)
    \<and> sched_abs s = snd (spec_run scheme n es spec_init) \<and> sched_inv {} {} s
    \<and> g_scheme s = scheme \<and> g_total_cores s = n"
proof -
  obtain s0 where s0: "scheduler_start_up n scheme = Some s0" "sched_inv {} {} s0"
    "sched_abs s0 = spec_init" "g_scheme s0 = scheme" "g_total_cores s0 = n"
    using start_up_ok[OF assms(1)] by blast
  have "legal (g_scheme s0) (g_total_cores s0) es (sched_abs s0)" unfolding s0(3-5) by (rule assms(2))
  from run_ok[OF s0(2) this] show ?thesis
    using s0 unfolding same_conf_def by auto
qed

section \<open>Properties\<close>

text \<open>A small legal run, for the witnesses: two cores, four jobs, two of them finish.\<close>

definition example_events :: "event list" where
  "example_events = [Arrive 0 0 9 2, Arrive 1 1 8 5, Arrive 2 2 4 1, Arrive 3 3 7 3,
     Finish 1 2 6, Finish 0 0 9]"

lemma example_legal: "legal PSJF 2 example_events spec_init" "sorted (0 # map event_time example_events)"
  by code_simp+





text \<open>
  Round robin rotates: when a quantum expires in a state reached by a legal run, the job that
  ran goes behind all waiting jobs, and the core runs the job that waited longest, which is
  returned; with no waiting job it is the same one again.
\<close>

theorem round_robin_rotates:
  assumes "0 < n" "legal RR n es spec_init" "sorted (0 # map event_time es @ [time])"
    and "scheduler_start_up n RR = Some s0" "sched_run es s0 = Some (rs, s)"
    and "sp_running (sched_abs s) c = Some j"
  shows "let w = sp_waiting (sched_abs s) @ [queued time j] in
    \<exists>s'. scheduler_quantum_expired (int c) time s = Some (job_id (hd w), s')
      \<and> sp_waiting (sched_abs s') = tl w
      \<and> sp_running (sched_abs s') = (sp_running (sched_abs s))(c \<mapsto> started time (hd w))"
proof -
  let ?sp = "snd (spec_run RR n es spec_init)" and ?w = "sp_waiting (sched_abs s) @ [queued time j]"
  have s: "sched_abs s = ?sp" "sched_inv {} {} s" "g_scheme s = RR"
    using sched_run_from_start[OF assms(1,2)] assms(4,5) by auto
  have srt: "sorted (0 # map event_time es)" "\<forall>t\<in>set (0 # map event_time es). t \<le> time"
    using assms(3) by (auto simp: sorted_append)
  then have last: "last (0 # map event_time es) \<le> time" by (metis last_in_set list.distinct(1))
  have "schedule_inv RR n (last (0 # map event_time es)) ?sp"
    by (rule run_schedule_inv_last[OF assms(1,2) srt(1) spec_init_inv])
  then have "clocked (last (0 # map event_time es)) ?sp" by (simp add: schedule_inv_def)
  then have "\<forall>x\<in>set (sp_waiting ?sp). latest_queue_time x \<le> time"
    using last by (fastforce simp: clocked_def job_times_def)
  then have le: "\<forall>x\<in>set (sp_waiting ?sp). job_key RR x \<le> job_key RR (queued time j)"
    by (auto simp: job_key_def queued_def)
  then have ins: "insert_job RR (queued time j) (sp_waiting (sched_abs s)) = ?w"
    unfolding s(1) insert_job_def by (simp add: takeWhile_eq_all_conv[THEN iffD2] dropWhile_eq_Nil_conv[THEN iffD2])
  obtain k ks where kk: "?w = k # ks" by (cases ?w) auto
  have "spec_expire RR c time (sched_abs s) = (job_id (hd ?w),
      (sched_abs s)\<lparr>sp_running := (sp_running (sched_abs s))(c \<mapsto> started time (hd ?w)), sp_waiting := tl ?w\<rparr>)"
    unfolding spec_expire_def assms(6) option.sel ins spec_next_def kk by simp
  then show ?thesis
    using expired_ok[OF s(2) assms(6), of time] s(3) by (auto simp: Let_def)
qed

theorem round_robin_rotates_witness:
  "\<exists>s0 rs s s'. scheduler_start_up 1 RR = Some s0
    \<and> sched_run [Arrive 0 0 9 2, Arrive 1 1 8 5, Arrive 2 2 8 5] s0 = Some (rs, s)
    \<and> scheduler_quantum_expired 0 4 s = Some (1, s')"
proof -
  let ?es = "[Arrive 0 0 9 2, Arrive 1 1 8 5, Arrive 2 2 8 5]"
  have l: "legal RR 1 ?es spec_init" and t: "sorted (0 # map event_time ?es @ [4])" by code_simp+
  obtain s0 s where s: "scheduler_start_up 1 RR = Some s0"
    "sched_run ?es s0 = Some (fst (spec_run RR 1 ?es spec_init), s)"
    "sched_abs s = snd (spec_run RR 1 ?es spec_init)"
    using sched_run_from_start[OF _ l] by auto
  obtain j where j: "sp_running (snd (spec_run RR 1 ?es spec_init)) 0 = Some j"
    "map job_id (sp_waiting (snd (spec_run RR 1 ?es spec_init)) @ [queued 4 j]) = [1, 2, 0]"
  proof -
    have "map_option (\<lambda>j. map job_id (sp_waiting (snd (spec_run RR 1 ?es spec_init)) @ [queued 4 j]))
        (sp_running (snd (spec_run RR 1 ?es spec_init)) 0) = Some [1, 2, 0]" by code_simp
    then show thesis using that by auto
  qed
  have r: "sp_running (sched_abs s) 0 = Some j" unfolding s(3) by (rule j(1))
  let ?w = "sp_waiting (sched_abs s) @ [queued 4 j]"
  have "hd (map job_id ?w) = 1" unfolding s(3) j(2) by simp
  then have "job_id (hd ?w) = 1" by (metis Nil_is_append_conv hd_map list.distinct(1))
  with round_robin_rotates[OF _ l t s(1,2) r] s(1,2) show ?thesis by (auto simp: Let_def)
qed



end
