(* ===== verification/Deque.thy ===== *)
theory Deque
  imports Prelude
begin

text \<open>
  The double ended queue of \<open>quash/src/deque.h\<close>, a macro that generates a growing ring buffer
  for a type of elements. The functions take the size of an element and the allocator as an
  environment, so that the variant of \<open>memory_pool.h\<close>, which differs in the allocator only,
  is an instance. \<open>size_t\<close> arithmetic wraps as in C. A failed assertion, a failed allocation,
  popping an empty deque and a bad memory access are values of type \<open>stop\<close>. The calls of a
  destructor are returned as a list.
\<close>

section \<open>The code\<close>

datatype stop = AssertFail | AllocFail | PopEmpty | Undefined

record 'm alloc_env =
  elem_size :: nat
  alloc_mem :: "nat \<Rightarrow> 'm \<Rightarrow> stop + 'm"

record ('d, 'a) deque =
  dq_data :: "'a cell list option"
  dq_cap :: nat
  dq_front :: nat
  dq_back :: nat
  dq_destructor :: "'d option"

definition assert_valid :: "('d, 'a) deque \<Rightarrow> stop + 'b \<Rightarrow> stop + 'b" where
  "assert_valid d r = (if dq_data d = None then Inl AssertFail else r)"

text \<open>\<open>x % deq->cap\<close>\<close>

definition mod_cap :: "nat \<Rightarrow> ('d, 'a) deque \<Rightarrow> stop + nat" where
  "mod_cap x d = (if dq_cap d = 0 then Inl Undefined else Inr (x mod dq_cap d))"

definition read_cell :: "'a cell list option \<Rightarrow> nat \<Rightarrow> stop + 'a cell" where
  "read_cell cs i = (case cs of None \<Rightarrow> Inl Undefined
     | Some xs \<Rightarrow> if i < length xs then Inr (xs ! i) else Inl Undefined)"

definition read_elem :: "('d, 'a) deque \<Rightarrow> nat \<Rightarrow> stop + 'a" where
  "read_elem d i = and_then (read_cell (dq_data d) i)
     (\<lambda>c. case c of Uninit \<Rightarrow> Inl Undefined | Val x \<Rightarrow> Inr x)"

definition write_elem :: "nat \<Rightarrow> 'a \<Rightarrow> ('d, 'a) deque \<Rightarrow> stop + ('d, 'a) deque" where
  "write_elem i x d = (case dq_data d of None \<Rightarrow> Inl Undefined
     | Some xs \<Rightarrow> if i < length xs then Inr (d\<lparr>dq_data := Some (xs[i := Val x])\<rparr>) else Inl Undefined)"

text \<open>An array for \<open>n\<close> elements; the byte count is computed in \<open>size_t\<close>.\<close>

definition alloc_array :: "'m alloc_env \<Rightarrow> nat \<Rightarrow> 'm \<Rightarrow> stop + ('a cell list \<times> 'm)" where
  "alloc_array E n m = and_then (alloc_mem E (sz_mul n (elem_size E)) m)
     (\<lambda>m. Inr (replicate (sz_mul n (elem_size E) div elem_size E) Uninit, m))"

definition new_deque :: "'m alloc_env \<Rightarrow> nat \<Rightarrow> 'm \<Rightarrow> stop + (('d, 'a) deque \<times> 'm)" where
  "new_deque E init_cap m =
     (let c = (if 0 < init_cap then init_cap else 1) in
      and_then (alloc_array E c m) (\<lambda>(xs, m).
        Inr (\<lparr>dq_data = Some xs, dq_cap = c, dq_front = 0, dq_back = 0, dq_destructor = None\<rparr>, m)))"

definition new_destructable_deque ::
  "'m alloc_env \<Rightarrow> nat \<Rightarrow> 'd \<Rightarrow> 'm \<Rightarrow> stop + (('d, 'a) deque \<times> 'm)" where
  "new_destructable_deque E init_cap destructor m =
     and_then (new_deque E init_cap m) (\<lambda>(d, m). Inr (d\<lparr>dq_destructor := Some destructor\<rparr>, m))"

definition is_empty_deque :: "('d, 'a) deque \<Rightarrow> stop + bool" where
  "is_empty_deque d = assert_valid d (Inr (dq_front d = dq_back d))"

definition length_deque :: "('d, 'a) deque \<Rightarrow> stop + nat" where
  "length_deque d = assert_valid d
     (mod_cap (sz_add (sz_sub (dq_back d) (dq_front d)) (dq_cap d)) d)"

text \<open>The loop of \<open>apply\<close>: the calls \<open>func\<close> gets, in order.\<close>

primrec apply_calls :: "'f \<Rightarrow> ('d, 'a) deque \<Rightarrow> nat \<Rightarrow> stop + ('f \<times> 'a) list" where
  "apply_calls func d 0 = Inr []"
| "apply_calls func d (Suc n) =
     and_then (apply_calls func d n) (\<lambda>cs.
     and_then (mod_cap (sz_add (dq_front d) n) d) (\<lambda>i.
     and_then (read_elem d i) (\<lambda>x. Inr (cs @ [(func, x)]))))"

definition apply_deque :: "'f \<Rightarrow> ('d, 'a) deque \<Rightarrow> stop + ('f \<times> 'a) list" where
  "apply_deque func d = assert_valid d (and_then (length_deque d) (apply_calls func d))"

definition run_destructor :: "('d, 'a) deque \<Rightarrow> stop + ('d \<times> 'a) list" where
  "run_destructor d = (case dq_destructor d of None \<Rightarrow> Inr [] | Some f \<Rightarrow> apply_deque f d)"

definition clear_deque :: "('d, 'a) deque \<Rightarrow> ('d, 'a) deque" where
  "clear_deque d = d\<lparr>dq_data := None, dq_cap := 0, dq_front := 0, dq_back := 0\<rparr>"

definition destroy_deque :: "('d, 'a) deque \<Rightarrow> stop + (('d \<times> 'a) list \<times> ('d, 'a) deque)" where
  "destroy_deque d = (if dq_data d = None then Inr ([], d)
     else and_then (run_destructor d) (\<lambda>calls. Inr (calls, clear_deque d)))"

definition empty_deque :: "('d, 'a) deque \<Rightarrow> stop + (('d \<times> 'a) list \<times> ('d, 'a) deque)" where
  "empty_deque d = assert_valid d (and_then (run_destructor d)
     (\<lambda>calls. Inr (calls, d\<lparr>dq_front := 0, dq_back := 0\<rparr>)))"

text \<open>\<open>data[i] = old_data[(front + i) % cap]\<close> for \<open>i\<close> below \<open>n\<close>.\<close>

primrec copy_ring ::
  "'a cell list option \<Rightarrow> nat \<Rightarrow> nat \<Rightarrow> nat \<Rightarrow> 'a cell list \<Rightarrow> stop + 'a cell list" where
  "copy_ring old front cap 0 new = Inr new"
| "copy_ring old front cap (Suc n) new =
     and_then (copy_ring old front cap n new) (\<lambda>new.
     and_then (if cap = 0 then Inl Undefined else read_cell old (sz_add front n mod cap)) (\<lambda>c.
     if n < length new then Inr (new[n := c]) else Inl Undefined))"

definition reallign :: "'m alloc_env \<Rightarrow> ('d, 'a) deque \<Rightarrow> 'm \<Rightarrow> stop + (('d, 'a) deque \<times> 'm)" where
  "reallign E d m = assert_valid d
     (if dq_front d \<noteq> 0 then
        and_then (length_deque d) (\<lambda>len.
        and_then (alloc_array E (dq_cap d) m) (\<lambda>(new, m).
        and_then (copy_ring (dq_data d) (dq_front d) (dq_cap d) len new) (\<lambda>new.
        Inr (d\<lparr>dq_data := Some new, dq_front := 0, dq_back := len\<rparr>, m))))
      else Inr (d, m))"

text \<open>The array, its length, and the deque, which is invalid afterwards.\<close>

definition as_array ::
  "'m alloc_env \<Rightarrow> ('d, 'a) deque \<Rightarrow> 'm \<Rightarrow> stop + (('a cell list \<times> nat) \<times> ('d, 'a) deque \<times> 'm)" where
  "as_array E d m = assert_valid d
     (and_then (reallign E d m) (\<lambda>(d, m).
      and_then (length_deque d) (\<lambda>len.
      Inr ((the (dq_data d), len), clear_deque d, m))))"

definition on_push :: "'m alloc_env \<Rightarrow> ('d, 'a) deque \<Rightarrow> 'm \<Rightarrow> stop + (('d, 'a) deque \<times> 'm)" where
  "on_push E d m =
     and_then (mod_cap (sz_add (dq_back d) 1) d) (\<lambda>i.
     if dq_front d = i then
       let new_cap = sz_mul 2 (dq_cap d); n = sz_sub (dq_cap d) 1 in
       and_then (alloc_array E new_cap m) (\<lambda>(new, m).
       and_then (copy_ring (dq_data d) (dq_front d) (dq_cap d) n new) (\<lambda>new.
       Inr (d\<lparr>dq_data := Some new, dq_cap := new_cap, dq_front := 0, dq_back := n\<rparr>, m)))
     else Inr (d, m))"

definition on_pop :: "('d, 'a) deque \<Rightarrow> stop + unit" where
  "on_pop d = and_then (is_empty_deque d) (\<lambda>e. if e then Inl PopEmpty else Inr ())"

definition push_front :: "'m alloc_env \<Rightarrow> 'a \<Rightarrow> ('d, 'a) deque \<Rightarrow> 'm \<Rightarrow> stop + (('d, 'a) deque \<times> 'm)" where
  "push_front E x d m = assert_valid d
     (and_then (on_push E d m) (\<lambda>(d, m).
      and_then (mod_cap (sz_sub (sz_add (dq_front d) (dq_cap d)) 1) d) (\<lambda>f.
      and_then (write_elem f x (d\<lparr>dq_front := f\<rparr>)) (\<lambda>d. Inr (d, m)))))"

definition push_back :: "'m alloc_env \<Rightarrow> 'a \<Rightarrow> ('d, 'a) deque \<Rightarrow> 'm \<Rightarrow> stop + (('d, 'a) deque \<times> 'm)" where
  "push_back E x d m = assert_valid d
     (and_then (on_push E d m) (\<lambda>(d, m).
      and_then (write_elem (dq_back d) x d) (\<lambda>d.
      and_then (mod_cap (sz_add (dq_back d) 1) d) (\<lambda>b. Inr (d\<lparr>dq_back := b\<rparr>, m)))))"

definition pop_front :: "('d, 'a) deque \<Rightarrow> stop + ('a \<times> ('d, 'a) deque)" where
  "pop_front d = assert_valid d
     (and_then (on_pop d) (\<lambda>_.
      and_then (mod_cap (sz_add (dq_front d) 1) d) (\<lambda>f.
      and_then (read_elem d (dq_front d)) (\<lambda>x. Inr (x, d\<lparr>dq_front := f\<rparr>)))))"

text \<open>The index of the last element.\<close>

definition last_index :: "('d, 'a) deque \<Rightarrow> stop + nat" where
  "last_index d = mod_cap (sz_sub (sz_add (dq_back d) (dq_cap d)) 1) d"

definition pop_back :: "('d, 'a) deque \<Rightarrow> stop + ('a \<times> ('d, 'a) deque)" where
  "pop_back d = assert_valid d
     (and_then (on_pop d) (\<lambda>_.
      and_then (last_index d) (\<lambda>b.
      and_then (read_elem d b) (\<lambda>x. Inr (x, d\<lparr>dq_back := b\<rparr>)))))"

definition assert_nonempty :: "('d, 'a) deque \<Rightarrow> stop + 'b \<Rightarrow> stop + 'b" where
  "assert_nonempty d r = assert_valid d
     (and_then (is_empty_deque d) (\<lambda>e. if e then Inl AssertFail else r))"

definition peek_front :: "('d, 'a) deque \<Rightarrow> stop + 'a" where
  "peek_front d = assert_nonempty d (read_elem d (dq_front d))"

definition peek_back :: "('d, 'a) deque \<Rightarrow> stop + 'a" where
  "peek_back d = assert_nonempty d (and_then (last_index d) (read_elem d))"

definition update_front :: "'a \<Rightarrow> ('d, 'a) deque \<Rightarrow> stop + ('d, 'a) deque" where
  "update_front x d = assert_nonempty d (write_elem (dq_front d) x d)"

definition update_back :: "'a \<Rightarrow> ('d, 'a) deque \<Rightarrow> stop + ('d, 'a) deque" where
  "update_back x d = assert_nonempty d (and_then (last_index d) (\<lambda>i. write_elem i x d))"

definition destroy_at :: "nat \<Rightarrow> ('d, 'a) deque \<Rightarrow> stop + ('d \<times> 'a) list" where
  "destroy_at i d = (case dq_destructor d of None \<Rightarrow> Inr []
     | Some f \<Rightarrow> and_then (read_elem d i) (\<lambda>x. Inr [(f, x)]))"

definition update_and_destroy_front ::
  "'a \<Rightarrow> ('d, 'a) deque \<Rightarrow> stop + (('d \<times> 'a) list \<times> ('d, 'a) deque)" where
  "update_and_destroy_front x d = assert_nonempty d
     (and_then (destroy_at (dq_front d) d) (\<lambda>calls.
      and_then (write_elem (dq_front d) x d) (\<lambda>d. Inr (calls, d))))"

definition update_and_destroy_back ::
  "'a \<Rightarrow> ('d, 'a) deque \<Rightarrow> stop + (('d \<times> 'a) list \<times> ('d, 'a) deque)" where
  "update_and_destroy_back x d = assert_nonempty d
     (and_then (last_index d) (\<lambda>i.
      and_then (destroy_at i d) (\<lambda>calls.
      and_then (write_elem i x d) (\<lambda>d. Inr (calls, d)))))"

section \<open>The list a deque represents\<close>

text \<open>
  What the deque needs of its allocator, for memories that satisfy \<open>I\<close>: requests of a quarter of
  the address space or more fail (a 64 bit process has \<open>2 ^ 47\<close> bytes), so that the
  computation of the doubled size never wraps, and \<open>I\<close> is kept.
\<close>

definition env_ok :: "('m \<Rightarrow> bool) \<Rightarrow> 'm alloc_env \<Rightarrow> bool" where
  "env_ok I E \<longleftrightarrow> 0 < elem_size E \<and> (\<forall>n m m'. I m \<and> n < SIZE_T div 2 \<and> alloc_mem E n m = Inr m'
     \<longrightarrow> n < SIZE_T div 4 \<and> I m')"

definition rep :: "'m alloc_env \<Rightarrow> ('d, 'a) deque \<Rightarrow> 'a list \<Rightarrow> bool" where
  "rep E d xs \<longleftrightarrow> (\<exists>cs. dq_data d = Some cs \<and> length cs = dq_cap d \<and> dq_front d < dq_cap d
     \<and> length xs < dq_cap d \<and> dq_back d = (dq_front d + length xs) mod dq_cap d
     \<and> (\<forall>i<length xs. cs ! ((dq_front d + i) mod dq_cap d) = Val (xs ! i))
     \<and> dq_cap d * elem_size E < SIZE_T div 4)"

end
