(* ===== verification/Deque_Correct.thy ===== *)
theory Deque_Correct
  imports Deque
begin

text \<open>
  Correctness of the deque. \<open>rep E d xs\<close> says that the ring buffer \<open>d\<close> is well formed and holds
  the list \<open>xs\<close>; every operation is refined to its list counterpart, and the interface
  \<open>deque_ops\<close> collects what the clients rely on.
\<close>

lemmas deque_defs = assert_valid_def mod_cap_def read_cell_def read_elem_def write_elem_def

lemma repE:
  assumes "rep E d xs" "env_ok I E"
  obtains cs where "dq_data d = Some cs" "length cs = dq_cap d" "dq_front d < dq_cap d"
    "length xs < dq_cap d" "dq_back d = (dq_front d + length xs) mod dq_cap d"
    "\<And>i. i < length xs \<Longrightarrow> cs ! ((dq_front d + i) mod dq_cap d) = Val (xs ! i)"
    "dq_cap d * elem_size E < SIZE_T div 4" "dq_cap d < SIZE_T div 4" "0 < dq_cap d"
proof -
  obtain cs where *: "dq_data d = Some cs" "length cs = dq_cap d" "dq_front d < dq_cap d"
    "length xs < dq_cap d" "dq_back d = (dq_front d + length xs) mod dq_cap d"
    "\<forall>i<length xs. cs ! ((dq_front d + i) mod dq_cap d) = Val (xs ! i)"
    "dq_cap d * elem_size E < SIZE_T div 4"
    using assms(1) by (auto simp: rep_def)
  have "dq_cap d * 1 \<le> dq_cap d * elem_size E"
    by (rule mult_le_mono2) (use assms(2) in \<open>simp add: env_ok_def\<close>)
  with *(7) have "dq_cap d < SIZE_T div 4" by (metis le_less_trans mult_1_right)
  moreover have "0 < dq_cap d" using *(3) by simp
  ultimately show thesis using that[of cs] * by blast
qed

lemma rep_basics:
  assumes "rep E d xs"
  shows "dq_front d < dq_cap d" "0 < dq_cap d" "assert_valid d = (\<lambda>r. r)" "dq_back d < dq_cap d"
    "dq_back d = (dq_front d + length xs) mod dq_cap d"
  using assms by (auto simp: rep_def assert_valid_def)

lemma half: "n < SIZE_T div 4 \<Longrightarrow> m < SIZE_T div 4 \<Longrightarrow> n + m < SIZE_T"
  by (simp add: SIZE_T_def)

text \<open>The length, computed with wrapping subtraction.\<close>

lemma ring_length:
  assumes "f < c" "n < c" "c < SIZE_T div 4"
  shows "sz_add (sz_sub ((f + n) mod c) f) c mod c = n"
proof -
  let ?b = "(f + n) mod c"
  have b: "?b < c" using assms by simp
  have le: "?b + c < SIZE_T" using half b assms(3) by (meson less_trans)
  have "sz_add (sz_sub ?b f) c = ?b + c - f"
    by (rule sz_sub_add_cancel) (use assms le half in linarith)+
  also have "(?b + c - f) mod c = n"
  proof (cases "f + n < c")
    case True
    then have "?b + c - f = n + c" by simp
    then show ?thesis using assms by simp
  next
    case False
    then have "?b = f + n - c" using assms by (simp add: mod_if)
    then have "?b + c - f = n" using False by simp
    then show ?thesis using assms by simp
  qed
  finally show ?thesis .
qed

lemma length_rep: "rep E d xs \<Longrightarrow> env_ok I E \<Longrightarrow> length_deque d = Inr (length xs)"
  by (erule (1) repE) (simp add: length_deque_def deque_defs ring_length)

lemma back_neq_front:
  fixes f n c :: nat
  assumes "f < c" "n < c"
  shows "f = (f + n) mod c \<longleftrightarrow> n = 0"
  using ring_inj[of f 0 c n] assms by auto

lemma is_empty_rep: "rep E d xs \<Longrightarrow> env_ok I E \<Longrightarrow> is_empty_deque d = Inr (xs = [])"
  by (erule (1) repE) (simp add: is_empty_deque_def deque_defs back_neq_front)

lemma read_rep:
  assumes "rep E d xs" "env_ok I E" "i < length xs"
  shows "read_elem d ((dq_front d + i) mod dq_cap d) = Inr (xs ! i)"
  using assms(1,2) by (rule repE) (use assms(3) in \<open>simp add: deque_defs\<close>)

text \<open>Calls of a function on every element, in order.\<close>

lemma apply_calls_rep:
  assumes "rep E d xs" "env_ok I E" "n \<le> length xs"
  shows "apply_calls f d n = Inr (map (Pair f) (take n xs))"
  using assms(3)
proof (induction n)
  case 0
  then show ?case by simp
next
  case (Suc n)
  have "sz_add (dq_front d) n = dq_front d + n" "0 < dq_cap d"
    using assms(1,2) by (rule repE; use Suc.prems in \<open>simp add: sz_add_small half\<close>)+
  then show ?case
    using Suc read_rep[OF assms(1,2), of n]
    by (simp add: mod_cap_def take_Suc_conv_app_nth)
qed

lemma apply_rep: "rep E d xs \<Longrightarrow> env_ok I E \<Longrightarrow> apply_deque f d = Inr (map (Pair f) xs)"
  by (frule (1) repE) (auto simp: apply_deque_def deque_defs length_rep apply_calls_rep)

lemma run_destructor_rep:
  "rep E d xs \<Longrightarrow> env_ok I E \<Longrightarrow> run_destructor d
     = Inr (case dq_destructor d of None \<Rightarrow> [] | Some f \<Rightarrow> map (Pair f) xs)"
  by (simp add: run_destructor_def apply_rep split: option.split)

text \<open>Fresh arrays and copies.\<close>

lemma alloc_array_cases:
  assumes "env_ok I E" "n * elem_size E < SIZE_T"
  shows "alloc_array E n m = (case alloc_mem E (n * elem_size E) m of
    Inl e \<Rightarrow> Inl e | Inr m' \<Rightarrow> Inr (replicate n Uninit, m'))"
  using assms by (simp add: alloc_array_def sz_mul_small env_ok_def split: sum.split)

lemma alloc_mem_small:
  "\<lbrakk> env_ok I E; I m; n < SIZE_T div 2; alloc_mem E n m = Inr m' \<rbrakk> \<Longrightarrow> n < SIZE_T div 4 \<and> I m'"
  by (auto simp: env_ok_def)

lemma copy_ring_ok:
  assumes "length cs = c" "0 < c" "n \<le> length new" "f + n < SIZE_T"
  shows "\<exists>new'. copy_ring (Some cs) f c n new = Inr new' \<and> length new' = length new
    \<and> (\<forall>i<n. new' ! i = cs ! ((f + i) mod c))"
  using assms(3,4)
proof (induction n)
  case 0
  then show ?case by simp
next
  case (Suc n)
  then obtain new' where new': "copy_ring (Some cs) f c n new = Inr new'" "length new' = length new"
    "\<forall>i<n. new' ! i = cs ! ((f + i) mod c)" by auto
  have "sz_add f n = f + n" using Suc.prems(2) by (simp add: sz_add_small)
  then show ?case
    using new' Suc.prems(1) assms(1,2)
    by (auto simp: read_cell_def nth_list_update less_Suc_eq)
qed

text \<open>
  The result of an operation that may need memory: success, or the error of the allocator on a
  request of at most \<open>B\<close> bytes.
\<close>

definition ok_or_alloc ::
  "'m alloc_env \<Rightarrow> 'm \<Rightarrow> nat \<Rightarrow> ('r \<Rightarrow> bool) \<Rightarrow> stop + 'r \<Rightarrow> bool" where
  "ok_or_alloc E m B P r \<longleftrightarrow>
     (case r of Inr x \<Rightarrow> P x | Inl e \<Rightarrow> \<exists>n\<le>B. alloc_mem E n m = Inl e)"

lemma ok_or_alloc_simps [simp]:
  "ok_or_alloc E m B P (Inr x) = P x"
  "ok_or_alloc E m B P (Inl e) = (\<exists>n\<le>B. alloc_mem E n m = Inl e)"
  by (simp_all add: ok_or_alloc_def)

lemma ok_or_alloc_then:
  assumes "ok_or_alloc E m B P r" "\<And>x. P x \<Longrightarrow> \<exists>y. f x = Inr y \<and> Q y"
  shows "ok_or_alloc E m B Q (and_then r f)"
proof (cases r)
  case (Inl e)
  then show ?thesis using assms(1) by simp
next
  case (Inr x)
  then obtain y where "f x = Inr y" "Q y" using assms by fastforce
  then show ?thesis using Inr by simp
qed

lemma new_rep:
  fixes E :: "'m alloc_env"
  assumes E: "env_ok I E" and I: "I m" and k: "max k 1 * elem_size E < SIZE_T div 2"
  shows "ok_or_alloc E m (max k 1 * elem_size E) (\<lambda>(d :: ('d, 'a) deque, m'). rep E d []
    \<and> dq_destructor d = None \<and> I m') (new_deque E k m)"
proof -
  let ?c = "if 0 < k then k else 1"
  have mx: "?c = max k 1" by auto
  have c: "max k 1 * elem_size E < SIZE_T" using k by (simp add: SIZE_T_def)
  show ?thesis
  proof (cases "alloc_mem E (max k 1 * elem_size E) m")
    case (Inl e)
    then have "new_deque E k m = (Inl e :: stop + (('d, 'a) deque \<times> 'm))"
      unfolding new_deque_def Let_def mx alloc_array_cases[OF E c] by simp
    then show ?thesis unfolding ok_or_alloc_def using Inl by auto
  next
    case (Inr m')
    then show ?thesis using alloc_mem_small[OF E I k Inr]
      unfolding new_deque_def Let_def mx alloc_array_cases[OF E c] by (simp add: rep_def)
  qed
qed

text \<open>Moving the contents to a bigger or a fresh array.\<close>

lemma rep_copied:
  assumes "length new = c" "length xs < c" "\<forall>i<length xs. new ! i = Val (xs ! i)"
    "c * elem_size E < SIZE_T div 4"
  shows "rep E (d\<lparr>dq_data := Some new, dq_cap := c, dq_front := 0, dq_back := length xs\<rparr>) xs"
  using assms by (auto simp: rep_def)

text \<open>The slots after and before one of the ring, computed in \<open>size_t\<close>.\<close>

lemma next_slot:
  assumes "rep E d xs" "env_ok I E" "i < dq_cap d"
  shows "mod_cap (sz_add i 1) d = Inr (Suc i mod dq_cap d)"
proof -
  have "dq_cap d < SIZE_T div 4" using repE[OF assms(1,2)] by metis
  then show ?thesis using assms(3) by (simp add: mod_cap_def sz_add_small SIZE_T_def)
qed

lemma prev_slot:
  assumes "rep E d xs" "env_ok I E" "i < dq_cap d"
  shows "mod_cap (sz_sub (sz_add i (dq_cap d)) 1) d = Inr ((i + dq_cap d - 1) mod dq_cap d)"
proof -
  have "dq_cap d < SIZE_T div 4" using repE[OF assms(1,2)] by metis
  then show ?thesis using assms(3)
    by (simp add: mod_cap_def sz_add_small sz_sub_small SIZE_T_def)
qed

lemma next_back:
  assumes "rep E d xs" "env_ok I E"
  shows "sz_add (dq_back d) 1 mod dq_cap d = (dq_front d + Suc (length xs)) mod dq_cap d"
proof -
  have b: "dq_back d = (dq_front d + length xs) mod dq_cap d" "0 < dq_cap d"
    using repE[OF assms] by metis+
  then have "dq_back d < dq_cap d" by simp
  then show ?thesis using next_slot[OF assms, of "dq_back d"] b by (simp add: mod_cap_def mod_Suc_eq)
qed

lemma on_push_rep:
  assumes rep: "rep E d xs" and E: "env_ok I E" and I: "I m"
  shows "ok_or_alloc E m (2 * Suc (length xs) * elem_size E) (\<lambda>(d', m'). rep E d' xs \<and> Suc (length xs) < dq_cap d'
    \<and> dq_destructor d' = dq_destructor d \<and> I m') (on_push E d m)"
proof -
  obtain cs where cs: "dq_data d = Some cs" "length cs = dq_cap d" "dq_front d < dq_cap d"
    "length xs < dq_cap d" "dq_back d = (dq_front d + length xs) mod dq_cap d"
    "\<And>i. i < length xs \<Longrightarrow> cs ! ((dq_front d + i) mod dq_cap d) = Val (xs ! i)"
    "dq_cap d * elem_size E < SIZE_T div 4" "dq_cap d < SIZE_T div 4" "0 < dq_cap d"
    using repE[OF rep E] by metis
  let ?c = "dq_cap d" and ?f = "dq_front d"
  have "dq_back d < ?c" using cs(5,9) by simp
  then have "dq_back d + 1 < SIZE_T" using cs(8) by (simp add: SIZE_T_def)
  then have b1: "mod_cap (sz_add (dq_back d) 1) d = Inr ((?f + Suc (length xs)) mod ?c)"
    using cs(5,9) by (simp add: mod_cap_def sz_add_small mod_Suc_eq)
  show ?thesis
  proof (cases "Suc (length xs) = ?c")
    case False
    then have "?f \<noteq> (?f + Suc (length xs)) mod ?c"
      using back_neq_front[OF cs(3), of "Suc (length xs)"] cs(4) by simp
    then show ?thesis using b1 rep False cs(4) I by (simp add: on_push_def)
  next
    case True
    then have full: "?f = (?f + Suc (length xs)) mod ?c" using cs(3) by simp
    have n: "sz_mul 2 ?c = 2 * ?c" "sz_sub ?c 1 = length xs"
      using cs(8,9) True by (simp_all add: sz_mul_small sz_sub_small SIZE_T_def)
    have bytes: "2 * ?c * elem_size E < SIZE_T"
      using half[OF cs(7) cs(7)] by (simp add: algebra_simps)
    show ?thesis
    proof (cases "alloc_mem E (2 * ?c * elem_size E) m")
      case (Inl e)
      then have "on_push E d m = Inl e"
        unfolding on_push_def b1 by (simp only: and_then.simps full[symmetric] n Let_def if_True simp_thms
          alloc_array_cases[OF E bytes] sum.case)
      then show ?thesis using Inl True by (auto simp: ok_or_alloc_def)
    next
      case (Inr m')
      have small: "2 * ?c * elem_size E < SIZE_T div 4" "I m'"
        using alloc_mem_small[OF E I _ Inr] cs(7) by (simp_all add: SIZE_T_def mult.commute)
      have "?f + length xs < SIZE_T" using cs(3,4,8) by (simp add: SIZE_T_def)
      with copy_ring_ok[OF cs(2,9), of "length xs" "replicate (2 * ?c) Uninit" ?f] cs(4) obtain new where
        new: "copy_ring (Some cs) ?f ?c (length xs) (replicate (2 * ?c) Uninit) = Inr new"
          "length new = 2 * ?c" "\<forall>i<length xs. new ! i = cs ! ((?f + i) mod ?c)" by auto
      let ?d = "d\<lparr>dq_data := Some new, dq_cap := 2 * ?c, dq_front := 0, dq_back := length xs\<rparr>"
      have "on_push E d m = Inr (?d, m')"
        unfolding on_push_def b1 by (simp only: and_then.simps full[symmetric] n Let_def if_True
          simp_thms alloc_array_cases[OF E bytes] Inr sum.case prod.case cs(1) new(1))
      moreover have "rep E ?d xs"
        by (rule rep_copied) (use new cs(4,6) small in auto)
      ultimately show ?thesis using cs(4,9) True small(2) by simp
    qed
  qed
qed

text \<open>Writing to the ring.\<close>

lemma rep_update:
  assumes rep: "rep E d xs" and E: "env_ok I E" and i: "i < length xs"
  shows "\<exists>d'. write_elem ((dq_front d + i) mod dq_cap d) y d = Inr d' \<and> rep E d' (xs[i := y])
    \<and> dq_destructor d' = dq_destructor d"
proof -
  obtain cs where cs: "dq_data d = Some cs" "length cs = dq_cap d" "dq_front d < dq_cap d"
    "length xs < dq_cap d" "dq_back d = (dq_front d + length xs) mod dq_cap d"
    "\<And>i. i < length xs \<Longrightarrow> cs ! ((dq_front d + i) mod dq_cap d) = Val (xs ! i)"
    "dq_cap d * elem_size E < SIZE_T div 4" "0 < dq_cap d"
    using repE[OF rep E] by metis
  let ?c = "dq_cap d" and ?f = "dq_front d"
  have "rep E (d\<lparr>dq_data := Some (cs[(?f + i) mod ?c := Val y])\<rparr>) (xs[i := y])"
    unfolding rep_def using cs i ring_inj[of ?f i ?c]
    by (auto simp: nth_list_update)
  then show ?thesis using cs i by (simp add: write_elem_def)
qed

lemma rep_snoc:
  assumes rep: "rep E d xs" and E: "env_ok I E" and room: "Suc (length xs) < dq_cap d"
  shows "\<exists>d'. write_elem (dq_back d) x d = Inr d' \<and> dq_cap d' = dq_cap d
    \<and> rep E (d'\<lparr>dq_back := (dq_front d + Suc (length xs)) mod dq_cap d\<rparr>) (xs @ [x])
    \<and> dq_back d' = dq_back d \<and> dq_destructor d' = dq_destructor d"
proof -
  obtain cs where cs: "dq_data d = Some cs" "length cs = dq_cap d" "dq_front d < dq_cap d"
    "length xs < dq_cap d" "dq_back d = (dq_front d + length xs) mod dq_cap d"
    "\<And>i. i < length xs \<Longrightarrow> cs ! ((dq_front d + i) mod dq_cap d) = Val (xs ! i)"
    "dq_cap d * elem_size E < SIZE_T div 4" "0 < dq_cap d"
    using repE[OF rep E] by metis
  let ?c = "dq_cap d" and ?f = "dq_front d" and ?n = "length xs"
  have slot: "(?f + i) mod ?c \<noteq> (?f + ?n) mod ?c" if "i < ?n" for i
    using ring_inj[of ?f i ?c ?n] that cs(4) by auto
  have "rep E (d\<lparr>dq_data := Some (cs[(?f + ?n) mod ?c := Val x]),
      dq_back := (?f + Suc ?n) mod ?c\<rparr>) (xs @ [x])"
    unfolding rep_def using cs room slot slot[symmetric]
    by (auto simp: nth_list_update nth_append less_Suc_eq)
  then show ?thesis using cs by (simp add: write_elem_def)
qed

lemma ring_pred:
  assumes "f < c"
  shows "((f + c - 1) mod c + Suc i) mod c = (f + i) mod (c :: nat)"
proof -
  have "((f + c - 1) mod c + Suc i) mod c = (f + c - 1 + Suc i) mod c"
    by (rule mod_add_left_eq)
  also have "f + c - 1 + Suc i = (f + i) + c" using assms by simp
  finally show ?thesis by simp
qed

lemma rep_cons:
  assumes rep: "rep E d xs" and E: "env_ok I E" and room: "Suc (length xs) < dq_cap d"
  shows "\<exists>d'. write_elem ((dq_front d + dq_cap d - 1) mod dq_cap d) x
      (d\<lparr>dq_front := (dq_front d + dq_cap d - 1) mod dq_cap d\<rparr>) = Inr d' \<and> rep E d' (x # xs)
    \<and> dq_destructor d' = dq_destructor d"
proof -
  obtain cs where cs: "dq_data d = Some cs" "length cs = dq_cap d" "dq_front d < dq_cap d"
    "length xs < dq_cap d" "dq_back d = (dq_front d + length xs) mod dq_cap d"
    "\<And>i. i < length xs \<Longrightarrow> cs ! ((dq_front d + i) mod dq_cap d) = Val (xs ! i)"
    "dq_cap d * elem_size E < SIZE_T div 4" "0 < dq_cap d"
    using repE[OF rep E] by metis
  let ?c = "dq_cap d" and ?f = "dq_front d"
  let ?g = "(?f + ?c - 1) mod ?c"
  have bk: "dq_back d = (?g + length (x # xs)) mod ?c"
    using ring_pred[OF cs(3), of "length xs"] cs(5) by simp
  have "cs[?g := Val x] ! ((?g + i) mod ?c) = Val ((x # xs) ! i)" if i: "i < length (x # xs)" for i
  proof (cases i)
    case 0
    then show ?thesis using cs(2,8) by simp
  next
    case (Suc j)
    have "(?g + i) mod ?c \<noteq> ?g"
      using ring_inj[of ?g i ?c 0] i Suc room cs(8) by auto
    then show ?thesis using ring_pred[OF cs(3), of j] cs(6)[of j] i Suc by simp
  qed
  then have "rep E (d\<lparr>dq_front := ?g, dq_data := Some (cs[?g := Val x])\<rparr>) (x # xs)"
    unfolding rep_def using cs(2,7,8) room bk by simp
  then show ?thesis using cs by (simp add: write_elem_def)
qed

section \<open>The operations on lists\<close>

lemma push_back_rep:
  assumes rep: "rep E d xs" and E: "env_ok I E" and I: "I m"
  shows "ok_or_alloc E m (2 * Suc (length xs) * elem_size E) (\<lambda>(d', m'). rep E d' (xs @ [x]) \<and> dq_destructor d' = dq_destructor d \<and> I m')
    (push_back E x d m)"
proof -
  have "\<exists>y. and_then (write_elem (dq_back d1) x d1) (\<lambda>d.
      and_then (mod_cap (sz_add (dq_back d) 1) d) (\<lambda>b. Inr (d\<lparr>dq_back := b\<rparr>, m1))) = Inr y
      \<and> (case y of (d', m') \<Rightarrow> rep E d' (xs @ [x]) \<and> dq_destructor d' = dq_destructor d \<and> I m')"
    if r: "rep E d1 xs" "Suc (length xs) < dq_cap d1" "dq_destructor d1 = dq_destructor d" "I m1" for d1 m1
  proof -
    obtain d2 where d2: "write_elem (dq_back d1) x d1 = Inr d2" "dq_cap d2 = dq_cap d1"
      "rep E (d2\<lparr>dq_back := (dq_front d1 + Suc (length xs)) mod dq_cap d1\<rparr>) (xs @ [x])"
      "dq_back d2 = dq_back d1" "dq_destructor d2 = dq_destructor d1"
      using rep_snoc[OF r(1) E r(2)] by blast
    have "mod_cap (sz_add (dq_back d2) 1) d2 = Inr ((dq_front d1 + Suc (length xs)) mod dq_cap d1)"
      using next_back[OF r(1) E] d2(2,4) r(2) by (simp add: mod_cap_def)
    then show ?thesis using d2 r(3,4) by simp
  qed
  then have "ok_or_alloc E m (2 * Suc (length xs) * elem_size E) (\<lambda>(d', m'). rep E d' (xs @ [x]) \<and> dq_destructor d' = dq_destructor d \<and> I m')
      (and_then (on_push E d m) (\<lambda>(d, m). and_then (write_elem (dq_back d) x d) (\<lambda>d.
        and_then (mod_cap (sz_add (dq_back d) 1) d) (\<lambda>b. Inr (d\<lparr>dq_back := b\<rparr>, m)))))"
    by (intro ok_or_alloc_then[OF on_push_rep[OF rep E I]]) auto
  then show ?thesis
    by (simp add: push_back_def rep_basics(3)[OF rep])
qed

lemma push_front_rep:
  assumes rep: "rep E d xs" and E: "env_ok I E" and I: "I m"
  shows "ok_or_alloc E m (2 * Suc (length xs) * elem_size E) (\<lambda>(d', m'). rep E d' (x # xs) \<and> dq_destructor d' = dq_destructor d \<and> I m')
    (push_front E x d m)"
proof -
  have "\<exists>y. and_then (mod_cap (sz_sub (sz_add (dq_front d1) (dq_cap d1)) 1) d1) (\<lambda>f.
      and_then (write_elem f x (d1\<lparr>dq_front := f\<rparr>)) (\<lambda>d. Inr (d, m1))) = Inr y
      \<and> (case y of (d', m') \<Rightarrow> rep E d' (x # xs) \<and> dq_destructor d' = dq_destructor d \<and> I m')"
    if r: "rep E d1 xs" "Suc (length xs) < dq_cap d1" "dq_destructor d1 = dq_destructor d" "I m1" for d1 m1
    using rep_cons[OF r(1) E r(2), of x] prev_slot[OF r(1) E, of "dq_front d1"] r(3,4)
      rep_basics(1)[OF r(1)] by auto
  then have "ok_or_alloc E m (2 * Suc (length xs) * elem_size E) (\<lambda>(d', m'). rep E d' (x # xs) \<and> dq_destructor d' = dq_destructor d \<and> I m')
      (and_then (on_push E d m) (\<lambda>(d, m).
        and_then (mod_cap (sz_sub (sz_add (dq_front d) (dq_cap d)) 1) d) (\<lambda>f.
        and_then (write_elem f x (d\<lparr>dq_front := f\<rparr>)) (\<lambda>d. Inr (d, m)))))"
    by (intro ok_or_alloc_then[OF on_push_rep[OF rep E I]]) auto
  then show ?thesis
    by (simp add: push_front_def rep_basics(3)[OF rep])
qed

text \<open>The slot of the last element.\<close>

lemma last_index_rep:
  assumes rep: "rep E d (ys @ [y])" and E: "env_ok I E"
  shows "last_index d = Inr ((dq_front d + length ys) mod dq_cap d)"
proof -
  note b = rep_basics[OF rep]
  have "(dq_back d + dq_cap d - 1) mod dq_cap d
      = ((dq_front d + Suc (length ys)) mod dq_cap d + (dq_cap d - 1)) mod dq_cap d"
    using b(2,5) by simp
  also have "\<dots> = (dq_front d + Suc (length ys) + (dq_cap d - 1)) mod dq_cap d"
    by (rule mod_add_left_eq)
  also have "dq_front d + Suc (length ys) + (dq_cap d - 1) = dq_front d + length ys + dq_cap d"
    using b(2) by simp
  finally show ?thesis
    using prev_slot[OF rep E b(4)] by (simp add: last_index_def)
qed

lemma pop_empty_rep:
  assumes "rep E d []" "env_ok I E"
  shows "pop_front d = Inl PopEmpty" "pop_back d = Inl PopEmpty"
  using assms by (simp_all add: pop_front_def pop_back_def on_pop_def is_empty_rep rep_basics)

lemma rep_pop_front:
  assumes "rep E d (x # xs)" "env_ok I E"
  shows "rep E (d\<lparr>dq_front := Suc (dq_front d) mod dq_cap d\<rparr>) xs"
proof -
  obtain cs where cs: "dq_data d = Some cs" "length cs = dq_cap d" "dq_front d < dq_cap d"
    "length (x # xs) < dq_cap d" "dq_back d = (dq_front d + length (x # xs)) mod dq_cap d"
    "\<And>i. i < length (x # xs) \<Longrightarrow> cs ! ((dq_front d + i) mod dq_cap d) = Val ((x # xs) ! i)"
    "dq_cap d * elem_size E < SIZE_T div 4" "0 < dq_cap d"
    using repE[OF assms] by metis
  have "(Suc (dq_front d) mod dq_cap d + i) mod dq_cap d = (dq_front d + Suc i) mod dq_cap d" for i
    by (simp add: mod_add_left_eq)
  then show ?thesis
    unfolding rep_def using cs(1-5,7,8) cs(6)[of "Suc i" for i] by simp
qed

lemma pop_front_rep:
  assumes "rep E d (x # xs)" "env_ok I E"
  shows "\<exists>d'. pop_front d = Inr (x, d') \<and> rep E d' xs \<and> dq_destructor d' = dq_destructor d"
  using rep_pop_front[OF assms] next_slot[OF assms, of "dq_front d"] read_rep[OF assms, of 0]
  by (simp add: pop_front_def on_pop_def is_empty_rep[OF assms] rep_basics[OF assms(1)])

lemma rep_pop_back:
  assumes "rep E d (ys @ [y])" "env_ok I E"
  shows "rep E (d\<lparr>dq_back := (dq_front d + length ys) mod dq_cap d\<rparr>) ys"
  using assms(1) by (auto simp: rep_def nth_append)

lemma pop_back_rep:
  assumes "rep E d (ys @ [y])" "env_ok I E"
  shows "\<exists>d'. pop_back d = Inr (y, d') \<and> rep E d' ys \<and> dq_destructor d' = dq_destructor d"
  using rep_pop_back[OF assms] read_rep[OF assms, of "length ys"]
  by (simp add: pop_back_def on_pop_def is_empty_rep[OF assms] last_index_rep[OF assms]
      rep_basics[OF assms(1)])

lemma assert_nonempty_rep:
  assumes "rep E d xs" "env_ok I E"
  shows "assert_nonempty d r = (if xs = [] then Inl AssertFail else r)"
  by (simp add: assert_nonempty_def is_empty_rep[OF assms] rep_basics[OF assms(1)])

lemma last_index_nonempty:
  assumes "rep E d xs" "env_ok I E" "xs \<noteq> []"
  shows "last_index d = Inr ((dq_front d + length xs - Suc 0) mod dq_cap d)"
  using last_index_rep[of E d "butlast xs" "last xs"] assms by (cases xs rule: rev_cases) simp_all

lemma peek_front_rep:
  assumes "rep E d xs" "env_ok I E"
  shows "peek_front d = (if xs = [] then Inl AssertFail else Inr (hd xs))"
  using read_rep[OF assms, of 0]
  by (auto simp: peek_front_def assert_nonempty_rep[OF assms] hd_conv_nth rep_basics[OF assms(1)])

lemma peek_back_rep:
  assumes "rep E d xs" "env_ok I E"
  shows "peek_back d = (if xs = [] then Inl AssertFail else Inr (last xs))"
  using read_rep[OF assms, of "length xs - 1"] last_index_nonempty[OF assms]
  by (auto simp: peek_back_def assert_nonempty_rep[OF assms] last_conv_nth)

text \<open>Updates at either end, with and without the destructor.\<close>

lemma update_front_rep:
  assumes "rep E d xs" "env_ok I E"
  shows "if xs = [] then update_front y d = Inl AssertFail
    else \<exists>d'. update_front y d = Inr d' \<and> rep E d' (xs[0 := y]) \<and> dq_destructor d' = dq_destructor d"
  using rep_update[OF assms, of 0 y]
  by (auto simp: update_front_def assert_nonempty_rep[OF assms] rep_basics[OF assms(1)])

lemma update_back_rep:
  assumes "rep E d xs" "env_ok I E"
  shows "if xs = [] then update_back y d = Inl AssertFail
    else \<exists>d'. update_back y d = Inr d' \<and> rep E d' (xs[length xs - 1 := y])
      \<and> dq_destructor d' = dq_destructor d"
  using rep_update[OF assms, of "length xs - 1" y] last_index_nonempty[OF assms]
  by (auto simp: update_back_def assert_nonempty_rep[OF assms])

lemma destroy_at_rep:
  assumes "rep E d xs" "env_ok I E" "i < length xs"
  shows "destroy_at ((dq_front d + i) mod dq_cap d) d
    = Inr (case dq_destructor d of None \<Rightarrow> [] | Some f \<Rightarrow> [(f, xs ! i)])"
  using read_rep[OF assms] by (simp add: destroy_at_def split: option.split)

lemma update_and_destroy_front_rep:
  assumes "rep E d xs" "env_ok I E"
  shows "if xs = [] then update_and_destroy_front y d = Inl AssertFail
    else \<exists>d'. update_and_destroy_front y d
        = Inr (case dq_destructor d of None \<Rightarrow> [] | Some f \<Rightarrow> [(f, hd xs)], d')
      \<and> rep E d' (xs[0 := y]) \<and> dq_destructor d' = dq_destructor d"
  using rep_update[OF assms, of 0 y] destroy_at_rep[OF assms, of 0]
  by (auto simp: update_and_destroy_front_def assert_nonempty_rep[OF assms] hd_conv_nth
      rep_basics[OF assms(1)] split: option.split)

lemma update_and_destroy_back_rep:
  assumes "rep E d xs" "env_ok I E"
  shows "if xs = [] then update_and_destroy_back y d = Inl AssertFail
    else \<exists>d'. update_and_destroy_back y d
        = Inr (case dq_destructor d of None \<Rightarrow> [] | Some f \<Rightarrow> [(f, last xs)], d')
      \<and> rep E d' (xs[length xs - 1 := y]) \<and> dq_destructor d' = dq_destructor d"
  using rep_update[OF assms, of "length xs - 1" y] destroy_at_rep[OF assms, of "length xs - 1"]
    last_index_nonempty[OF assms]
  by (auto simp: update_and_destroy_back_def assert_nonempty_rep[OF assms] last_conv_nth
      split: option.split)

text \<open>Emptying and destroying.\<close>

lemma empty_rep:
  assumes "rep E d xs" "env_ok I E"
  shows "\<exists>d'. empty_deque d
      = Inr (case dq_destructor d of None \<Rightarrow> [] | Some f \<Rightarrow> map (Pair f) xs, d')
    \<and> rep E d' [] \<and> dq_destructor d' = dq_destructor d"
  using assms(1) run_destructor_rep[OF assms]
  by (auto simp: empty_deque_def rep_basics[OF assms(1)] rep_def)

lemma destroy_rep:
  assumes "rep E d xs" "env_ok I E"
  shows "destroy_deque d
      = Inr (case dq_destructor d of None \<Rightarrow> [] | Some f \<Rightarrow> map (Pair f) xs, clear_deque d)"
  using assms(1) run_destructor_rep[OF assms] by (auto simp: destroy_deque_def rep_def)

lemma cleared_invalid:
  "dq_data (clear_deque d) = None"
  "assert_valid (clear_deque d) r = Inl AssertFail"
  by (simp_all add: clear_deque_def assert_valid_def)

text \<open>Conversion to an array.\<close>

lemma reallign_rep:
  assumes rep: "rep E d xs" and E: "env_ok I E" and I: "I m"
  shows "ok_or_alloc E m (dq_cap d * elem_size E) (\<lambda>(d', m'). rep E d' xs \<and> dq_front d' = 0 \<and> I m') (reallign E d m)"
proof (cases "dq_front d = 0")
  case True
  then show ?thesis using rep I by (simp add: reallign_def rep_basics[OF rep])
next
  case False
  obtain cs where cs: "dq_data d = Some cs" "length cs = dq_cap d" "dq_front d < dq_cap d"
    "length xs < dq_cap d"
    "\<And>i. i < length xs \<Longrightarrow> cs ! ((dq_front d + i) mod dq_cap d) = Val (xs ! i)"
    "dq_cap d * elem_size E < SIZE_T div 4" "dq_cap d < SIZE_T div 4" "0 < dq_cap d"
    using repE[OF rep E] by metis
  let ?c = "dq_cap d" and ?f = "dq_front d"
  have bytes: "?c * elem_size E < SIZE_T" using cs(6) by (simp add: SIZE_T_def)
  have front: "(?f \<noteq> 0) = True" using False by simp
  note unfold = reallign_def rep_basics(3)[OF rep] front if_True length_rep[OF rep E] and_then.simps
    alloc_array_cases[OF E bytes]
  show ?thesis
  proof (cases "alloc_mem E (?c * elem_size E) m")
    case (Inl e)
    then have "reallign E d m = Inl e" by (simp only: unfold Inl sum.case)
    then show ?thesis using Inl by (auto simp: ok_or_alloc_def)
  next
    case (Inr m')
    have "?f + length xs < SIZE_T" using cs(3,4,7) by (simp add: SIZE_T_def)
    with copy_ring_ok[OF cs(2,8), of "length xs" "replicate ?c Uninit" ?f] cs(4) obtain new where
      new: "copy_ring (Some cs) ?f ?c (length xs) (replicate ?c Uninit) = Inr new"
        "length new = ?c" "\<forall>i<length xs. new ! i = cs ! ((?f + i) mod ?c)" by auto
    let ?d = "d\<lparr>dq_data := Some new, dq_front := 0, dq_back := length xs\<rparr>"
    have "reallign E d m = Inr (?d, m')"
      by (simp only: unfold Inr sum.case prod.case cs(1) new(1))
    moreover have "rep E ?d xs"
      unfolding rep_def using new cs(4-6,8) by simp
    moreover have "I m'"
      using alloc_mem_small[OF E I _ Inr] cs(6) by (simp add: SIZE_T_def)
    ultimately show ?thesis by simp
  qed
qed

lemma as_array_rep:
  fixes d :: "('d, 'a) deque" and E :: "'m alloc_env"
  assumes rep: "rep E d xs" and E: "env_ok I E" and I: "I m"
  shows "ok_or_alloc E m (dq_cap d * elem_size E) (\<lambda>((a, n), d', m'). n = length xs \<and> length xs < length a
      \<and> take n a = map Val xs \<and> dq_data d' = None \<and> I m') (as_array E d m)"
proof -
  have "\<exists>y. and_then (length_deque d1) (\<lambda>len. Inr ((the (dq_data d1), len), clear_deque d1, m1)) = Inr y
      \<and> (case y of ((a, n), d', m') \<Rightarrow> n = length xs \<and> length xs < length a
        \<and> take n a = map Val xs \<and> dq_data d' = None \<and> I m')"
    if r: "rep E d1 xs" "dq_front d1 = 0" "I m1" for d1 :: "('d, 'a) deque" and m1 :: 'm
  proof -
    obtain cs where cs: "dq_data d1 = Some cs" "length cs = dq_cap d1" "length xs < dq_cap d1"
      "\<forall>i<length xs. cs ! ((dq_front d1 + i) mod dq_cap d1) = Val (xs ! i)"
      using r(1) by (auto simp: rep_def)
    then have "take (length xs) cs = map Val xs"
      using r(2) by (intro nth_equalityI) auto
    then show ?thesis using cs r(3) by (simp add: length_rep[OF r(1) E] cleared_invalid)
  qed
  then have "ok_or_alloc E m (dq_cap d * elem_size E) (\<lambda>((a, n), d', m'). n = length xs \<and> length xs < length a
        \<and> take n a = map Val xs \<and> dq_data d' = None \<and> I m')
      (and_then (reallign E d m) (\<lambda>(d, m).
        and_then (length_deque d) (\<lambda>len. Inr ((the (dq_data d), len), clear_deque d, m))))"
    by (intro ok_or_alloc_then[OF reallign_rep[OF rep E I]]) auto
  then show ?thesis by (simp add: as_array_def rep_basics(3)[OF rep])
qed

end
