(* ===== verification/MemoryPool.thy ===== *)
theory MemoryPool
  imports Deque_Correct
begin

text \<open>
  The memory pool of the Quash parser (\<open>quash/src/parsing/memory_pool.c\<close>): a deque of blocks of
  memory, a bump allocator in the last of them, and the release of everything at once. \<open>malloc\<close>
  is a parameter: \<open>mal n h\<close> is the address of a fresh block or \<open>None\<close>, with the next state
  of the heap, and \<open>E\<close> the allocator of the deque's own array. The theory ends with the deque
  macro of \<open>memory_pool.h\<close>, whose text is that of \<open>deque.h\<close> with \<open>malloc\<close>
  replaced by \<open>memory_pool_alloc\<close>.
\<close>

section \<open>The code\<close>

text \<open>Addresses are naturals; 0 is \<open>NULL\<close>.\<close>

record MemoryPool =
  mp_pool :: nat
  mp_size :: nat
  mp_next :: nat

type_synonym 'h malloc = "nat \<Rightarrow> 'h \<Rightarrow> nat option \<times> 'h"

text \<open>The static \<open>pool_deq\<close>, whose destructor is \<open>__destroy_memory_pool\<close>, and the heap.\<close>

record 'h pool_state =
  pool_deq :: "(unit, MemoryPool) deque"
  heap :: 'h

definition init_pool :: "'h malloc \<Rightarrow> nat \<Rightarrow> 'h \<Rightarrow> MemoryPool \<times> 'h" where
  "init_pool mal n h = (if n = 0 then (\<lparr>mp_pool = 0, mp_size = 0, mp_next = 0\<rparr>, h)
     else case mal n h of
       (None, h) \<Rightarrow> (\<lparr>mp_pool = 0, mp_size = 0, mp_next = 0\<rparr>, h)
     | (Some a, h) \<Rightarrow> (\<lparr>mp_pool = a, mp_size = n, mp_next = a\<rparr>, h))"

function low_memory_init_pool :: "'h malloc \<Rightarrow> nat \<Rightarrow> nat \<Rightarrow> 'h \<Rightarrow> stop + (MemoryPool \<times> 'h)" where
  "low_memory_init_pool mal required failed h =
     (if failed \<le> required then Inl AllocFail
      else let f = max (failed div 2) required; (ret, h) = init_pool mal f h in
        if mp_pool ret \<noteq> 0 then Inr (ret, h) else low_memory_init_pool mal required f h)"
  by pat_completeness auto
termination
  by (relation "measure (\<lambda>(_, _, failed, _). failed)") (auto split: prod.splits)

declare low_memory_init_pool.simps [simp del]

definition destroy_pool :: "MemoryPool \<Rightarrow> nat list" where
  "destroy_pool mp = (if mp_pool mp \<noteq> 0 then [mp_pool mp] else [])"

definition initialize_memory_pool ::
  "'h malloc \<Rightarrow> 'h alloc_env \<Rightarrow> nat \<Rightarrow> 'h \<Rightarrow> stop + 'h pool_state" where
  "initialize_memory_pool mal E n h =
     (let n = (if n = 0 then 1 else n) in
      and_then (new_destructable_deque E 10 () h) (\<lambda>(d, h).
      let (pool, h) = init_pool mal n h in
      and_then (if mp_pool pool = 0 then low_memory_init_pool mal 1 n h else Inr (pool, h)) (\<lambda>(pool, h).
      and_then (push_back E pool d h) (\<lambda>(d, h). Inr \<lparr>pool_deq = d, heap = h\<rparr>))))"

text \<open>\<open>2 << k\<close> in \<open>int\<close>, which overflows from \<open>k = 30\<close> on.\<close>

definition two_shl :: "nat \<Rightarrow> stop + nat" where
  "two_shl k = (if k < 30 then Inr (2 ^ Suc k) else Inl Undefined)"

text \<open>One round of the loop of \<open>memory_pool_alloc\<close>: a new last block.\<close>

definition grow_step :: "'h malloc \<Rightarrow> 'h alloc_env \<Rightarrow> nat \<Rightarrow> nat \<Rightarrow> 'h pool_state
    \<Rightarrow> stop + (MemoryPool \<times> 'h pool_state)" where
  "grow_step mal E init_size n st =
     and_then (length_deque (pool_deq st)) (\<lambda>len.
     and_then (two_shl (sz_sub len 1)) (\<lambda>factor.
     let new_size = sz_mul init_size factor in
     and_then (if new_size < n then Inr (init_pool mal 0 (heap st))
       else let (pool, h) = init_pool mal new_size (heap st) in
         if mp_pool pool = 0 then low_memory_init_pool mal n new_size h else Inr (pool, h)) (\<lambda>(pool, h).
     and_then (push_back E pool (pool_deq st) h) (\<lambda>(d, h).
     Inr (pool, \<lparr>pool_deq = d, heap = h\<rparr>)))))"

text \<open>The loop. A round that does not end is \<open>None\<close>.\<close>

partial_function (option) grow :: "'h malloc \<Rightarrow> 'h alloc_env \<Rightarrow> nat \<Rightarrow> nat \<Rightarrow> MemoryPool
    \<Rightarrow> 'h pool_state \<Rightarrow> (stop + (MemoryPool \<times> 'h pool_state)) option" where
  "grow mal E init_size n pool st =
     (if mp_size pool < sz_add (sz_sub (mp_next pool) (mp_pool pool)) n
      then case grow_step mal E init_size n st of
          Inl e \<Rightarrow> Some (Inl e)
        | Inr (pool, st) \<Rightarrow> grow mal E init_size n pool st
      else Some (Inr (pool, st)))"

declare grow.simps [code]

definition assert_that :: "bool \<Rightarrow> stop + 'b \<Rightarrow> stop + 'b" where
  "assert_that b r = (if b then r else Inl AssertFail)"

text \<open>The part before the loop: the last block and the size of the first one.\<close>

definition alloc_start :: "'h pool_state \<Rightarrow> stop + (MemoryPool \<times> nat)" where
  "alloc_start st =
     and_then (is_empty_deque (pool_deq st)) (\<lambda>e. assert_that (\<not> e)
     (and_then (peek_back (pool_deq st)) (\<lambda>pool.
      and_then (peek_front (pool_deq st)) (\<lambda>first.
      assert_that (mp_pool pool \<noteq> 0) (assert_that (mp_size pool \<noteq> 0) (assert_that (mp_next pool \<noteq> 0)
      (Inr (pool, mp_size first))))))))"

text \<open>The part after the loop: the returned address and the update of the last block.\<close>

definition alloc_finish :: "nat \<Rightarrow> MemoryPool \<Rightarrow> 'h pool_state \<Rightarrow> stop + (nat \<times> 'h pool_state)" where
  "alloc_finish n pool st =
     and_then (peek_back (pool_deq st)) (\<lambda>last. assert_that (mp_next pool = mp_next last)
     (and_then (update_back (pool\<lparr>mp_next := sz_add (mp_next pool) n\<rparr>) (pool_deq st))
       (\<lambda>d. Inr (mp_next pool, st\<lparr>pool_deq := d\<rparr>))))"

definition memory_pool_alloc :: "'h malloc \<Rightarrow> 'h alloc_env \<Rightarrow> nat \<Rightarrow> 'h pool_state
    \<Rightarrow> (stop + (nat \<times> 'h pool_state)) option" where
  "memory_pool_alloc mal E n st =
     (case alloc_start st of
        Inl e \<Rightarrow> Some (Inl e)
      | Inr (pool, init_size) \<Rightarrow>
          (case grow mal E init_size n pool st of
             None \<Rightarrow> None
           | Some (Inl e) \<Rightarrow> Some (Inl e)
           | Some (Inr (pool, st)) \<Rightarrow> Some (alloc_finish n pool st)))"

text \<open>The addresses given to \<open>free\<close>, in order.\<close>

definition destroy_memory_pool :: "'h pool_state \<Rightarrow> stop + (nat list \<times> 'h pool_state)" where
  "destroy_memory_pool st =
     and_then (destroy_deque (pool_deq st)) (\<lambda>(calls, d).
     Inr (concat (map (\<lambda>(_, mp). destroy_pool mp) calls), st\<lparr>pool_deq := d\<rparr>))"

text \<open>Bytes of memory, and \<open>strcpy\<close>.\<close>

definition write_bytes :: "nat \<Rightarrow> string \<Rightarrow> (nat \<Rightarrow> char) \<Rightarrow> nat \<Rightarrow> char" where
  "write_bytes a bs mem = (\<lambda>x. if a \<le> x \<and> x < a + length bs then bs ! (x - a) else mem x)"

definition memory_pool_strdup :: "'h malloc \<Rightarrow> 'h alloc_env \<Rightarrow> string \<Rightarrow> 'h pool_state \<Rightarrow> (nat \<Rightarrow> char)
    \<Rightarrow> (stop + (nat \<times> 'h pool_state \<times> (nat \<Rightarrow> char))) option" where
  "memory_pool_strdup mal E str st mem =
     map_option (\<lambda>r. and_then r (\<lambda>(ret, st). Inr (ret, st, write_bytes ret (str @ [CHR 0x00]) mem)))
       (memory_pool_alloc mal E (length str + 1) st)"

text \<open>
  The allocator of the deque macro of \<open>memory_pool.h\<close> for elements of \<open>w\<close> bytes. A loop
  that does not end would leave it without a result; this does not happen
  (\<open>alloc_returns\<close>).
\<close>

definition mp_env :: "'h malloc \<Rightarrow> 'h alloc_env \<Rightarrow> nat \<Rightarrow> 'h pool_state alloc_env" where
  "mp_env mal E w = \<lparr>elem_size = w, alloc_mem = (\<lambda>n st. case memory_pool_alloc mal E n st of
     None \<Rightarrow> Inl Undefined
   | Some (Inl e) \<Rightarrow> Inl e
   | Some (Inr (ret, st)) \<Rightarrow> if ret = 0 then Inl AllocFail else Inr st)\<rparr>"

text \<open>The functions of the macro.\<close>

definition mp_new :: "'h malloc \<Rightarrow> 'h alloc_env \<Rightarrow> nat \<Rightarrow> nat \<Rightarrow> 'h pool_state
    \<Rightarrow> stop + (('d, 'a) deque \<times> 'h pool_state)" where
  "mp_new mal E w = new_deque (mp_env mal E w)"

definition mp_new_destructable :: "'h malloc \<Rightarrow> 'h alloc_env \<Rightarrow> nat \<Rightarrow> nat \<Rightarrow> 'd \<Rightarrow> 'h pool_state
    \<Rightarrow> stop + (('d, 'a) deque \<times> 'h pool_state)" where
  "mp_new_destructable mal E w = new_destructable_deque (mp_env mal E w)"

definition mp_destroy :: "('d, 'a) deque \<Rightarrow> stop + (('d \<times> 'a) list \<times> ('d, 'a) deque)" where
  "mp_destroy = destroy_deque"

definition mp_empty :: "('d, 'a) deque \<Rightarrow> stop + (('d \<times> 'a) list \<times> ('d, 'a) deque)" where
  "mp_empty = empty_deque"

definition mp_is_empty :: "('d, 'a) deque \<Rightarrow> stop + bool" where
  "mp_is_empty = is_empty_deque"

definition mp_length :: "('d, 'a) deque \<Rightarrow> stop + nat" where
  "mp_length = length_deque"

definition mp_reallign :: "'h malloc \<Rightarrow> 'h alloc_env \<Rightarrow> nat \<Rightarrow> ('d, 'a) deque \<Rightarrow> 'h pool_state
    \<Rightarrow> stop + (('d, 'a) deque \<times> 'h pool_state)" where
  "mp_reallign mal E w = reallign (mp_env mal E w)"

definition mp_as_array :: "'h malloc \<Rightarrow> 'h alloc_env \<Rightarrow> nat \<Rightarrow> ('d, 'a) deque \<Rightarrow> 'h pool_state
    \<Rightarrow> stop + (('a cell list \<times> nat) \<times> ('d, 'a) deque \<times> 'h pool_state)" where
  "mp_as_array mal E w = as_array (mp_env mal E w)"

definition mp_apply :: "'f \<Rightarrow> ('d, 'a) deque \<Rightarrow> stop + ('f \<times> 'a) list" where
  "mp_apply = apply_deque"

definition mp_on_push :: "'h malloc \<Rightarrow> 'h alloc_env \<Rightarrow> nat \<Rightarrow> ('d, 'a) deque \<Rightarrow> 'h pool_state
    \<Rightarrow> stop + (('d, 'a) deque \<times> 'h pool_state)" where
  "mp_on_push mal E w = on_push (mp_env mal E w)"

definition mp_on_pop :: "('d, 'a) deque \<Rightarrow> stop + unit" where
  "mp_on_pop = on_pop"

definition mp_push_front :: "'h malloc \<Rightarrow> 'h alloc_env \<Rightarrow> nat \<Rightarrow> 'a \<Rightarrow> ('d, 'a) deque \<Rightarrow> 'h pool_state
    \<Rightarrow> stop + (('d, 'a) deque \<times> 'h pool_state)" where
  "mp_push_front mal E w = push_front (mp_env mal E w)"

definition mp_push_back :: "'h malloc \<Rightarrow> 'h alloc_env \<Rightarrow> nat \<Rightarrow> 'a \<Rightarrow> ('d, 'a) deque \<Rightarrow> 'h pool_state
    \<Rightarrow> stop + (('d, 'a) deque \<times> 'h pool_state)" where
  "mp_push_back mal E w = push_back (mp_env mal E w)"

definition mp_pop_front :: "('d, 'a) deque \<Rightarrow> stop + ('a \<times> ('d, 'a) deque)" where
  "mp_pop_front = pop_front"

definition mp_pop_back :: "('d, 'a) deque \<Rightarrow> stop + ('a \<times> ('d, 'a) deque)" where
  "mp_pop_back = pop_back"

definition mp_peek_front :: "('d, 'a) deque \<Rightarrow> stop + 'a" where
  "mp_peek_front = peek_front"

definition mp_peek_back :: "('d, 'a) deque \<Rightarrow> stop + 'a" where
  "mp_peek_back = peek_back"

definition mp_update_front :: "'a \<Rightarrow> ('d, 'a) deque \<Rightarrow> stop + ('d, 'a) deque" where
  "mp_update_front = update_front"

definition mp_update_back :: "'a \<Rightarrow> ('d, 'a) deque \<Rightarrow> stop + ('d, 'a) deque" where
  "mp_update_back = update_back"

definition mp_update_and_destroy_front ::
  "'a \<Rightarrow> ('d, 'a) deque \<Rightarrow> stop + (('d \<times> 'a) list \<times> ('d, 'a) deque)" where
  "mp_update_and_destroy_front = update_and_destroy_front"

definition mp_update_and_destroy_back ::
  "'a \<Rightarrow> ('d, 'a) deque \<Rightarrow> stop + (('d \<times> 'a) list \<times> ('d, 'a) deque)" where
  "mp_update_and_destroy_back = update_and_destroy_back"

lemmas mp_defs = mp_new_def mp_new_destructable_def mp_destroy_def mp_empty_def mp_is_empty_def
  mp_length_def mp_reallign_def mp_as_array_def mp_apply_def mp_on_push_def mp_on_pop_def
  mp_push_front_def mp_push_back_def mp_pop_front_def mp_pop_back_def mp_peek_front_def
  mp_peek_back_def mp_update_front_def mp_update_back_def mp_update_and_destroy_front_def
  mp_update_and_destroy_back_def

end
