(* ===== verification/Deque_Client.thy ===== *)
theory Deque_Client
  imports Deque_Correct
begin

text \<open>
  What the users of \<open>quash/src/deque.h\<close> rely on. \<open>exec\<close> runs one operation of the macro's
  interface on the ring buffer and \<open>spec\<close> the same operation on a list; every sequence of
  operations refines the list. The interface \<open>deque_ends\<close> states the laws of one pushing and one
  popping end; queues and stacks are the clients.
\<close>

section \<open>The interface as operations on a list\<close>

datatype 'a deque_op = IsEmpty | Length | PushFront 'a | PushBack 'a | PopFront | PopBack
  | PeekFront | PeekBack | UpdateFront 'a | UpdateBack 'a
  | UpdateDestroyFront 'a | UpdateDestroyBack 'a | EmptyAll

datatype 'a out = Done | Elem 'a | Num nat | Flag bool

text \<open>One operation: the calls of the destructor, the result, the deque and the memory.\<close>

type_synonym ('d, 'a) answer = "('d \<times> 'a) list \<times> 'a out"

fun exec :: "'m alloc_env \<Rightarrow> 'a deque_op \<Rightarrow> ('d, 'a) deque \<Rightarrow> 'm
    \<Rightarrow> stop + (('d, 'a) answer \<times> ('d, 'a) deque \<times> 'm)" where
  "exec E IsEmpty d m = and_then (is_empty_deque d) (\<lambda>b. Inr (([], Flag b), d, m))"
| "exec E Length d m = and_then (length_deque d) (\<lambda>n. Inr (([], Num n), d, m))"
| "exec E (PushFront x) d m = and_then (push_front E x d m) (\<lambda>(d, m). Inr (([], Done), d, m))"
| "exec E (PushBack x) d m = and_then (push_back E x d m) (\<lambda>(d, m). Inr (([], Done), d, m))"
| "exec E PopFront d m = and_then (pop_front d) (\<lambda>(x, d). Inr (([], Elem x), d, m))"
| "exec E PopBack d m = and_then (pop_back d) (\<lambda>(x, d). Inr (([], Elem x), d, m))"
| "exec E PeekFront d m = and_then (peek_front d) (\<lambda>x. Inr (([], Elem x), d, m))"
| "exec E PeekBack d m = and_then (peek_back d) (\<lambda>x. Inr (([], Elem x), d, m))"
| "exec E (UpdateFront x) d m = and_then (update_front x d) (\<lambda>d. Inr (([], Done), d, m))"
| "exec E (UpdateBack x) d m = and_then (update_back x d) (\<lambda>d. Inr (([], Done), d, m))"
| "exec E (UpdateDestroyFront x) d m =
     and_then (update_and_destroy_front x d) (\<lambda>(cs, d). Inr ((cs, Done), d, m))"
| "exec E (UpdateDestroyBack x) d m =
     and_then (update_and_destroy_back x d) (\<lambda>(cs, d). Inr ((cs, Done), d, m))"
| "exec E EmptyAll d m = and_then (empty_deque d) (\<lambda>(cs, d). Inr ((cs, Done), d, m))"

definition destroyed :: "'d option \<Rightarrow> 'a list \<Rightarrow> ('d \<times> 'a) list" where
  "destroyed f xs = (case f of None \<Rightarrow> [] | Some g \<Rightarrow> map (Pair g) xs)"

fun spec :: "'d option \<Rightarrow> 'a deque_op \<Rightarrow> 'a list \<Rightarrow> stop + (('d, 'a) answer \<times> 'a list)" where
  "spec f IsEmpty xs = Inr (([], Flag (xs = [])), xs)"
| "spec f Length xs = Inr (([], Num (length xs)), xs)"
| "spec f (PushFront x) xs = Inr (([], Done), x # xs)"
| "spec f (PushBack x) xs = Inr (([], Done), xs @ [x])"
| "spec f PopFront xs = (if xs = [] then Inl PopEmpty else Inr (([], Elem (hd xs)), tl xs))"
| "spec f PopBack xs = (if xs = [] then Inl PopEmpty else Inr (([], Elem (last xs)), butlast xs))"
| "spec f PeekFront xs = (if xs = [] then Inl AssertFail else Inr (([], Elem (hd xs)), xs))"
| "spec f PeekBack xs = (if xs = [] then Inl AssertFail else Inr (([], Elem (last xs)), xs))"
| "spec f (UpdateFront x) xs =
     (if xs = [] then Inl AssertFail else Inr (([], Done), xs[0 := x]))"
| "spec f (UpdateBack x) xs =
     (if xs = [] then Inl AssertFail else Inr (([], Done), xs[length xs - 1 := x]))"
| "spec f (UpdateDestroyFront x) xs =
     (if xs = [] then Inl AssertFail else Inr ((destroyed f [hd xs], Done), xs[0 := x]))"
| "spec f (UpdateDestroyBack x) xs = (if xs = [] then Inl AssertFail
     else Inr ((destroyed f [last xs], Done), xs[length xs - 1 := x]))"
| "spec f EmptyAll xs = Inr ((destroyed f xs, Done), [])"

text \<open>A sequence of operations: the answers, or the error that stopped the program.\<close>

fun exec_all :: "'m alloc_env \<Rightarrow> 'a deque_op list \<Rightarrow> ('d, 'a) deque \<Rightarrow> 'm
    \<Rightarrow> stop + (('d, 'a) answer list \<times> ('d, 'a) deque \<times> 'm)" where
  "exec_all E [] d m = Inr ([], d, m)"
| "exec_all E (p # ps) d m =
     and_then (exec E p d m) (\<lambda>(a, d, m).
     and_then (exec_all E ps d m) (\<lambda>(as, d, m). Inr (a # as, d, m)))"

fun spec_all :: "'d option \<Rightarrow> 'a deque_op list \<Rightarrow> 'a list
    \<Rightarrow> stop + (('d, 'a) answer list \<times> 'a list)" where
  "spec_all f [] xs = Inr ([], xs)"
| "spec_all f (p # ps) xs =
     and_then (spec f p xs) (\<lambda>(a, xs).
     and_then (spec_all f ps xs) (\<lambda>(as, xs). Inr (a # as, xs)))"

text \<open>The concrete result is the abstract one, or an allocation of at most \<open>B\<close> bytes has failed.\<close>

definition can_fail :: "'m alloc_env \<Rightarrow> nat \<Rightarrow> stop \<Rightarrow> bool" where
  "can_fail E B e \<longleftrightarrow> (\<exists>n\<le>B. \<exists>m. alloc_mem E n m = Inl e)"

definition agrees :: "('m \<Rightarrow> bool) \<Rightarrow> 'm alloc_env \<Rightarrow> nat \<Rightarrow> 'd option \<Rightarrow> stop + ('x \<times> ('d, 'a) deque \<times> 'm)
    \<Rightarrow> stop + ('x \<times> 'a list) \<Rightarrow> bool" where
  "agrees I E B f r s \<longleftrightarrow> (case r of
     Inl e \<Rightarrow> s = Inl e \<or> can_fail E B e
   | Inr (a, d, m) \<Rightarrow> \<exists>xs. s = Inr (a, xs) \<and> rep E d xs \<and> dq_destructor d = f \<and> I m)"

lemma agrees_simps [simp]:
  "agrees I E B f (Inl e) s \<longleftrightarrow> s = Inl e \<or> can_fail E B e"
  "agrees I E B f (Inr (a, d, m)) s \<longleftrightarrow> (\<exists>xs. s = Inr (a, xs) \<and> rep E d xs \<and> dq_destructor d = f \<and> I m)"
  by (simp_all add: agrees_def)

lemma agrees_push:
  assumes "ok_or_alloc E m B' (\<lambda>(d', m'). rep E d' ys \<and> dq_destructor d' = f \<and> I m') r" "B' \<le> B"
  shows "agrees I E B f (and_then r (\<lambda>(d, m). Inr (a, d, m))) (Inr (a, ys))"
  using assms by (cases r) (auto simp: can_fail_def intro: le_trans)

lemma exec_agrees:
  assumes rep: "rep E d xs" and E: "env_ok I E" and I: "I m" and B: "2 * Suc (length xs) * elem_size E \<le> B"
  shows "agrees I E B (dq_destructor d) (exec E p d m) (spec (dq_destructor d) p xs)"
proof (cases p)
  case (PushFront x)
  then show ?thesis using agrees_push[OF push_front_rep[OF rep E I] B] by simp
next
  case (PushBack x)
  then show ?thesis using agrees_push[OF push_back_rep[OF rep E I] B] by simp
next
  case PopFront
  show ?thesis
  proof (cases xs)
    case Nil
    then show ?thesis using PopFront pop_empty_rep[of E d] rep E I by simp
  next
    case (Cons x ys)
    then show ?thesis using PopFront pop_front_rep[of E d x ys I] rep E I by auto
  qed
next
  case PopBack
  show ?thesis
  proof (cases xs rule: rev_cases)
    case Nil
    then show ?thesis using PopBack pop_empty_rep[of E d] rep E I by simp
  next
    case (snoc ys y)
    then show ?thesis using PopBack pop_back_rep[of E d ys y I] rep E I by auto
  qed
next
  case (UpdateFront x)
  then show ?thesis using I update_front_rep[OF rep E, of x] by (auto split: if_splits)
next
  case (UpdateBack x)
  then show ?thesis using I update_back_rep[OF rep E, of x] by (auto split: if_splits)
next
  case (UpdateDestroyFront x)
  then show ?thesis using I update_and_destroy_front_rep[OF rep E, of x]
    by (auto simp: destroyed_def split: if_splits option.splits)
next
  case (UpdateDestroyBack x)
  then show ?thesis using I update_and_destroy_back_rep[OF rep E, of x]
    by (auto simp: destroyed_def split: if_splits option.splits)
next
  case EmptyAll
  then show ?thesis using I empty_rep[OF rep E] by (auto simp: destroyed_def)
qed (use rep I in \<open>auto simp: is_empty_rep[OF rep E] length_rep[OF rep E] peek_front_rep[OF rep E]
      peek_back_rep[OF rep E]\<close>)

lemma spec_length: "spec f p xs = Inr (a, ys) \<Longrightarrow> length ys \<le> Suc (length xs)"
  by (cases p) (auto split: if_splits)

lemma exec_all_agrees:
  assumes "env_ok I E"
  shows "rep E d xs \<Longrightarrow> dq_destructor d = f \<Longrightarrow> I m
    \<Longrightarrow> 2 * Suc (length xs + length ps) * elem_size E \<le> B
    \<Longrightarrow> agrees I E B f (exec_all E ps d m) (spec_all f ps xs)"
proof (induction ps arbitrary: d xs m)
  case Nil
  then show ?case by simp
next
  case (Cons p ps)
  have "2 * Suc (length xs) * elem_size E \<le> 2 * Suc (length xs + length (p # ps)) * elem_size E"
    by (intro mult_le_mono) simp_all
  then have step: "agrees I E B f (exec E p d m) (spec f p xs)"
    using exec_agrees[OF Cons.prems(1) assms Cons.prems(3), of B p] Cons.prems(2,4) by simp
  show ?case
  proof (cases "exec E p d m")
    case (Inl e)
    then show ?thesis using step by auto
  next
    case (Inr r)
    obtain a d' m' where r: "r = (a, d', m')" by (cases r)
    obtain ys where ys: "spec f p xs = Inr (a, ys)" "rep E d' ys" "dq_destructor d' = f" "I m'"
      using step Inr r by auto
    have "2 * Suc (length ys + length ps) * elem_size E
        \<le> 2 * Suc (length xs + length (p # ps)) * elem_size E"
      by (intro mult_le_mono) (use spec_length[OF ys(1)] in simp_all)
    then have "2 * Suc (length ys + length ps) * elem_size E \<le> B" using Cons.prems(4) by simp
    from Cons.IH[OF ys(2-4) this] show ?thesis
      using Inr r ys(1) by (cases "exec_all E ps d' m'") auto
  qed
qed

section \<open>One end to push to and one to pop from\<close>

text \<open>
  The interface of a deque used at one end each for pushing and for popping. \<open>add\<close> is what
  pushing does to the list.
\<close>

primrec feed :: "('a \<Rightarrow> 's \<Rightarrow> 'e + 's) \<Rightarrow> 'a list \<Rightarrow> 's \<Rightarrow> 'e + 's" where
  "feed push [] s = Inr s"
| "feed push (x # xs) s = and_then (push x s) (feed push xs)"

primrec drain :: "('s \<Rightarrow> 'e + 'a \<times> 's) \<Rightarrow> nat \<Rightarrow> 's \<Rightarrow> 'e + 'a list \<times> 's" where
  "drain pop 0 s = Inr ([], s)"
| "drain pop (Suc n) s =
     and_then (pop s) (\<lambda>(x, s). and_then (drain pop n s) (\<lambda>(xs, s). Inr (x # xs, s)))"

locale deque_ends =
  fixes holds :: "'s \<Rightarrow> 'a list \<Rightarrow> bool"
    and push :: "'a \<Rightarrow> 's \<Rightarrow> 'e + 's"
    and pop :: "'s \<Rightarrow> 'e + ('a \<times> 's)"
    and add :: "'a \<Rightarrow> 'a list \<Rightarrow> 'a list"
    and underflow :: 'e
  assumes push_holds: "\<lbrakk> holds s xs; push x s = Inr s' \<rbrakk> \<Longrightarrow> holds s' (add x xs)"
    and pop_holds: "holds s (x # xs) \<Longrightarrow> \<exists>s'. pop s = Inr (x, s') \<and> holds s' xs"
    and pop_underflow: "holds s [] \<Longrightarrow> pop s = Inl underflow"
begin

lemma feed_holds: "\<lbrakk> holds s xs; feed push ys s = Inr s' \<rbrakk> \<Longrightarrow> holds s' (fold add ys xs)"
proof (induction ys arbitrary: s xs)
  case (Cons y ys)
  then show ?case by (auto simp: and_then_eq_Inr dest: push_holds)
qed simp

lemma drain_holds:
  "\<lbrakk> holds s xs; n \<le> length xs \<rbrakk> \<Longrightarrow> \<exists>s'. drain pop n s = Inr (take n xs, s') \<and> holds s' (drop n xs)"
proof (induction n arbitrary: s xs)
  case (Suc n)
  then obtain x ys where xs: "xs = x # ys" by (cases xs) auto
  then obtain s1 where "pop s = Inr (x, s1)" "holds s1 ys" using pop_holds Suc.prems(1) by blast
  then show ?case using Suc.IH[of s1 ys] Suc.prems(2) xs by auto
qed simp

text \<open>Everything that was pushed comes out, in the order of \<open>add\<close>, and then nothing.\<close>

lemma feed_drain:
  assumes "holds s []" "feed push ys s = Inr s'" "length (fold add ys []) = length ys"
  shows "\<exists>t. drain pop (length ys) s' = Inr (fold add ys [], t) \<and> pop t = Inl underflow"
  using drain_holds[OF feed_holds[OF assms(1,2)], of "length ys"] assms(3) pop_underflow by auto

end

definition holds :: "('m \<Rightarrow> bool) \<Rightarrow> 'm alloc_env \<Rightarrow> (('d, 'a) deque \<times> 'm) \<Rightarrow> 'a list \<Rightarrow> bool" where
  "holds I E = (\<lambda>(d, m) xs. env_ok I E \<and> rep E d xs \<and> I m)"

definition pop_with :: "(('d, 'a) deque \<Rightarrow> stop + ('a \<times> ('d, 'a) deque))
    \<Rightarrow> (('d, 'a) deque \<times> 'm) \<Rightarrow> stop + ('a \<times> ('d, 'a) deque \<times> 'm)" where
  "pop_with f = (\<lambda>(d, m). and_then (f d) (\<lambda>(x, d). Inr (x, d, m)))"

interpretation fifo: deque_ends "holds I E" "\<lambda>x (d, m). push_back E x d m" "pop_with pop_front"
  "\<lambda>x xs. xs @ [x]" PopEmpty
  for I and E :: "'m alloc_env"
proof (unfold_locales, goal_cases)
  case (1 s xs x s')
  then show ?case using push_back_rep[of E "fst s" xs I "snd s" x] by (auto simp: holds_def)
next
  case (2 s x xs)
  then show ?case using pop_front_rep[of E "fst s" x xs I] by (auto simp: holds_def pop_with_def)
next
  case (3 s)
  then show ?case using pop_empty_rep[of E "fst s"] by (auto simp: holds_def pop_with_def)
qed

interpretation lifo: deque_ends "holds I E" "\<lambda>x (d, m). push_front E x d m" "pop_with pop_front"
  "(#)" PopEmpty
  for I and E :: "'m alloc_env"
proof (unfold_locales, goal_cases)
  case (1 s xs x s')
  then show ?case using push_front_rep[of E "fst s" xs I "snd s" x] by (auto simp: holds_def)
qed (rule fifo.pop_holds, assumption, rule fifo.pop_underflow, assumption)

lemma fold_snoc: "fold (\<lambda>x xs. xs @ [x]) ys zs = zs @ ys"
  by (induction ys arbitrary: zs) simp_all

lemma fold_Cons: "fold (#) ys zs = rev ys @ zs"
  by (induction ys arbitrary: zs) simp_all

section \<open>Properties\<close>

lemmas deque_op_defs = is_empty_deque_def length_deque_def push_front_def push_back_def
  pop_front_def pop_back_def peek_front_def peek_back_def update_front_def update_back_def
  update_and_destroy_front_def update_and_destroy_back_def empty_deque_def assert_nonempty_def

lemma new_exec_agrees:
  assumes E: "env_ok I E"
    and r: "ok_or_alloc E m (max k 1 * elem_size E)
      (\<lambda>(d, m'). rep E d [] \<and> dq_destructor d = f \<and> I m') r"
  shows "agrees I E (2 * (k + length ps + 1) * elem_size E) f
    (and_then r (\<lambda>(d, m). exec_all E ps d m)) (spec_all f ps [])"
proof (cases r)
  case (Inl e)
  have "max k 1 * elem_size E \<le> 2 * (k + length ps + 1) * elem_size E"
    by (intro mult_le_mono) auto
  then show ?thesis using r Inl by (auto simp: can_fail_def intro: le_trans)
next
  case (Inr p)
  obtain d m' where p: "p = (d, m')" by (cases p)
  have "2 * Suc (length ([] :: 'b list) + length ps) * elem_size E
      \<le> 2 * (k + length ps + 1) * elem_size E"
    by (intro mult_le_mono) auto
  then show ?thesis using exec_all_agrees[OF E, of d "[]" f m' ps] r Inr p by simp
qed

text \<open>An allocator without a limit of its own below a quarter of the address space.\<close>

definition plain_env :: "nat \<Rightarrow> unit alloc_env" where
  "plain_env w = \<lparr>elem_size = w,
     alloc_mem = (\<lambda>n m. if n < SIZE_T div 4 then Inr m else Inl AllocFail)\<rparr>"

lemma plain_env_ok [simp]: "env_ok I (plain_env w) \<longleftrightarrow> 0 < w"
  by (auto simp: env_ok_def plain_env_def split: if_splits)

lemma plain_env_sel [simp]: "elem_size (plain_env w) = w"
  by (simp add: plain_env_def)

lemma copy_ring_numeral:
  "copy_ring old f c (numeral k) new =
     and_then (copy_ring old f c (pred_numeral k) new) (\<lambda>new.
     and_then (if c = 0 then Inl Undefined else read_cell old (sz_add f (pred_numeral k) mod c)) (\<lambda>cell.
     if pred_numeral k < length new then Inr (new[pred_numeral k := cell]) else Inl Undefined))"
  by (simp add: numeral_eq_Suc)

lemma exec_invalid: "dq_data d = None \<Longrightarrow> exec E p d m = Inl AssertFail"
  by (cases p) (simp_all add: deque_op_defs assert_valid_def)

lemma new_destructable_rep:
  assumes "env_ok I E" "I m" "max k 1 * elem_size E < SIZE_T div 2"
  shows "ok_or_alloc E m (max k 1 * elem_size E)
    (\<lambda>(d, m'). rep E d [] \<and> dq_destructor d = Some f \<and> I m')
    (new_destructable_deque E k f m)"
  unfolding new_destructable_deque_def
  by (rule ok_or_alloc_then[OF new_rep[OF assms]]) (auto simp: rep_def)

lemma max_small:
  fixes k :: nat
  assumes "2 * (k + n + 1) * w < SIZE_T div 2"
  shows "max k 1 * w < SIZE_T div 2"
proof -
  have "max k 1 * w \<le> 2 * (k + n + 1) * w" by (intro mult_le_mono) auto
  then show ?thesis using assms by linarith
qed

text \<open>
  C12. Every sequence of operations on a fresh deque, with or without a destructor, behaves like
  the same operations on a list: the answers, the calls of the destructor and the failures
  (popping from an empty deque, peeking at or updating one) are those of the list. The only other
  outcome is that the allocator refuses a request, and no request exceeds twice the space of the
  initial capacity and the operations, so growing never reads or writes outside the array.\<close>

theorem deque_refines_list:
  assumes "env_ok I E" "2 * (k + length ps + 1) * elem_size E < SIZE_T div 2" "I m"
  shows "agrees I E (2 * (k + length ps + 1) * elem_size E) None
      (and_then (new_deque E k m) (\<lambda>(d, m). exec_all E ps d m)) (spec_all None ps [])
    \<and> agrees I E (2 * (k + length ps + 1) * elem_size E) (Some f)
      (and_then (new_destructable_deque E k f m) (\<lambda>(d, m). exec_all E ps d m))
      (spec_all (Some f) ps [])"
proof (rule conjI)
  note small = assms(1,3) max_small[OF assms(2)]
  show "agrees I E (2 * (k + length ps + 1) * elem_size E) None
      (and_then (new_deque E k m) (\<lambda>(d, m). exec_all E ps d m)) (spec_all None ps [])"
    by (rule new_exec_agrees[OF assms(1) new_rep[OF small]])
  show "agrees I E (2 * (k + length ps + 1) * elem_size E) (Some f)
      (and_then (new_destructable_deque E k f m) (\<lambda>(d, m). exec_all E ps d m))
      (spec_all (Some f) ps [])"
    by (rule new_exec_agrees[OF assms(1) new_destructable_rep[OF small]])
qed

theorem deque_refines_list_witness:
  "agrees (\<lambda>_. True) (plain_env 8) 112 (None :: unit option)
      (and_then (new_deque (plain_env 8) 1 ()) (\<lambda>(d, m). exec_all (plain_env 8)
        [PushBack (1::int), PushFront 2, PushBack 3, PopFront, PopBack] d m))
      (spec_all None [PushBack 1, PushFront 2, PushBack 3, PopFront, PopBack] [])
    \<and> spec_all (None :: unit option) [PushBack (1::int), PushFront 2, PushBack 3, PopFront, PopBack] []
      = Inr ([([], Done), ([], Done), ([], Done), ([], Elem 2), ([], Elem 3)], [1])"
proof (rule conjI)
  let ?ps = "[PushBack (1::int), PushFront 2, PushBack 3, PopFront, PopBack]"
  have "agrees (\<lambda>_. True) (plain_env 8) (2 * (1 + length ?ps + 1) * elem_size (plain_env 8)) (None :: unit option)
      (and_then (new_deque (plain_env 8) 1 ()) (\<lambda>(d, m). exec_all (plain_env 8) ?ps d m))
      (spec_all None ?ps [])"
    by (rule deque_refines_list[THEN conjunct1]) (simp_all add: SIZE_T_def)
  then show "agrees (\<lambda>_. True) (plain_env 8) 112 (None :: unit option)
      (and_then (new_deque (plain_env 8) 1 ()) (\<lambda>(d, m). exec_all (plain_env 8) ?ps d m))
      (spec_all None ?ps [])"
    by (simp del: exec_all.simps spec_all.simps)
qed simp

text \<open>
  A deque that is pushed at the back and popped at the front is a queue, and one that is
  pushed and popped at the front is a stack: after pushing \<open>ys\<close> to an empty deque, \<open>length ys\<close>
  pops return \<open>ys\<close> in the order of pushing, or in the opposite one, and the next pop stops with
  the error for popping an empty structure.\<close>

theorem deque_fifo_lifo:
  assumes "env_ok I E" "rep E d []" "I m"
  shows "(feed (\<lambda>x (d, m). push_back E x d m) ys (d, m) = Inr s \<longrightarrow>
      (\<exists>t. drain (pop_with pop_front) (length ys) s = Inr (ys, t)
        \<and> pop_with pop_front t = Inl PopEmpty))
    \<and> (feed (\<lambda>x (d, m). push_front E x d m) ys (d, m) = Inr s \<longrightarrow>
      (\<exists>t. drain (pop_with pop_front) (length ys) s = Inr (rev ys, t)
        \<and> pop_with pop_front t = Inl PopEmpty))"
  using fifo.feed_drain[of I E "(d, m)" ys s] lifo.feed_drain[of I E "(d, m)" ys s] assms
  by (simp add: holds_def fold_snoc fold_Cons)

theorem deque_fifo_lifo_witness:
  "\<exists>d :: (unit, int) deque. new_deque (plain_env 8) 1 () = Inr (d, ()) \<and>
     (\<exists>s. feed (\<lambda>x (d, m). push_back (plain_env 8) x d m) [5, 6, 7] (d, ()) = Inr s
       \<and> (\<exists>t. drain (pop_with pop_front) 3 s = Inr ([5, 6, 7], t)
         \<and> pop_with pop_front t = Inl PopEmpty))"
proof -
  let ?d = "\<lparr>dq_data = Some [Uninit], dq_cap = 1, dq_front = 0, dq_back = 0, dq_destructor = None\<rparr>
    :: (unit, int) deque"
  let ?s = "(\<lparr>dq_data = Some [Val 5, Val 6, Val 7, Uninit], dq_cap = 4, dq_front = 0, dq_back = 3,
    dq_destructor = None\<rparr> :: (unit, int) deque, ())"
  have new: "new_deque (plain_env 8) 1 () = Inr (?d, ())"
    by (simp add: new_deque_def alloc_array_def plain_env_def sz_mul_def SIZE_T_def)
  have rep: "rep (plain_env 8) ?d []" by (simp add: rep_def SIZE_T_def)
  have run: "feed (\<lambda>x (d, m). push_back (plain_env 8) x d m) [5, 6, 7] (?d, ()) = Inr ?s"
    by (simp add: push_back_def on_push_def deque_defs alloc_array_def plain_env_def sz_mul_def
        sz_add_def sz_sub_def SIZE_T_def Let_def nat_literals copy_ring_numeral)
  show ?thesis
    using deque_fifo_lifo[OF _ rep, of "\<lambda>_. True", THEN conjunct1, rule_format, OF _ _ run] new run
    by (simp del: feed.simps drain.simps add: numeral_3_eq_3)
qed

text \<open>
  Converting a deque to an array after any sequence of operations gives the elements in the
  order of the list, from index 0 on, with their number, whatever the position of the ring in its
  buffer; the deque is invalid afterwards, and every further operation fails its assertion.\<close>

theorem deque_as_array:
  assumes "env_ok I E" "rep E d []" "dq_destructor d = f" "I m" "spec_all f ps [] = Inr (as, xs)"
    "exec_all E ps d m = Inr (as', d', m')"
  shows "ok_or_alloc E m' (dq_cap d' * elem_size E) (\<lambda>((a, n), d2, _). n = length xs
      \<and> take n a = map Val xs \<and> (\<forall>p. exec E p d2 m = Inl AssertFail)) (as_array E d' m')"
proof -
  have "agrees I E (2 * Suc (length ([] :: 'b list) + length ps) * elem_size E) f
      (exec_all E ps d m) (spec_all f ps [])"
    by (rule exec_all_agrees[OF assms(1-4)]) simp
  then have d': "rep E d' xs" "I m'" using assms(5,6) by auto
  then have "ok_or_alloc E m' (dq_cap d' * elem_size E) (\<lambda>((a, n), d2, m''). n = length xs
      \<and> length xs < length a \<and> take n a = map Val xs \<and> dq_data d2 = None \<and> I m'') (as_array E d' m')"
    by (intro as_array_rep[OF _ assms(1)] d')
  then show ?thesis by (auto simp: ok_or_alloc_def exec_invalid split: sum.splits)
qed

theorem deque_as_array_witness:
  "ok_or_alloc (plain_env 8) () 32 (\<lambda>((a, n), d2, _). n = Suc (Suc 0) \<and> take n a = [Val 6, Val (5 :: int)]
      \<and> (\<forall>p. exec (plain_env 8) p d2 () = Inl AssertFail))
    (as_array (plain_env 8) (\<lparr>dq_data = Some [Val 5, Uninit, Uninit, Val 6], dq_cap = 4, dq_front = 3,
      dq_back = 1, dq_destructor = None\<rparr> :: (unit, int) deque) ())"
proof -
  let ?d = "\<lparr>dq_data = Some [Uninit], dq_cap = 1, dq_front = 0, dq_back = 0, dq_destructor = None\<rparr>
    :: (unit, int) deque"
  let ?d' = "\<lparr>dq_data = Some [Val 5, Uninit, Uninit, Val 6], dq_cap = 4, dq_front = 3,
      dq_back = 1, dq_destructor = None\<rparr> :: (unit, int) deque"
  have rep: "rep (plain_env 8) ?d []" by (simp add: rep_def SIZE_T_def)
  have run: "exec_all (plain_env 8) [PushBack 5, PushFront 6] ?d () = Inr ([([], Done), ([], Done)], ?d', ())"
    by (simp add: push_back_def push_front_def on_push_def deque_defs alloc_array_def plain_env_def
        sz_mul_def sz_add_def sz_sub_def SIZE_T_def Let_def nat_literals copy_ring_numeral)
  show ?thesis
    using deque_as_array[OF _ rep _ _ _ run, of "\<lambda>_. True" None "[([], Done), ([], Done)]" "[6, 5]"]
    by simp
qed

text \<open>
  Destroying a deque calls its destructor exactly once on every element, from the front to the
  back, and never without one; afterwards the deque is invalid, destroying it again does nothing,
  and \<open>empty\<close> makes the same calls but leaves a deque that can be used.\<close>

theorem deque_destroys_once:
  assumes "env_ok I E" "rep E d xs"
  shows "destroy_deque d = Inr (destroyed (dq_destructor d) xs, clear_deque d)
    \<and> destroy_deque (clear_deque d) = Inr ([], clear_deque d)
    \<and> exec E p (clear_deque d) m = Inl AssertFail
    \<and> (\<exists>d'. empty_deque d = Inr (destroyed (dq_destructor d) xs, d') \<and> rep E d' [])"
  using destroy_rep[OF assms(2,1)] empty_rep[OF assms(2,1)]
  by (auto simp: destroyed_def exec_invalid cleared_invalid destroy_deque_def[of "clear_deque d"])

theorem deque_destroys_once_witness:
  "destroy_deque (\<lparr>dq_data = Some [Val 5, Uninit, Uninit, Val 6], dq_cap = 4, dq_front = 3,
      dq_back = 1, dq_destructor = Some ''free''\<rparr> :: (string, int) deque)
    = Inr ([(''free'', 6), (''free'', 5)],
      \<lparr>dq_data = None, dq_cap = 0, dq_front = 0, dq_back = 0, dq_destructor = Some ''free''\<rparr>)"
proof -
  let ?d = "\<lparr>dq_data = Some [Val 5, Uninit, Uninit, Val 6], dq_cap = 4, dq_front = 3,
      dq_back = 1, dq_destructor = Some ''free''\<rparr> :: (string, int) deque"
  have "rep (plain_env 8) ?d [6, 5]"
    by (auto simp: rep_def SIZE_T_def less_Suc_eq)
  from deque_destroys_once[OF _ this, of "\<lambda>_. True" Length "()"] show ?thesis
    by (simp add: destroyed_def clear_deque_def)
qed

end
