(* ===== verification/MemoryPool_Correct.thy ===== *)
theory MemoryPool_Correct
  imports MemoryPool Deque_Client
begin

text \<open>
  Correctness of the memory pool: the invariant of the deque of blocks, termination of the growth
  loop, and the disjointness of the regions handed out.
\<close>

section \<open>The hypotheses on the heap\<close>

text \<open>
  \<open>live h\<close> is the set of addresses of the blocks that \<open>malloc\<close> has handed out for the
  pool in state \<open>h\<close>. The documented behaviour of \<open>malloc\<close>: a block is not at \<open>NULL\<close>, lies in
  the address space, does not meet a live block, and is live from then on; the allocation of
  the deque's array leaves the live blocks alone.
\<close>

definition region :: "nat \<Rightarrow> nat \<Rightarrow> nat set" where
  "region a n = {a..<a + n}"

definition malloc_ok :: "('h \<Rightarrow> nat set) \<Rightarrow> 'h malloc \<Rightarrow> bool" where
  "malloc_ok live mal \<longleftrightarrow> (\<forall>n h h' a. mal n h = (Some a, h') \<longrightarrow>
      0 < a \<and> a + n < SIZE_T \<and> n < SIZE_T div 4 \<and> region a n \<inter> live h = {}
      \<and> live h' = live h \<union> region a n)
    \<and> (\<forall>n h h'. mal n h = (None, h') \<longrightarrow> live h' = live h)"

definition array_ok :: "('h \<Rightarrow> nat set) \<Rightarrow> 'h alloc_env \<Rightarrow> bool" where
  "array_ok live E \<longleftrightarrow> (\<forall>L. env_ok (\<lambda>h. live h = L) E)
     \<and> (\<forall>n h e. alloc_mem E n h = Inl e \<longrightarrow> e = AllocFail) \<and> elem_size E = 24"

section \<open>The invariant\<close>

definition pool_wf :: "MemoryPool \<Rightarrow> bool" where
  "pool_wf p \<longleftrightarrow> (if mp_pool p = 0 then mp_size p = 0 \<and> mp_next p = 0
     else 0 < mp_size p \<and> mp_size p < SIZE_T div 4 \<and> mp_pool p + mp_size p < SIZE_T
       \<and> mp_pool p \<le> mp_next p \<and> mp_next p \<le> mp_pool p + mp_size p)"

definition space :: "MemoryPool \<Rightarrow> nat set" where
  "space p = region (mp_pool p) (mp_size p)"

definition used :: "MemoryPool \<Rightarrow> nat set" where
  "used p = region (mp_pool p) (mp_next p - mp_pool p)"

definition spaces :: "MemoryPool list \<Rightarrow> nat set" where
  "spaces ps = \<Union> (space ` set ps)"

definition in_use :: "MemoryPool list \<Rightarrow> nat set" where
  "in_use ps = \<Union> (used ` set ps)"

fun apart :: "MemoryPool list \<Rightarrow> bool" where
  "apart [] = True"
| "apart (p # ps) \<longleftrightarrow> space p \<inter> spaces ps = {} \<and> apart ps"

definition pools :: "('h \<Rightarrow> nat set) \<Rightarrow> 'h alloc_env \<Rightarrow> 'h pool_state \<Rightarrow> MemoryPool list \<Rightarrow> bool" where
  "pools live E st ps \<longleftrightarrow> rep E (pool_deq st) ps \<and> dq_destructor (pool_deq st) = Some ()
     \<and> (\<forall>p\<in>set ps. pool_wf p) \<and> apart ps \<and> spaces ps \<subseteq> live (heap st)"

text \<open>Between two calls the last block is a real one.\<close>

definition pool_inv :: "('h \<Rightarrow> nat set) \<Rightarrow> 'h alloc_env \<Rightarrow> 'h pool_state \<Rightarrow> MemoryPool list \<Rightarrow> bool" where
  "pool_inv live E st ps \<longleftrightarrow> pools live E st ps \<and> ps \<noteq> [] \<and> mp_pool (last ps) \<noteq> 0"

lemma region_simps [simp]: "region a 0 = {}" "region a n = {} \<longleftrightarrow> n = 0"
  by (auto simp: region_def)

lemma used_subset: "pool_wf p \<Longrightarrow> used p \<subseteq> space p"
  by (auto simp: used_def space_def region_def pool_wf_def split: if_splits)

lemma in_use_subset: "(\<forall>p\<in>set ps. pool_wf p) \<Longrightarrow> in_use ps \<subseteq> spaces ps"
  using used_subset by (fastforce simp: in_use_def spaces_def)

lemma spaces_simps [simp]:
  "spaces [] = {}" "spaces (p # ps) = space p \<union> spaces ps"
  "spaces (ps @ qs) = spaces ps \<union> spaces qs"
  "in_use [] = {}" "in_use (p # ps) = used p \<union> in_use ps" "in_use (ps @ qs) = in_use ps \<union> in_use qs"
  by (auto simp: spaces_def in_use_def)

lemma apart_snoc [simp]: "apart (ps @ [p]) \<longleftrightarrow> apart ps \<and> space p \<inter> spaces ps = {}"
  by (induction ps) auto

section \<open>New blocks\<close>

text \<open>A block just made: empty, or fresh and unused.\<close>

definition fresh_pool :: "('h \<Rightarrow> nat set) \<Rightarrow> 'h \<Rightarrow> MemoryPool \<Rightarrow> 'h \<Rightarrow> bool" where
  "fresh_pool live h p h' \<longleftrightarrow> pool_wf p \<and> mp_next p = mp_pool p \<and> space p \<inter> live h = {}
     \<and> live h' = live h \<union> space p"

lemma init_pool_fresh:
  assumes "malloc_ok live mal" "init_pool mal n h = (p, h')"
  shows "fresh_pool live h p h' \<and> (mp_pool p \<noteq> 0 \<longrightarrow> mp_size p = n)"
  using assms
  by (fastforce simp: init_pool_def malloc_ok_def fresh_pool_def pool_wf_def space_def
      split: if_splits prod.splits option.splits)

lemma fresh_pool_empty:
  "fresh_pool live h p h' \<Longrightarrow> mp_pool p = 0 \<Longrightarrow> live h' = live h"
  by (auto simp: fresh_pool_def pool_wf_def space_def)

lemma low_memory_fresh:
  assumes M: "malloc_ok live mal" and r: "low_memory_init_pool mal required failed h = r"
  shows "case r of Inl e \<Rightarrow> e = AllocFail | Inr (p, h') \<Rightarrow>
    fresh_pool live h p h' \<and> mp_pool p \<noteq> 0 \<and> required \<le> mp_size p"
  using M r
proof (induction mal required failed h arbitrary: r rule: low_memory_init_pool.induct)
  case (1 mal required failed h)
  show ?case
  proof (cases "failed \<le> required")
    case True
    then show ?thesis using "1.prems" by (auto simp: low_memory_init_pool.simps[of mal required failed])
  next
    case False
    let ?f = "max (failed div 2) required"
    obtain p h1 where p: "init_pool mal ?f h = (p, h1)" by (cases "init_pool mal ?f h")
    note fresh = init_pool_fresh[OF "1.prems"(1) p]
    show ?thesis
    proof (cases "mp_pool p = 0")
      case True
      then have "low_memory_init_pool mal required ?f h1 = r"
        using "1.prems" False p by (simp add: low_memory_init_pool.simps[of mal required failed])
      from "1.IH"[OF False refl p[symmetric] refl _ "1.prems"(1) this] True
      show ?thesis using fresh_pool_empty[OF fresh[THEN conjunct1] True]
        by (auto simp: fresh_pool_def split: sum.splits)
    next
      case pool: False
      then have "r = Inr (p, h1)"
        using "1.prems" False p by (simp add: low_memory_init_pool.simps[of mal required failed])
      then show ?thesis using fresh pool by simp
    qed
  qed
qed

text \<open>A block of \<open>k\<close> bytes, or a smaller one when memory is low.\<close>

lemma get_pool_ok:
  assumes M: "malloc_ok live mal"
  shows "case (let (pool, h') = init_pool mal k h in
      if mp_pool pool = 0 then low_memory_init_pool mal required k h' else Inr (pool, h')) of
      Inl e \<Rightarrow> e = AllocFail
    | Inr (p, h') \<Rightarrow> fresh_pool live h p h' \<and> mp_pool p \<noteq> 0 \<and> (required \<le> k \<longrightarrow> required \<le> mp_size p)"
proof -
  obtain p h1 where p: "init_pool mal k h = (p, h1)" by (cases "init_pool mal k h")
  note fresh = init_pool_fresh[OF M p]
  show ?thesis
  proof (cases "mp_pool p = 0")
    case True
    then have "live h1 = live h" by (rule fresh_pool_empty[OF fresh[THEN conjunct1]])
    then have same: "fresh_pool live h1 = fresh_pool live h" by (simp add: fresh_pool_def fun_eq_iff)
    have eq: "(let (pool, h') = init_pool mal k h in
      if mp_pool pool = 0 then low_memory_init_pool mal required k h' else Inr (pool, h'))
      = low_memory_init_pool mal required k h1"
      by (simp add: p True)
    show ?thesis
      unfolding eq
      using low_memory_fresh[OF M refl, where required = required and failed = k and h = h1]
      unfolding same by (simp split: sum.split_asm sum.split prod.split_asm prod.split)
  qed (use p fresh in simp)
qed

lemma pools_push:
  assumes P: "pools live E st ps" and A: "array_ok live E" and fresh: "fresh_pool live (heap st) p h"
  shows "case push_back E p (pool_deq st) h of Inl e \<Rightarrow> e = AllocFail
    | Inr (d, h') \<Rightarrow> pools live E \<lparr>pool_deq = d, heap = h'\<rparr> (ps @ [p])"
proof -
  have E: "env_ok (\<lambda>h'. live h' = live h) E" using A by (simp add: array_ok_def)
  have rep: "rep E (pool_deq st) ps" using P by (simp add: pools_def)
  from push_back_rep[OF rep E, of h p] A P fresh show ?thesis
    by (auto simp: ok_or_alloc_def array_ok_def pools_def fresh_pool_def split: sum.splits)
qed

section \<open>The growth loop\<close>

lemma pool_wf_fits:
  assumes "pool_wf p" "n < SIZE_T div 2"
  shows "sz_add (sz_sub (mp_next p) (mp_pool p)) n = mp_next p - mp_pool p + n"
  using assms
  by (auto simp: pool_wf_def sz_sub_small sz_add_small SIZE_T_def split: if_splits)

text \<open>The number of blocks stays below the shift that would overflow.\<close>

definition shift_ok :: "nat \<Rightarrow> nat \<Rightarrow> nat \<Rightarrow> bool" where
  "shift_ok init_size n k \<longleftrightarrow> k \<le> 30 \<and> init_size < 2 ^ 32 \<and> n \<le> init_size * 2 ^ 30"

lemma pools_rep:
  assumes "pools live E st ps" "array_ok live E"
  shows "rep E (pool_deq st) ps" "env_ok (\<lambda>h. live h = {}) E"
  using assms by (auto simp: pools_def array_ok_def)

lemma pools_length:
  assumes "pools live E st ps" "array_ok live E"
  shows "length ps < SIZE_T div 4"
proof -
  from repE[OF pools_rep[OF assms]] show ?thesis by (metis less_trans)
qed

lemma two_shl_len:
  assumes "0 < k" "k < SIZE_T"
  shows "two_shl (sz_sub k 1) = (if k \<le> 30 then Inr (2 ^ k) else Inl Undefined)"
proof -
  have "sz_sub k 1 = k - 1" using assms by (intro sz_sub_small) auto
  then show ?thesis using assms(1) by (auto simp: two_shl_def Suc_diff_1)
qed

lemma grow_step_ok:
  assumes M: "malloc_ok live mal" and A: "array_ok live E" and P: "pools live E st ps" and ps: "ps \<noteq> []"
  shows "case grow_step mal E init_size n st of
      Inl e \<Rightarrow> e = AllocFail \<or> e = Undefined \<and> 30 < length ps
    | Inr (p, st') \<Rightarrow> pools live E st' (ps @ [p]) \<and> mp_next p = mp_pool p
        \<and> (mp_pool p \<noteq> 0 \<longrightarrow> n \<le> mp_size p)
        \<and> (mp_pool p = 0 \<longrightarrow> sz_mul init_size (2 ^ length ps) < n) \<and> length ps \<le> 30"
proof -
  have len: "length_deque (pool_deq st) = Inr (length ps)"
    by (rule length_rep[OF pools_rep[OF P A]])
  have shl: "two_shl (sz_sub (length ps) 1)
      = (if length ps \<le> 30 then Inr (2 ^ length ps) else Inl Undefined)"
    by (rule two_shl_len) (use ps pools_length[OF P A] in \<open>auto simp: SIZE_T_def\<close>)
  show ?thesis
proof (cases "length ps \<le> 30")
  case False
  then have "grow_step mal E init_size n st = Inl Undefined"
    by (simp only: grow_step_def len shl if_False and_then.simps)
  then show ?thesis using False by simp
next
  case True
  let ?new = "sz_mul init_size (2 ^ length ps)"
  let ?get = "if ?new < n then Inr (init_pool mal 0 (heap st))
       else let (pool, h) = init_pool mal ?new (heap st) in
         if mp_pool pool = 0 then low_memory_init_pool mal n ?new h else Inr (pool, h)"
  have get: "case ?get of Inl e \<Rightarrow> e = AllocFail
    | Inr (p, h) \<Rightarrow> fresh_pool live (heap st) p h \<and> (mp_pool p \<noteq> 0 \<longrightarrow> n \<le> mp_size p)
      \<and> (mp_pool p = 0 \<longrightarrow> ?new < n)"
  proof (cases "?new < n")
    case True
    obtain p h where "init_pool mal 0 (heap st) = (p, h)" by (cases "init_pool mal 0 (heap st)")
    then show ?thesis using True init_pool_fresh[OF M, of 0 "heap st" p h]
      by (auto simp: init_pool_def)
  next
    case False
    then show ?thesis
      using get_pool_ok[OF M, where k = ?new and required = n and h = "heap st"]
      by (cases ?get) auto
  qed
  have step: "grow_step mal E init_size n st = and_then ?get (\<lambda>(pool, h).
      and_then (push_back E pool (pool_deq st) h) (\<lambda>(d, h). Inr (pool, \<lparr>pool_deq = d, heap = h\<rparr>)))"
    by (simp only: grow_step_def len shl True if_True and_then.simps Let_def)
  show ?thesis
  proof (cases ?get)
    case (Inl e)
    then show ?thesis unfolding step using get by simp
  next
    case (Inr r)
    obtain p h where r: "r = (p, h)" by (cases r)
    have p: "fresh_pool live (heap st) p h" "mp_pool p \<noteq> 0 \<longrightarrow> n \<le> mp_size p" "mp_pool p = 0 \<longrightarrow> ?new < n"
      using get unfolding Inr r by simp_all
    show ?thesis
      unfolding step Inr r using pools_push[OF P A p(1)] p True
      by (cases "push_back E p (pool_deq st) h") (auto simp: fresh_pool_def)
  qed
qed
qed

lemma shift_ok_Suc:
  assumes "shift_ok init_size n k" "sz_mul init_size (2 ^ k) < n"
  shows "shift_ok init_size n (Suc k)"
proof -
  have k: "k \<le> 30" and i: "init_size < 2 ^ 32" and n: "n \<le> init_size * 2 ^ 30"
    using assms(1) by (simp_all add: shift_ok_def)
  have "init_size * 2 ^ k \<le> 2 ^ 32 * 2 ^ 30"
    using i k by (intro mult_le_mono power_increasing) auto
  then have "sz_mul init_size (2 ^ k) = init_size * 2 ^ k"
    by (intro sz_mul_small) (simp add: SIZE_T_def)
  then have "k \<noteq> 30" using assms(2) n by auto
  then show ?thesis using k i n by (simp add: shift_ok_def)
qed

text \<open>The loop returns, and when it returns a block the request fits in it.\<close>

definition grown :: "('h \<Rightarrow> nat set) \<Rightarrow> 'h alloc_env \<Rightarrow> nat \<Rightarrow> nat \<Rightarrow> MemoryPool list
    \<Rightarrow> stop + (MemoryPool \<times> 'h pool_state) \<Rightarrow> bool" where
  "grown live E init_size n ps r \<longleftrightarrow> (case r of
     Inl e \<Rightarrow> e = AllocFail \<or> e = Undefined \<and> \<not> shift_ok init_size n (length ps)
   | Inr (p, st') \<Rightarrow> \<exists>qs. pool_inv live E st' (ps @ qs) \<and> last (ps @ qs) = p
       \<and> mp_next p - mp_pool p + n \<le> mp_size p \<and> in_use qs = {})"

lemma grow_ok:
  assumes M: "malloc_ok live mal" and A: "array_ok live E" and n: "n < SIZE_T div 2"
  shows "pools live E st ps \<Longrightarrow> ps \<noteq> [] \<Longrightarrow> mp_pool (last ps) \<noteq> 0 \<or> 0 < n
    \<Longrightarrow> \<exists>r. grow mal E init_size n (last ps) st = Some r \<and> grown live E init_size n ps r"
proof (induction "31 - length ps" arbitrary: ps st rule: less_induct)
  case less
  let ?p = "last ps"
  have "pool_wf ?p" using less.prems(1,2) by (simp add: pools_def)
  note fit = pool_wf_fits[OF this n]
  show ?case
  proof (cases "mp_size ?p < mp_next ?p - mp_pool ?p + n")
    case False
    then have "mp_pool ?p \<noteq> 0" using less.prems(3) \<open>pool_wf ?p\<close> by (auto simp: pool_wf_def split: if_splits)
    then have "grown live E init_size n ps (Inr (?p, st))"
      using less.prems False by (auto simp: grown_def pool_inv_def intro!: exI[of _ "[]"])
    then show ?thesis using False fit by (simp add: grow.simps)
  next
    case True
    then have "0 < n" using \<open>pool_wf ?p\<close> by (auto simp: pool_wf_def split: if_splits)
    note step = grow_step_ok[OF M A less.prems(1,2), of n init_size]
    show ?thesis
    proof (cases "grow_step mal E init_size n st")
      case (Inl e)
      then show ?thesis
        using True fit step by (auto simp: grow.simps[of _ _ _ _ ?p] grown_def shift_ok_def)
    next
      case (Inr r)
      obtain p st' where r: "r = (p, st')" by (cases r)
      have p: "pools live E st' (ps @ [p])" "mp_next p = mp_pool p" "length ps \<le> 30"
        "mp_pool p = 0 \<longrightarrow> sz_mul init_size (2 ^ length ps) < n"
        "mp_pool p \<noteq> 0 \<longrightarrow> n \<le> mp_size p"
        using step unfolding Inr r by simp_all
      have "\<exists>r. grow mal E init_size n p st' = Some r \<and> grown live E init_size n (ps @ [p]) r"
        using less.hyps[of "ps @ [p]" st'] p \<open>0 < n\<close> by simp
      then obtain r' where r': "grow mal E init_size n p st' = Some r'"
        "grown live E init_size n (ps @ [p]) r'" by blast
      have "used p = {}" using p(2) by (simp add: used_def)
      have "shift_ok init_size n (Suc (length ps))" if "shift_ok init_size n (length ps)" "mp_pool p = 0"
        using shift_ok_Suc that p(4) by blast
      moreover have "r' = Inr (p, st')" if "mp_pool p \<noteq> 0"
      proof -
        have "pool_wf p" using p(1) by (simp add: pools_def)
        from pool_wf_fits[OF this n] show ?thesis
          using r'(1) that p by (simp add: grow.simps[of _ _ _ _ p])
      qed
      ultimately have "grown live E init_size n ps r'"
        using r'(2) \<open>used p = {}\<close> by (cases r') (auto simp: grown_def)
      then show ?thesis
        using True fit r' Inr r by (simp add: grow.simps[of _ _ _ _ ?p])
    qed
  qed
qed

section \<open>One allocation\<close>

text \<open>What a call of \<open>memory_pool_alloc\<close> gives.\<close>

definition alloc_post :: "('h \<Rightarrow> nat set) \<Rightarrow> 'h alloc_env \<Rightarrow> nat \<Rightarrow> MemoryPool list
    \<Rightarrow> stop + (nat \<times> 'h pool_state) \<Rightarrow> bool" where
  "alloc_post live E n ps r \<longleftrightarrow> (case r of
     Inl e \<Rightarrow> e = AllocFail \<or> e = Undefined \<and> \<not> shift_ok (mp_size (hd ps)) n (length ps)
   | Inr (a, st) \<Rightarrow> \<exists>qs. pool_inv live E st qs \<and> mp_size (hd qs) = mp_size (hd ps)
       \<and> 0 < a \<and> n < SIZE_T div 4 \<and> region a n \<inter> in_use ps = {} \<and> in_use qs = in_use ps \<union> region a n)"

lemma alloc_start_ok:
  assumes "pool_inv live E st ps" "array_ok live E"
  shows "alloc_start st = Inr (last ps, mp_size (hd ps))"
proof -
  have P: "pools live E st ps" and ps: "ps \<noteq> []" "mp_pool (last ps) \<noteq> 0"
    using assms(1) by (simp_all add: pool_inv_def)
  note rep = pools_rep[OF P assms(2)]
  have "pool_wf (last ps)" using P ps(1) by (simp add: pools_def)
  then have "mp_size (last ps) \<noteq> 0" "mp_next (last ps) \<noteq> 0"
    using ps(2) by (auto simp: pool_wf_def)
  then show ?thesis
    using ps by (simp add: alloc_start_def is_empty_rep[OF rep] peek_back_rep[OF rep]
        peek_front_rep[OF rep] assert_that_def)
qed

lemma spaces_same: "map space ps = map space qs \<Longrightarrow> spaces ps = spaces qs"
  by (simp add: spaces_def flip: set_map)

lemma alloc_finish_ok:
  assumes inv: "pool_inv live E st ps" and A: "array_ok live E"
    and fit: "mp_next (last ps) - mp_pool (last ps) + n \<le> mp_size (last ps)"
  shows "\<exists>st' qs. alloc_finish n (last ps) st = Inr (mp_next (last ps), st')
    \<and> pool_inv live E st' qs \<and> mp_size (hd qs) = mp_size (hd ps) \<and> 0 < mp_next (last ps)
    \<and> n < SIZE_T div 4 \<and> region (mp_next (last ps)) n \<inter> in_use ps = {}
    \<and> in_use qs = in_use ps \<union> region (mp_next (last ps)) n"
proof -
  have P: "pools live E st ps" and ps: "ps \<noteq> []" "mp_pool (last ps) \<noteq> 0"
    using inv by (simp_all add: pool_inv_def)
  note rep = pools_rep[OF P A]
  obtain os p where os: "ps = os @ [p]" using ps(1) by (cases ps rule: rev_cases) auto
  have wf: "pool_wf p" "\<forall>q\<in>set os. pool_wf q" "mp_pool p \<noteq> 0"
    "space p \<inter> spaces os = {}" "apart os"
    using P ps(2) os by (auto simp: pools_def)
  let ?p = "p\<lparr>mp_next := mp_next p + n\<rparr>"
  have nx: "sz_add (mp_next p) n = mp_next p + n"
    by (rule sz_add_small) (use wf(1,3) fit os in \<open>auto simp: pool_wf_def\<close>)
  have space: "space ?p = space p" by (simp add: space_def)
  have wf': "pool_wf ?p" using wf(1,3) fit os by (auto simp: pool_wf_def)
  have used: "used ?p = used p \<union> region (mp_next p) n" "region (mp_next p) n \<subseteq> space p"
    "region (mp_next p) n \<inter> used p = {}"
    using wf(1,3) fit os by (auto simp: used_def region_def space_def pool_wf_def)
  have new: "pools live E (st\<lparr>pool_deq := d\<rparr>) (os @ [?p])"
    if "rep E d (ps[length ps - 1 := ?p])" "dq_destructor d = dq_destructor (pool_deq st)" for d
    using that P wf' wf(2) space os by (simp add: pools_def)
  obtain d where d: "update_back ?p (pool_deq st) = Inr d" "rep E d (ps[length ps - 1 := ?p])"
    "dq_destructor d = dq_destructor (pool_deq st)"
    using update_back_rep[OF rep, of ?p] ps(1) by auto
  have fin: "alloc_finish n p st = Inr (mp_next p, st\<lparr>pool_deq := d\<rparr>)"
    using d(1) nx os by (simp add: alloc_finish_def peek_back_rep[OF rep] assert_that_def)
  have "region (mp_next p) n \<inter> in_use os = {}"
    using used(2) wf(4) in_use_subset[OF wf(2)] by blast
  then have "pool_inv live E (st\<lparr>pool_deq := d\<rparr>) (os @ [?p])
    \<and> mp_size (hd (os @ [?p])) = mp_size (hd ps) \<and> 0 < mp_next p
    \<and> n < SIZE_T div 4 \<and> region (mp_next p) n \<inter> in_use ps = {} \<and> in_use (os @ [?p]) = in_use ps \<union> region (mp_next p) n"
    using new[OF d(2,3)] wf(1,3) used os fit
    by (cases os) (auto simp: pool_inv_def pool_wf_def)
  then show ?thesis using fin os by auto
qed

lemma alloc_returns:
  assumes M: "malloc_ok live mal" and A: "array_ok live E" and inv: "pool_inv live E st ps"
    and n: "n < SIZE_T div 2"
  shows "\<exists>r. memory_pool_alloc mal E n st = Some r \<and> alloc_post live E n ps r"
proof -
  have P: "pools live E st ps" and ps: "ps \<noteq> []" "mp_pool (last ps) \<noteq> 0"
    using inv by (simp_all add: pool_inv_def)
  note start = alloc_start_ok[OF inv A]
  obtain r where r: "grow mal E (mp_size (hd ps)) n (last ps) st = Some r"
    "grown live E (mp_size (hd ps)) n ps r"
    using grow_ok[OF M A n P ps(1), of "mp_size (hd ps)"] ps(2) by auto
  show ?thesis
  proof (cases r)
    case (Inl e)
    then show ?thesis using r start by (simp add: memory_pool_alloc_def grown_def alloc_post_def)
  next
    case (Inr q)
    obtain p st' where q: "q = (p, st')" by (cases q)
    then obtain qs where qs: "pool_inv live E st' (ps @ qs)" "last (ps @ qs) = p"
      "mp_next p - mp_pool p + n \<le> mp_size p" "in_use qs = {}"
      using r(2) Inr by (auto simp: grown_def)
    from alloc_finish_ok[OF qs(1) A, of n] qs(2-4) ps(1) show ?thesis
      using r(1) start Inr q by (auto simp: memory_pool_alloc_def alloc_post_def)
  qed
qed

section \<open>Initialising and destroying\<close>

lemma initialize_ok:
  assumes M: "malloc_ok live mal" and A: "array_ok live E" and r: "initialize_memory_pool mal E n h = r"
  shows "case r of Inl e \<Rightarrow> e = AllocFail
    | Inr st \<Rightarrow> \<exists>p. pool_inv live E st [p] \<and> in_use [p] = {}"
proof -
  have E: "env_ok (\<lambda>h'. live h' = live h) E" and w: "max 10 1 * elem_size E < SIZE_T div 2"
    and fail: "\<And>n h e. alloc_mem E n h = Inl e \<Longrightarrow> e = AllocFail"
    using A by (auto simp: array_ok_def SIZE_T_def)
  let ?n = "if n = 0 then 1 else n"
  let ?get = "\<lambda>h. let (pool, h) = init_pool mal ?n h in
      if mp_pool pool = 0 then low_memory_init_pool mal 1 ?n h else Inr (pool, h)"
  have get: "case ?get h1 of Inl e \<Rightarrow> e = AllocFail
    | Inr (p, h2) \<Rightarrow> fresh_pool live h1 p h2 \<and> mp_pool p \<noteq> 0" for h1
    using get_pool_ok[OF M, where k = ?n and required = 1 and h = h1] by (cases "?get h1") auto
  have init: "initialize_memory_pool mal E n h = and_then (new_destructable_deque E 10 () h)
    (\<lambda>(d, h). and_then (?get h) (\<lambda>(pool, h).
      and_then (push_back E pool d h) (\<lambda>(d, h). Inr \<lparr>pool_deq = d, heap = h\<rparr>)))"
    by (simp only: initialize_memory_pool_def Let_def case_prod_unfold)
  have new: "ok_or_alloc E h (max 10 1 * elem_size E) (\<lambda>(d :: (unit, MemoryPool) deque, m').
      rep E d [] \<and> dq_destructor d = Some () \<and> live m' = live h) (new_destructable_deque E 10 () h)"
    by (rule new_destructable_rep[OF E refl w])
  show ?thesis
  proof (cases "new_destructable_deque E 10 () h :: stop + ((unit, MemoryPool) deque \<times> 'a)")
    case (Inl e)
    then show ?thesis using r init new fail by (auto simp: ok_or_alloc_def split: sum.splits)
  next
    case (Inr q)
    obtain d h1 where q: "q = (d, h1)" by (cases q)
    let ?st = "\<lparr>pool_deq = d, heap = h1\<rparr>"
    have P: "pools live E ?st []" using new Inr q by (simp add: pools_def ok_or_alloc_def)
    show ?thesis
    proof (cases "?get h1")
      case (Inl e)
      then show ?thesis using get[of h1] r init Inr q by auto
    next
      case get1: (Inr g)
      obtain p h2 where g: "g = (p, h2)" by (cases g)
      have p: "fresh_pool live (heap ?st) p h2" "mp_pool p \<noteq> 0"
        using get[of h1] unfolding get1 g by simp_all
      have res: "r = and_then (push_back E p d h2) (\<lambda>(d, h). Inr \<lparr>pool_deq = d, heap = h\<rparr>)"
        unfolding r[symmetric] init by (simp only: Inr q get1 g and_then.simps prod.case)
      have "used p = {}" using p(1) by (simp add: fresh_pool_def used_def)
      then show ?thesis
        using pools_push[OF P A p(1)] p(2) unfolding res
        by (cases "push_back E p d h2") (auto simp: pool_inv_def)
    qed
  qed
qed

lemma destroy_pools:
  assumes "pools live E st ps" "array_ok live E"
  shows "destroy_memory_pool st
    = Inr (concat (map destroy_pool ps), st\<lparr>pool_deq := clear_deque (pool_deq st)\<rparr>)"
  using assms destroy_rep[OF pools_rep[OF assms]]
  by (simp add: destroy_memory_pool_def pools_def comp_def)

lemma space_nonempty: "pool_wf p \<Longrightarrow> mp_pool p \<noteq> 0 \<Longrightarrow> mp_pool p \<in> space p"
  by (auto simp: pool_wf_def space_def region_def)

lemma freed_distinct:
  "(\<forall>p\<in>set ps. pool_wf p) \<Longrightarrow> apart ps \<Longrightarrow> distinct (concat (map destroy_pool ps))"
proof (induction ps)
  case (Cons p ps)
  have "mp_pool p \<noteq> mp_pool q" if "q \<in> set ps" "mp_pool q \<noteq> 0" for q
    using space_nonempty[of p] space_nonempty[of q] that Cons.prems by (force simp: spaces_def)
  then show ?case using Cons by (auto simp: destroy_pool_def split: if_splits)
qed simp

text \<open>A sequence of allocations: the addresses returned.\<close>

fun allocs :: "'h malloc \<Rightarrow> 'h alloc_env \<Rightarrow> nat list \<Rightarrow> 'h pool_state
    \<Rightarrow> (stop + (nat list \<times> 'h pool_state)) option" where
  "allocs mal E [] st = Some (Inr ([], st))"
| "allocs mal E (n # ns) st = (case memory_pool_alloc mal E n st of
      None \<Rightarrow> None
    | Some (Inl e) \<Rightarrow> Some (Inl e)
    | Some (Inr (a, st)) \<Rightarrow> map_option (\<lambda>r. and_then r (\<lambda>(as, st). Inr (a # as, st))) (allocs mal E ns st))"

text \<open>No two of the regions meet.\<close>

fun disjoint_regions :: "(nat \<times> nat) list \<Rightarrow> bool" where
  "disjoint_regions [] = True"
| "disjoint_regions ((a, n) # rs) \<longleftrightarrow>
     (\<forall>(b, k)\<in>set rs. region a n \<inter> region b k = {}) \<and> disjoint_regions rs"

lemma allocs_ok:
  assumes M: "malloc_ok live mal" and A: "array_ok live E"
  shows "pool_inv live E st ps \<Longrightarrow> \<forall>n\<in>set ns. n < SIZE_T div 2 \<Longrightarrow>
    \<exists>r. allocs mal E ns st = Some r \<and> (case r of Inl e \<Rightarrow> e \<in> {AllocFail, Undefined}
      | Inr (as, st') \<Rightarrow> length as = length ns \<and> disjoint_regions (zip as ns)
        \<and> (\<exists>qs. pool_inv live E st' qs \<and> in_use ps \<subseteq> in_use qs
          \<and> (\<forall>(a, n)\<in>set (zip as ns). 0 < a \<and> region a n \<inter> in_use ps = {} \<and> region a n \<subseteq> in_use qs)))"
proof (induction ns arbitrary: st ps)
  case (Cons n ns)
  have "n < SIZE_T div 2" using Cons.prems(2) by simp
  from alloc_returns[OF M A Cons.prems(1) this] obtain r where
    r: "memory_pool_alloc mal E n st = Some r" "alloc_post live E n ps r" by blast
  show ?case
  proof (cases r)
    case (Inl e)
    then show ?thesis using r by (auto simp: alloc_post_def)
  next
    case (Inr q)
    obtain a st1 where q: "q = (a, st1)" by (cases q)
    obtain qs where qs: "pool_inv live E st1 qs" "0 < a" "region a n \<inter> in_use ps = {}"
      "in_use qs = in_use ps \<union> region a n"
      using r(2) Inr q by (auto simp: alloc_post_def)
    obtain r' where r': "allocs mal E ns st1 = Some r'" "case r' of Inl e \<Rightarrow> e \<in> {AllocFail, Undefined}
      | Inr (as, st') \<Rightarrow> length as = length ns \<and> disjoint_regions (zip as ns)
        \<and> (\<exists>ts. pool_inv live E st' ts \<and> in_use qs \<subseteq> in_use ts
          \<and> (\<forall>(a, n)\<in>set (zip as ns). 0 < a \<and> region a n \<inter> in_use qs = {} \<and> region a n \<subseteq> in_use ts))"
      using Cons.IH[OF qs(1)] Cons.prems(2) by auto
    show ?thesis
    proof (cases r')
      case (Inl e)
      then show ?thesis using r(1) r' Inr q by auto
    next
      case res: (Inr q')
      obtain as st2 where q': "q' = (as, st2)" by (cases q')
      obtain ts where ts: "length as = length ns" "disjoint_regions (zip as ns)"
        "pool_inv live E st2 ts" "in_use qs \<subseteq> in_use ts"
        "\<forall>(a, n)\<in>set (zip as ns). 0 < a \<and> region a n \<inter> in_use qs = {} \<and> region a n \<subseteq> in_use ts"
        using r'(2) unfolding res q' by auto
      have "disjoint_regions (zip (a # as) (n # ns))"
        using ts(2,5) qs(4) by (auto simp: Int_Un_distrib)
      moreover have "\<forall>(a', n')\<in>set (zip (a # as) (n # ns)). 0 < a' \<and> region a' n' \<inter> in_use ps = {}
          \<and> region a' n' \<subseteq> in_use ts"
        using ts(4,5) qs(2-4) by auto
      ultimately show ?thesis
        using r(1) r'(1) Inr q res q' ts(1,3,4) qs(4) by auto
    qed
  qed
qed auto

section \<open>Deques allocated in the pool\<close>

lemma in_use_pools: "pool_inv live E st ps \<Longrightarrow> in_use ps \<subseteq> live (heap st)"
  using in_use_subset[of ps] by (auto simp: pool_inv_def pools_def)

lemma mp_env_ok:
  assumes "malloc_ok live mal" "array_ok live E" "0 < w"
  shows "env_ok (\<lambda>st. \<exists>ps. pool_inv live E st ps) (mp_env mal E w)"
  unfolding env_ok_def
proof (intro conjI allI impI)
  fix n st st'
  assume *: "(\<exists>ps. pool_inv live E st ps) \<and> n < SIZE_T div 2 \<and> alloc_mem (mp_env mal E w) n st = Inr st'"
  then obtain ps where ps: "pool_inv live E st ps" by blast
  obtain r where r: "memory_pool_alloc mal E n st = Some r" "alloc_post live E n ps r"
    using alloc_returns[OF assms(1,2) ps] * by blast
  then obtain a where "r = Inr (a, st')"
    using * by (auto simp: mp_env_def split: sum.splits if_splits)
  then show "n < SIZE_T div 4" "\<exists>ps. pool_inv live E st' ps"
    using r(2) by (auto simp: alloc_post_def)
qed (use assms(3) in \<open>simp add: mp_env_def\<close>)

text \<open>One operation of the deque macro of \<open>memory_pool.h\<close>.\<close>

fun mp_exec :: "'h malloc \<Rightarrow> 'h alloc_env \<Rightarrow> nat \<Rightarrow> 'a deque_op \<Rightarrow> ('d, 'a) deque \<Rightarrow> 'h pool_state
    \<Rightarrow> stop + (('d, 'a) answer \<times> ('d, 'a) deque \<times> 'h pool_state)" where
  "mp_exec mal E w IsEmpty d m = and_then (mp_is_empty d) (\<lambda>b. Inr (([], Flag b), d, m))"
| "mp_exec mal E w Length d m = and_then (mp_length d) (\<lambda>n. Inr (([], Num n), d, m))"
| "mp_exec mal E w (PushFront x) d m =
     and_then (mp_push_front mal E w x d m) (\<lambda>(d, m). Inr (([], Done), d, m))"
| "mp_exec mal E w (PushBack x) d m =
     and_then (mp_push_back mal E w x d m) (\<lambda>(d, m). Inr (([], Done), d, m))"
| "mp_exec mal E w PopFront d m = and_then (mp_pop_front d) (\<lambda>(x, d). Inr (([], Elem x), d, m))"
| "mp_exec mal E w PopBack d m = and_then (mp_pop_back d) (\<lambda>(x, d). Inr (([], Elem x), d, m))"
| "mp_exec mal E w PeekFront d m = and_then (mp_peek_front d) (\<lambda>x. Inr (([], Elem x), d, m))"
| "mp_exec mal E w PeekBack d m = and_then (mp_peek_back d) (\<lambda>x. Inr (([], Elem x), d, m))"
| "mp_exec mal E w (UpdateFront x) d m = and_then (mp_update_front x d) (\<lambda>d. Inr (([], Done), d, m))"
| "mp_exec mal E w (UpdateBack x) d m = and_then (mp_update_back x d) (\<lambda>d. Inr (([], Done), d, m))"
| "mp_exec mal E w (UpdateDestroyFront x) d m =
     and_then (mp_update_and_destroy_front x d) (\<lambda>(cs, d). Inr ((cs, Done), d, m))"
| "mp_exec mal E w (UpdateDestroyBack x) d m =
     and_then (mp_update_and_destroy_back x d) (\<lambda>(cs, d). Inr ((cs, Done), d, m))"
| "mp_exec mal E w EmptyAll d m = and_then (mp_empty d) (\<lambda>(cs, d). Inr ((cs, Done), d, m))"

fun mp_exec_all :: "'h malloc \<Rightarrow> 'h alloc_env \<Rightarrow> nat \<Rightarrow> 'a deque_op list \<Rightarrow> ('d, 'a) deque
    \<Rightarrow> 'h pool_state \<Rightarrow> stop + (('d, 'a) answer list \<times> ('d, 'a) deque \<times> 'h pool_state)" where
  "mp_exec_all mal E w [] d m = Inr ([], d, m)"
| "mp_exec_all mal E w (p # ps) d m =
     and_then (mp_exec mal E w p d m) (\<lambda>(a, d, m).
     and_then (mp_exec_all mal E w ps d m) (\<lambda>(as, d, m). Inr (a # as, d, m)))"

lemma mp_exec_exec: "mp_exec mal E w = exec (mp_env mal E w)"
  by (intro ext, rename_tac p d m, case_tac p) (simp_all add: mp_defs)

lemma mp_exec_all_exec_all: "mp_exec_all mal E w ps d m = exec_all (mp_env mal E w) ps d m"
  by (induction ps arbitrary: d m) (simp_all add: mp_exec_exec)

section \<open>A heap to evaluate the model on\<close>

text \<open>
  A heap that hands out consecutive addresses up to a limit; its state is the next free address.
\<close>

definition bump :: "nat malloc" where
  "bump n h = (if n < SIZE_T div 4 \<and> h + n < SIZE_T \<and> 0 < h then (Some h, h + n) else (None, h))"

definition bump_live :: "nat \<Rightarrow> nat set" where
  "bump_live h = {1..<h}"

definition bump_array :: "nat alloc_env" where
  "bump_array = \<lparr>elem_size = 24, alloc_mem = (\<lambda>n h. if n < SIZE_T div 4 then Inr h else Inl AllocFail)\<rparr>"

end
