(* ===== verification/MemoryPool_Safe.thy ===== *)
theory MemoryPool_Safe
  imports MemoryPool_Correct
begin

text \<open>
  The properties of the memory pool: regions never overlap, the growth loop ends, the shift that
  sizes the next block can overflow after 31 blocks and not before, duplicated strings stay
  readable, and every block is freed once.
\<close>

section \<open>Duplicated strings\<close>

definition c_string :: "(nat \<Rightarrow> char) \<Rightarrow> nat \<Rightarrow> string \<Rightarrow> bool" where
  "c_string mem a s \<longleftrightarrow> map mem [a..<a + length s] = s \<and> mem (a + length s) = CHR 0x00"

fun strdups :: "'h malloc \<Rightarrow> 'h alloc_env \<Rightarrow> string list \<Rightarrow> 'h pool_state \<Rightarrow> (nat \<Rightarrow> char)
    \<Rightarrow> (stop + (nat list \<times> 'h pool_state \<times> (nat \<Rightarrow> char))) option" where
  "strdups mal E [] st mem = Some (Inr ([], st, mem))"
| "strdups mal E (s # ss) st mem = (case memory_pool_strdup mal E s st mem of
      None \<Rightarrow> None
    | Some (Inl e) \<Rightarrow> Some (Inl e)
    | Some (Inr (a, st, mem)) \<Rightarrow>
        map_option (\<lambda>r. and_then r (\<lambda>(as, st, mem). Inr (a # as, st, mem))) (strdups mal E ss st mem))"

lemma write_bytes_same: "map (write_bytes a bs mem) [a..<a + length bs] = bs"
  by (rule nth_equalityI) (auto simp: write_bytes_def)

lemma write_bytes_other: "x \<notin> region a (length bs) \<Longrightarrow> write_bytes a bs mem x = mem x"
  by (auto simp: write_bytes_def region_def)

lemma c_string_written: "c_string (write_bytes a (s @ [CHR 0x00]) mem) a s"
proof -
  let ?m = "write_bytes a (s @ [CHR 0x00]) mem"
  have "map ?m [a..<a + length s] @ [?m (a + length s)] = s @ [CHR 0x00]"
    using write_bytes_same[of a "s @ [CHR 0x00]" mem] by simp
  then show ?thesis by (simp add: c_string_def)
qed

lemma c_string_kept:
  assumes "c_string mem b t" "\<forall>x\<in>region b (length t + 1). mem' x = mem x"
  shows "c_string mem' b t"
proof -
  have "map mem' [b..<b + length t] = map mem [b..<b + length t]"
    using assms(2) by (auto simp: region_def)
  moreover have "mem' (b + length t) = mem (b + length t)"
    using assms(2) by (simp add: region_def)
  ultimately show ?thesis using assms(1) by (simp only: c_string_def)
qed

lemma strdup_ok:
  assumes M: "malloc_ok live mal" and A: "array_ok live E" and inv: "pool_inv live E st ps"
    and len: "length s + 1 < SIZE_T div 2"
  shows "\<exists>r. memory_pool_strdup mal E s st mem = Some r \<and> (case r of
      Inl e \<Rightarrow> e \<in> {AllocFail, Undefined}
    | Inr (a, st', mem') \<Rightarrow> \<exists>qs. pool_inv live E st' qs \<and> c_string mem' a s
        \<and> (\<forall>x\<in>in_use ps. mem' x = mem x) \<and> in_use qs = in_use ps \<union> region a (length s + 1))"
proof -
  obtain r where r: "memory_pool_alloc mal E (length s + 1) st = Some r"
    "alloc_post live E (length s + 1) ps r"
    using alloc_returns[OF M A inv len] by blast
  show ?thesis
  proof (cases r)
    case (Inl e)
    then show ?thesis using r by (auto simp: memory_pool_strdup_def alloc_post_def)
  next
    case (Inr q)
    obtain a st' where q: "q = (a, st')" by (cases q)
    let ?mem = "write_bytes a (s @ [CHR 0x00]) mem"
    obtain qs where qs: "pool_inv live E st' qs" "region a (length s + 1) \<inter> in_use ps = {}"
      "in_use qs = in_use ps \<union> region a (length s + 1)"
      using r(2) Inr q by (auto simp: alloc_post_def)
    have "?mem x = mem x" if "x \<in> in_use ps" for x
      by (rule write_bytes_other) (use that qs(2) in auto)
    then show ?thesis
      using r(1) Inr q qs(1,3) by (auto simp: memory_pool_strdup_def c_string_written)
  qed
qed

lemma strdups_ok:
  assumes M: "malloc_ok live mal" and A: "array_ok live E"
  shows "pool_inv live E st ps \<Longrightarrow> \<forall>s\<in>set ss. length s + 1 < SIZE_T div 2 \<Longrightarrow>
    \<exists>r. strdups mal E ss st mem = Some r \<and> (case r of Inl e \<Rightarrow> e \<in> {AllocFail, Undefined}
      | Inr (as, st', mem') \<Rightarrow> list_all2 (c_string mem') as ss \<and> (\<forall>x\<in>in_use ps. mem' x = mem x))"
proof (induction ss arbitrary: st ps mem)
  case (Cons s ss)
  have "length s + 1 < SIZE_T div 2" using Cons.prems(2) by simp
  from strdup_ok[OF M A Cons.prems(1) this, of mem] obtain r where
    r: "memory_pool_strdup mal E s st mem = Some r" "case r of Inl e \<Rightarrow> e \<in> {AllocFail, Undefined}
    | Inr (a, st', mem') \<Rightarrow> \<exists>qs. pool_inv live E st' qs \<and> c_string mem' a s
        \<and> (\<forall>x\<in>in_use ps. mem' x = mem x) \<and> in_use qs = in_use ps \<union> region a (length s + 1)" by blast
  show ?case
  proof (cases r)
    case (Inl e)
    then show ?thesis using r by auto
  next
    case (Inr q)
    obtain a st1 m1 where q: "q = (a, st1, m1)" by (cases q)
    obtain qs where qs: "pool_inv live E st1 qs" "c_string m1 a s" "\<forall>x\<in>in_use ps. m1 x = mem x"
      "in_use qs = in_use ps \<union> region a (length s + 1)"
      using r(2) unfolding Inr q by auto
    from Cons.IH[OF qs(1), of m1] Cons.prems(2) obtain r' where
      r': "strdups mal E ss st1 m1 = Some r'" "case r' of Inl e \<Rightarrow> e \<in> {AllocFail, Undefined}
      | Inr (as, st', mem') \<Rightarrow> list_all2 (c_string mem') as ss \<and> (\<forall>x\<in>in_use qs. mem' x = m1 x)"
      by auto
    show ?thesis
    proof (cases r')
      case (Inl e)
      then show ?thesis using r(1) r' Inr q by auto
    next
      case res: (Inr q')
      obtain as st2 m2 where q': "q' = (as, st2, m2)" by (cases q')
      have m2: "list_all2 (c_string m2) as ss" "\<forall>x\<in>in_use qs. m2 x = m1 x"
        using r'(2) unfolding res q' by auto
      have "c_string m2 a s" by (rule c_string_kept[OF qs(2)]) (use m2(2) qs(4) in auto)
      then show ?thesis using r(1) r'(1) Inr q res q' m2 qs(3,4) by auto
    qed
  qed
qed auto

section \<open>Properties\<close>

lemma bump_ok [simp]: "malloc_ok bump_live bump"
  by (auto simp: malloc_ok_def bump_def bump_live_def region_def split: if_splits)

lemma bump_array_ok [simp]: "array_ok bump_live bump_array"
  by (auto simp: array_ok_def env_ok_def bump_array_def split: if_splits)

lemmas initialized = initialize_ok[OF _ _ refl]

text \<open>The state after initialising a pool of 16 bytes, and after allocating 10 and 8 bytes.\<close>

definition bump_pool :: "nat pool_state" where
  "bump_pool = \<lparr>pool_deq = \<lparr>dq_data = Some (Val \<lparr>mp_pool = 1, mp_size = 16, mp_next = 1\<rparr> # replicate 9 Uninit),
     dq_cap = 10, dq_front = 0, dq_back = 1, dq_destructor = Some ()\<rparr>, heap = 17\<rparr>"

definition bump_pool2 :: "nat pool_state" where
  "bump_pool2 = \<lparr>pool_deq = \<lparr>dq_data = Some (Val \<lparr>mp_pool = 1, mp_size = 16, mp_next = 11\<rparr>
       # Val \<lparr>mp_pool = 17, mp_size = 32, mp_next = 25\<rparr> # replicate 8 Uninit),
     dq_cap = 10, dq_front = 0, dq_back = 2, dq_destructor = Some ()\<rparr>, heap = 49\<rparr>"

lemmas bump_eval = bump_def bump_array_def new_destructable_deque_def new_deque_def alloc_array_def
  init_pool_def push_back_def on_push_def deque_defs sz_mul_def sz_add_def sz_sub_def SIZE_T_def

lemma bump_init: "initialize_memory_pool bump bump_array 16 1 = Inr bump_pool"
  by (simp add: initialize_memory_pool_def bump_eval bump_pool_def Let_def nat_literals)

lemma bump_allocs: "allocs bump bump_array [10, 8] bump_pool = Some (Inr ([1, 17], bump_pool2))"
  by (simp add: memory_pool_alloc_def alloc_start_def alloc_finish_def grow.simps grow_step_def
      bump_eval bump_pool_def bump_pool2_def Let_def nat_literals is_empty_deque_def peek_front_def
      peek_back_def assert_nonempty_def last_index_def update_back_def assert_that_def
      length_deque_def two_shl_def)

lemma heap_bump_pool2: "heap bump_pool2 = 49"
  by (simp add: bump_pool2_def)

lemma bump_inv: "pool_inv bump_live bump_array bump_pool [\<lparr>mp_pool = 1, mp_size = 16, mp_next = 1\<rparr>]"
  by (auto simp: pool_inv_def pools_def rep_def bump_pool_def pool_wf_def spaces_def space_def
      region_def bump_live_def bump_array_def SIZE_T_def)



text \<open>
  C14. \<open>memory_pool_alloc\<close> always returns. Its loop adds blocks of doubled size until the request
  fits; with at most 30 blocks, a first block below \<open>2 ^ 32\<close> bytes and a request of at most
  \<open>2 ^ 30\<close> times the first block it never reaches undefined behaviour. From 31 blocks on a request
  that does not fit shifts a 32 bit \<open>int\<close> out of its range.\<close>

theorem pool_alloc_ends:
  assumes "malloc_ok live mal" "array_ok live E" "pool_inv live E st ps" "n < SIZE_T div 2"
  shows "(\<exists>r. memory_pool_alloc mal E n st = Some r)
    \<and> (shift_ok (mp_size (hd ps)) n (length ps) \<longrightarrow> memory_pool_alloc mal E n st \<noteq> Some (Inl Undefined))
    \<and> (30 < length ps \<and> mp_size (last ps) < mp_next (last ps) - mp_pool (last ps) + n
        \<longrightarrow> memory_pool_alloc mal E n st = Some (Inl Undefined))"
proof (intro conjI impI)
  obtain r where r: "memory_pool_alloc mal E n st = Some r" "alloc_post live E n ps r"
    using alloc_returns[OF assms] by blast
  then show "\<exists>r. memory_pool_alloc mal E n st = Some r" by blast
  show "memory_pool_alloc mal E n st \<noteq> Some (Inl Undefined)"
    if "shift_ok (mp_size (hd ps)) n (length ps)"
    using r that by (auto simp: alloc_post_def)
next
  assume full: "30 < length ps \<and> mp_size (last ps) < mp_next (last ps) - mp_pool (last ps) + n"
  have P: "pools live E st ps" and ps: "ps \<noteq> []" using assms(3) by (simp_all add: pool_inv_def)
  have wf: "pool_wf (last ps)" using P ps by (simp add: pools_def)
  have "two_shl (sz_sub (length ps) 1) = Inl Undefined"
    using two_shl_len[of "length ps"] ps pools_length[OF P assms(2)] full
    by (simp add: SIZE_T_def)
  then have step: "grow_step mal E k n st = Inl Undefined" for k
    by (simp only: grow_step_def length_rep[OF pools_rep[OF P assms(2)]] and_then.simps)
  show "memory_pool_alloc mal E n st = Some (Inl Undefined)"
    using full by (simp add: memory_pool_alloc_def alloc_start_ok[OF assms(3,2)] step
      grow.simps[of _ _ _ _ "last ps"] pool_wf_fits[OF wf assms(4)])
qed

theorem pool_alloc_ends_witness:
  "(\<exists>r. memory_pool_alloc bump bump_array 100 bump_pool = Some r)
    \<and> memory_pool_alloc bump bump_array 100 bump_pool \<noteq> Some (Inl Undefined)"
  using pool_alloc_ends[OF bump_ok bump_array_ok bump_inv, of 100]
  by (simp add: SIZE_T_def shift_ok_def)

text \<open>
  C15. Every string that \<open>memory_pool_strdup\<close> has copied can be read back at the address it
  returned, with its terminator, after any further copies.\<close>

theorem pool_strdup_reads_back:
  assumes "malloc_ok live mal" "array_ok live E" "initialize_memory_pool mal E k h = Inr st"
    "\<forall>s\<in>set ss. length s + 1 < SIZE_T div 2" "strdups mal E ss st mem = Some (Inr (as, st', mem'))"
  shows "list_all2 (c_string mem') as ss"
proof -
  obtain p where p: "pool_inv live E st [p]"
    using initialized[OF assms(1,2), of k h] assms(3) by auto
  show ?thesis using strdups_ok[OF assms(1,2) p assms(4), of mem] assms(5) by auto
qed

theorem pool_strdup_reads_back_witness:
  "\<exists>as st mem. strdups bump bump_array [''cd'', ''kill''] bump_pool (\<lambda>_. CHR ''x'') = Some (Inr (as, st, mem))
    \<and> list_all2 (c_string mem) as [''cd'', ''kill'']"
proof -
  let ?mem = "write_bytes 4 (''kill'' @ [CHR 0x00]) (write_bytes 1 (''cd'' @ [CHR 0x00]) (\<lambda>_. CHR ''x''))"
  have run: "\<exists>st. strdups bump bump_array [''cd'', ''kill''] bump_pool (\<lambda>_. CHR ''x'')
      = Some (Inr ([1, 4], st, ?mem))"
    by (simp add: memory_pool_strdup_def memory_pool_alloc_def alloc_start_def alloc_finish_def
        grow.simps bump_eval bump_pool_def Let_def nat_literals is_empty_deque_def peek_front_def
        peek_back_def assert_nonempty_def last_index_def update_back_def assert_that_def)
  then obtain st where st: "strdups bump bump_array [''cd'', ''kill''] bump_pool (\<lambda>_. CHR ''x'')
      = Some (Inr ([1, 4], st, ?mem))" by blast
  show ?thesis
    using pool_strdup_reads_back[OF bump_ok bump_array_ok bump_init _ st] st
    by (auto simp: SIZE_T_def)
qed

text \<open>
  \<open>destroy_memory_pool\<close> frees every block of the pool exactly once and nothing else; a
  second call frees nothing, and an allocation after it fails its assertion.\<close>

theorem pool_freed_once:
  assumes "array_ok live E" "pool_inv live E st ps"
  shows "\<exists>fs st'. destroy_memory_pool st = Inr (fs, st') \<and> distinct fs \<and> 0 \<notin> set fs
    \<and> set fs = {mp_pool p | p. p \<in> set ps \<and> mp_pool p \<noteq> 0}
    \<and> destroy_memory_pool st' = Inr ([], st')
    \<and> memory_pool_alloc mal E n st' = Some (Inl AssertFail)"
proof -
  have P: "pools live E st ps" using assms(2) by (simp add: pool_inv_def)
  let ?fs = "concat (map destroy_pool ps)" and ?st = "st\<lparr>pool_deq := clear_deque (pool_deq st)\<rparr>"
  have "distinct ?fs" using P by (intro freed_distinct) (auto simp: pools_def)
  moreover have "0 \<notin> set ?fs" "set ?fs = {mp_pool p | p. p \<in> set ps \<and> mp_pool p \<noteq> 0}"
    by (auto simp: destroy_pool_def split: if_splits)
  moreover have "destroy_memory_pool ?st = Inr ([], ?st)"
    by (simp add: destroy_memory_pool_def destroy_deque_def cleared_invalid)
  moreover have "memory_pool_alloc mal E n ?st = Some (Inl AssertFail)"
    by (simp add: memory_pool_alloc_def alloc_start_def is_empty_deque_def cleared_invalid)
  ultimately show ?thesis using destroy_pools[OF P assms(1)] by blast
qed

theorem pool_freed_once_witness:
  "\<exists>fs st'. destroy_memory_pool bump_pool = Inr (fs, st') \<and> set fs = {1} \<and> distinct fs
    \<and> memory_pool_alloc bump bump_array 4 st' = Some (Inl AssertFail)"
  using pool_freed_once[OF bump_array_ok bump_inv, of bump 4] by auto



end
