(* ===== verification/Transition.thy ===== *)
theory Transition
  imports Prelude "HOL-Library.Multiset"
begin

text \<open>
  Concurrent programs as transition systems: reachable states, the invariant rule as an interface
  that each program interprets, and the bookkeeping of lists of thread states. Threads run one
  statement at a time in any order; a step that must wait is not enabled.
\<close>

inductive reachable :: "('s \<Rightarrow> bool) \<Rightarrow> ('s \<Rightarrow> 's \<Rightarrow> bool) \<Rightarrow> 's \<Rightarrow> bool"
  for start :: "'s \<Rightarrow> bool" and step :: "'s \<Rightarrow> 's \<Rightarrow> bool" where
  start: "start s \<Longrightarrow> reachable start step s"
| step: "reachable start step s \<Longrightarrow> step s t \<Longrightarrow> reachable start step t"

locale inductive_invariant =
  fixes start :: "'s \<Rightarrow> bool" and step :: "'s \<Rightarrow> 's \<Rightarrow> bool" and inv :: "'s \<Rightarrow> bool"
  assumes inv_start: "start s \<Longrightarrow> inv s"
    and inv_step: "inv s \<Longrightarrow> step s t \<Longrightarrow> inv t"
begin

lemma inv_reachable: "reachable start step s \<Longrightarrow> inv s"
  by (induction rule: reachable.induct) (auto intro: inv_start inv_step)

end

text \<open>A program that is never stuck before it is finished.\<close>

locale never_stuck = inductive_invariant +
  fixes final :: "'s \<Rightarrow> bool"
  assumes enabled: "inv s \<Longrightarrow> \<not> final s \<Longrightarrow> \<exists>t. step s t"
begin

lemma no_deadlock: "reachable start step s \<Longrightarrow> (\<exists>t. step s t) \<or> final s"
  using enabled inv_reachable by blast

end

section \<open>Lists of thread states\<close>

lemma all_update:
  "i < length xs \<Longrightarrow> (\<forall>j<length xs. P j (xs[i := x] ! j)) \<longleftrightarrow> P i x \<and> (\<forall>j<length xs. j \<noteq> i \<longrightarrow> P j (xs ! j))"
  by (auto simp: nth_list_update)

lemma mset_concat_update:
  "i < length xs \<Longrightarrow> mset (concat (map f (xs[i := x]))) + mset (f (xs ! i))
     = mset (concat (map f xs)) + mset (f x)"
proof (induction xs arbitrary: i)
  case (Cons y ys)
  then show ?case
  proof (cases i)
    case (Suc j)
    then show ?thesis using Cons.IH[of j] Cons.prems by (simp add: ac_simps)
  qed (simp add: ac_simps)
qed simp

end
