(* ===== verification/ProdCons.thy ===== *)
theory ProdCons
  imports Transition
begin

text \<open>
  The producer-consumer program (\<open>pthreads_pc/producer_consumer.c\<close>): a circular queue of five
  integers, its mutex and two condition variables, producer and consumer threads, and the thread
  of \<open>main\<close>. A thread's state is its program counter with its local variables; a statement that
  takes the mutex or waits is a step of its own. Waiting on a condition variable is a program
  counter of its own too, left by a broadcast or by a spurious wakeup, as POSIX allows.
\<close>

section \<open>The queue\<close>

definition QUEUESIZE :: nat where "QUEUESIZE = 5"
definition WORK_MAX :: int where "WORK_MAX = 30"

record fifo_queue =
  q_buf :: "int cell list"
  q_head :: nat
  q_tail :: nat
  q_full :: bool
  q_empty :: bool

definition queueInit :: fifo_queue where
  "queueInit = \<lparr>q_buf = replicate QUEUESIZE Uninit, q_head = 0, q_tail = 0, q_full = False,
     q_empty = True\<rparr>"

definition queueAdd :: "fifo_queue \<Rightarrow> int \<Rightarrow> fifo_queue" where
  "queueAdd q x =
     (let t = (if q_tail q + 1 = QUEUESIZE then 0 else q_tail q + 1) in
      q\<lparr>q_buf := (q_buf q)[q_tail q := Val x], q_tail := t,
        q_full := (if t = q_head q then True else q_full q), q_empty := False\<rparr>)"

definition queueRemove :: "fifo_queue \<Rightarrow> int cell \<times> fifo_queue" where
  "queueRemove q =
     (let h = (if q_head q + 1 = QUEUESIZE then 0 else q_head q + 1) in
      (q_buf q ! q_head q,
       q\<lparr>q_head := h, q_empty := (if h = q_tail q then True else q_empty q), q_full := False\<rparr>))"

section \<open>Sleeping and working\<close>

text \<open>The argument of \<open>nanosleep\<close>: seconds and nanoseconds.\<close>

definition sleep_request :: "nat \<Rightarrow> nat \<times> nat" where
  "sleep_request ms = (ms div 1000, (ms - ms div 1000 * 1000) * 1000000)"

text \<open>
  \<open>nanosleep\<close> is a parameter: it returns the remaining time when it is interrupted. The result
  counts the lines \<open>restless\<close> that are printed.
\<close>

partial_function (option) msleep_loop ::
  "('w \<Rightarrow> nat \<times> nat \<Rightarrow> (nat \<times> nat) option \<times> 'w) \<Rightarrow> nat \<times> nat \<Rightarrow> 'w \<Rightarrow> (nat \<times> 'w) option" where
  "msleep_loop nanosleep req w = (case nanosleep w req of
     (None, w) \<Rightarrow> Some (0, w)
   | (Some rest, w) \<Rightarrow> Option.bind (msleep_loop nanosleep rest w) (\<lambda>(k, w). Some (Suc k, w)))"

declare msleep_loop.simps [code]

definition msleep ::
  "('w \<Rightarrow> nat \<times> nat \<Rightarrow> (nat \<times> nat) option \<times> 'w) \<Rightarrow> nat \<Rightarrow> 'w \<Rightarrow> (nat \<times> 'w) option" where
  "msleep nanosleep ms = msleep_loop nanosleep (sleep_request ms)"

text \<open>\<open>do_work\<close> reads the first 1000 words of a memory area and then sleeps: the reads, and the sleep.\<close>

definition do_work :: "('w \<Rightarrow> nat \<times> nat \<Rightarrow> (nat \<times> nat) option \<times> 'w) \<Rightarrow> nat \<Rightarrow> nat \<Rightarrow> 'w
    \<Rightarrow> (nat list \<times> 'w) option" where
  "do_work nanosleep cpu_iterations blocking_time w =
     (let accesses = concat (replicate cpu_iterations [0..<1000]) in
      if 0 < blocking_time then map_option (\<lambda>(_, w). (accesses, w)) (msleep nanosleep blocking_time w)
      else Some (accesses, w))"

section \<open>The threads\<close>

datatype tid = Pro nat | Con nat

text \<open>The lines the threads print.\<close>

datatype line = FULL nat | Produced nat int | ProExited nat
  | EMPTY nat | Consumed nat "int cell" | ConExited nat

datatype pro_pc = PNew | PWork | PLock | PLoop | PWait | PWake | PTest | PAdd
  | PSignal int | PUnlock int | PSay int | PExit | PBye | PDone

datatype con_pc = CNew | CLock | CLoop | CWait | CWake | CTest | CRemove
  | CSignal "int cell" | CUnlock "int cell" | CSay "int cell" | CExit | CBye | CDone

datatype main_pc = MakePro nat | MakeCon nat | JoinPro nat | JoinCon nat | Delete | Ended

record pc_state =
  fifo :: fifo_queue
  freed :: bool
  mutex :: "tid option"
  procount :: int
  concount :: int
  pros :: "pro_pc list"
  cons :: "con_pc list"
  main_at :: main_pc
  printed :: "line list"

definition goto_pro :: "nat \<Rightarrow> pro_pc \<Rightarrow> pc_state \<Rightarrow> pc_state" where
  "goto_pro i pc s = s\<lparr>pros := (pros s)[i := pc]\<rparr>"

definition goto_con :: "nat \<Rightarrow> con_pc \<Rightarrow> pc_state \<Rightarrow> pc_state" where
  "goto_con i pc s = s\<lparr>cons := (cons s)[i := pc]\<rparr>"

definition say :: "line \<Rightarrow> pc_state \<Rightarrow> pc_state" where
  "say l s = s\<lparr>printed := printed s @ [l]\<rparr>"

text \<open>\<open>pthread_cond_broadcast\<close>: every waiting thread goes on to take the mutex again.\<close>

definition broadcast_notFull :: "pc_state \<Rightarrow> pc_state" where
  "broadcast_notFull s = s\<lparr>pros := map (\<lambda>pc. if pc = PWait then PWake else pc) (pros s)\<rparr>"

definition broadcast_notEmpty :: "pc_state \<Rightarrow> pc_state" where
  "broadcast_notEmpty s = s\<lparr>cons := map (\<lambda>pc. if pc = CWait then CWake else pc) (cons s)\<rparr>"

text \<open>One statement of \<open>producer\<close>. \<open>None\<close>: the thread has to wait, or has not started or has ended.\<close>

definition producer_step :: "nat \<Rightarrow> pc_state \<Rightarrow> pc_state option" where
  "producer_step i s = (case pros s ! i of
     PNew \<Rightarrow> None
   | PWork \<Rightarrow> Some (goto_pro i PLock s)
   | PLock \<Rightarrow> (if mutex s = None then Some (goto_pro i PLoop (s\<lparr>mutex := Some (Pro i)\<rparr>)) else None)
   | PLoop \<Rightarrow> Some (if q_full (fifo s) \<and> procount s \<noteq> WORK_MAX
       then goto_pro i PWait (say (FULL i) (s\<lparr>mutex := None\<rparr>))
       else goto_pro i PTest s)
   | PWait \<Rightarrow> None
   | PWake \<Rightarrow> (if mutex s = None then Some (goto_pro i PLoop (s\<lparr>mutex := Some (Pro i)\<rparr>)) else None)
   | PTest \<Rightarrow> Some (goto_pro i (if procount s \<ge> WORK_MAX then PExit else PAdd) s)
   | PAdd \<Rightarrow> Some (goto_pro i (PSignal (procount s))
       (s\<lparr>procount := procount s + 1, fifo := queueAdd (fifo s) (procount s)\<rparr>))
   | PSignal item \<Rightarrow> Some (goto_pro i (PUnlock item) (broadcast_notEmpty s))
   | PUnlock item \<Rightarrow> Some (goto_pro i (PSay item) (s\<lparr>mutex := None\<rparr>))
   | PSay item \<Rightarrow> Some (goto_pro i PWork (say (Produced i item) s))
   | PExit \<Rightarrow> Some (goto_pro i PBye (s\<lparr>mutex := None\<rparr>))
   | PBye \<Rightarrow> Some (goto_pro i PDone (say (ProExited i) s))
   | PDone \<Rightarrow> None)"

definition consumer_step :: "nat \<Rightarrow> pc_state \<Rightarrow> pc_state option" where
  "consumer_step i s = (case cons s ! i of
     CNew \<Rightarrow> None
   | CLock \<Rightarrow> (if mutex s = None then Some (goto_con i CLoop (s\<lparr>mutex := Some (Con i)\<rparr>)) else None)
   | CLoop \<Rightarrow> Some (if q_empty (fifo s) \<and> concount s \<noteq> WORK_MAX
       then goto_con i CWait (say (EMPTY i) (s\<lparr>mutex := None\<rparr>))
       else goto_con i CTest s)
   | CWait \<Rightarrow> None
   | CWake \<Rightarrow> (if mutex s = None then Some (goto_con i CLoop (s\<lparr>mutex := Some (Con i)\<rparr>)) else None)
   | CTest \<Rightarrow> Some (goto_con i (if concount s \<ge> WORK_MAX then CExit else CRemove) s)
   | CRemove \<Rightarrow> (let (item, q) = queueRemove (fifo s) in
       Some (goto_con i (CSignal item) (s\<lparr>fifo := q, concount := concount s + 1\<rparr>)))
   | CSignal item \<Rightarrow> Some (goto_con i (CUnlock item) (broadcast_notFull s))
   | CUnlock item \<Rightarrow> Some (goto_con i (CSay item) (s\<lparr>mutex := None\<rparr>))
   | CSay item \<Rightarrow> Some (goto_con i CLock (say (Consumed i item) s))
   | CExit \<Rightarrow> Some (goto_con i CBye (s\<lparr>mutex := None\<rparr>))
   | CBye \<Rightarrow> Some (goto_con i CDone (say (ConExited i) s))
   | CDone \<Rightarrow> None)"

text \<open>\<open>queueDelete\<close> gives the queue back; no thread may use it afterwards.\<close>

definition queueDelete :: "pc_state \<Rightarrow> pc_state" where
  "queueDelete s = s\<lparr>freed := True\<rparr>"

text \<open>The thread of \<open>main\<close>: create the threads, join them, delete the queue.\<close>

definition main_step :: "pc_state \<Rightarrow> pc_state option" where
  "main_step s = (case main_at s of
     MakePro i \<Rightarrow> Some (if i < length (pros s)
       then (goto_pro i PWork s)\<lparr>main_at := MakePro (Suc i)\<rparr> else s\<lparr>main_at := MakeCon 0\<rparr>)
   | MakeCon i \<Rightarrow> Some (if i < length (cons s)
       then (goto_con i CLock s)\<lparr>main_at := MakeCon (Suc i)\<rparr> else s\<lparr>main_at := JoinPro 0\<rparr>)
   | JoinPro i \<Rightarrow> if i < length (pros s)
       then (if pros s ! i = PDone then Some (s\<lparr>main_at := JoinPro (Suc i)\<rparr>) else None)
       else Some (s\<lparr>main_at := JoinCon 0\<rparr>)
   | JoinCon i \<Rightarrow> if i < length (cons s)
       then (if cons s ! i = CDone then Some (s\<lparr>main_at := JoinCon (Suc i)\<rparr>) else None)
       else Some (s\<lparr>main_at := Delete\<rparr>)
   | Delete \<Rightarrow> Some ((queueDelete s)\<lparr>main_at := Ended\<rparr>)
   | Ended \<Rightarrow> None)"

text \<open>
  The start of \<open>main\<close>. \<open>fits n\<close> says that \<open>malloc (n)\<close> succeeds, \<open>p\<close> and \<open>c\<close> are the
  results of \<open>atoi\<close>, \<open>p0\<close> and \<open>c0\<close> the contents of the two counters, which are allocated and
  never written before the threads read them. The left results are exit codes.
\<close>

definition initial :: "nat \<Rightarrow> nat \<Rightarrow> int \<Rightarrow> int \<Rightarrow> pc_state" where
  "initial p c p0 c0 = \<lparr>fifo = queueInit, freed = False, mutex = None, procount = p0, concount = c0,
     pros = replicate p PNew, cons = replicate c CNew, main_at = MakePro 0, printed = []\<rparr>"

definition pointers_bytes :: "int \<Rightarrow> nat" where
  "pointers_bytes k = nat ((8 * k) mod 2 ^ 64)"

definition main_start :: "(nat \<Rightarrow> bool) \<Rightarrow> nat \<Rightarrow> int \<Rightarrow> int \<Rightarrow> int \<Rightarrow> int \<Rightarrow> int + pc_state" where
  "main_start fits argc p c p0 c0 =
     (if argc \<noteq> 3 then Inl 0
      else if \<not> fits 64 then Inl 1
      else if \<not> fits 4 then Inl 1
      else if \<not> fits (pointers_bytes p) then Inl 1
      else if \<not> fits (pointers_bytes c) then Inl 1
      else Inr (initial (nat p) (nat c) p0 c0))"

inductive pc_step :: "pc_state \<Rightarrow> pc_state \<Rightarrow> bool" where
  producer: "i < length (pros s) \<Longrightarrow> producer_step i s = Some t \<Longrightarrow> pc_step s t"
| consumer: "i < length (cons s) \<Longrightarrow> consumer_step i s = Some t \<Longrightarrow> pc_step s t"
| main: "main_step s = Some t \<Longrightarrow> pc_step s t"

text \<open>With the wakeups that nobody asked for.\<close>

inductive pc_step_spurious :: "pc_state \<Rightarrow> pc_state \<Rightarrow> bool" where
  run: "pc_step s t \<Longrightarrow> pc_step_spurious s t"
| wake_producer: "i < length (pros s) \<Longrightarrow> pros s ! i = PWait \<Longrightarrow> pc_step_spurious s (goto_pro i PWake s)"
| wake_consumer: "i < length (cons s) \<Longrightarrow> cons s ! i = CWait \<Longrightarrow> pc_step_spurious s (goto_con i CWake s)"

end
