(* ===== verification/ProdCons_Correct.thy ===== *)
theory ProdCons_Correct
  imports ProdCons
begin

text \<open>
  Correctness of the producer-consumer program when both counters start at 0: mutual exclusion, the
  queue holds the items between the two counters in order, no thread sleeps without somebody left
  to wake it, no deadlock, and every item is printed once by a producer and once by a consumer.
\<close>

section \<open>The circular queue\<close>

definition qrep :: "fifo_queue \<Rightarrow> int list \<Rightarrow> bool" where
  "qrep q xs \<longleftrightarrow> length (q_buf q) = QUEUESIZE \<and> q_head q < QUEUESIZE \<and> length xs \<le> QUEUESIZE
     \<and> q_tail q = (q_head q + length xs) mod QUEUESIZE \<and> q_full q = (length xs = QUEUESIZE)
     \<and> q_empty q = (xs = []) \<and> (\<forall>i<length xs. q_buf q ! ((q_head q + i) mod QUEUESIZE) = Val (xs ! i))"

lemma QUEUESIZE_pos [simp]: "0 < QUEUESIZE"
  by (simp add: QUEUESIZE_def)

lemma wrap_Suc: "k < n \<Longrightarrow> (if k + 1 = n then 0 else k + 1) = Suc k mod (n :: nat)"
  by auto

lemma qrep_init: "qrep queueInit []"
  by (simp add: qrep_def queueInit_def)

lemma qrep_add:
  assumes q: "qrep q xs" and room: "length xs < QUEUESIZE"
  shows "qrep (queueAdd q x) (xs @ [x])"
proof -
  let ?h = "q_head q" and ?n = "length xs"
  have t: "q_tail q = (?h + ?n) mod QUEUESIZE" "q_tail q < QUEUESIZE" using q by (simp_all add: qrep_def)
  have tail: "(if q_tail q + 1 = QUEUESIZE then 0 else q_tail q + 1) = (?h + Suc ?n) mod QUEUESIZE"
    using wrap_Suc[OF t(2)] t(1) by (simp add: mod_Suc_eq)
  have full: "(?h + Suc ?n) mod QUEUESIZE = ?h \<longleftrightarrow> Suc ?n = QUEUESIZE"
  proof
    assume "(?h + Suc ?n) mod QUEUESIZE = ?h"
    then have "\<not> Suc ?n < QUEUESIZE"
      using ring_inj[of ?h "Suc ?n" QUEUESIZE 0] q by (auto simp: qrep_def)
    then show "Suc ?n = QUEUESIZE" using room by simp
  qed (use q in \<open>simp add: qrep_def\<close>)
  have slot: "(?h + i) mod QUEUESIZE \<noteq> (?h + ?n) mod QUEUESIZE" if "i < ?n" for i
    using ring_inj[of ?h i QUEUESIZE ?n] that room by auto
  show ?thesis
    using q room full slot slot[symmetric]
    unfolding queueAdd_def Let_def tail
    by (auto simp: qrep_def nth_append less_Suc_eq)
qed

lemma qrep_remove:
  assumes q: "qrep q (x # xs)"
  shows "fst (queueRemove q) = Val x \<and> qrep (snd (queueRemove q)) xs"
proof -
  let ?h = "q_head q"
  have h: "?h < QUEUESIZE" and n: "length xs < QUEUESIZE" using q by (auto simp: qrep_def)
  have head: "(if ?h + 1 = QUEUESIZE then 0 else ?h + 1) = Suc ?h mod QUEUESIZE"
    by (rule wrap_Suc[OF h])
  have nxt: "(Suc ?h mod QUEUESIZE + i) mod QUEUESIZE = (?h + Suc i) mod QUEUESIZE" for i
    by (simp add: mod_add_left_eq)
  have tail: "q_tail q = (Suc ?h mod QUEUESIZE + length xs) mod QUEUESIZE"
    using q by (simp add: qrep_def nxt)
  have emp: "Suc ?h mod QUEUESIZE = q_tail q \<longleftrightarrow> xs = []"
    using ring_inj[of "Suc ?h mod QUEUESIZE" 0 QUEUESIZE "length xs"] n unfolding tail by auto
  have "q_buf q ! ?h = Val x"
    using q h by (auto simp: qrep_def)
  moreover have "q_buf q ! ((Suc ?h mod QUEUESIZE + i) mod QUEUESIZE) = Val (xs ! i)" if "i < length xs" for i
    unfolding nxt using q that by (auto simp: qrep_def)
  ultimately show ?thesis
    using q n emp tail unfolding queueRemove_def Let_def head
    by (auto simp: qrep_def)
qed

section \<open>The invariant\<close>

fun pro_holds :: "pro_pc \<Rightarrow> bool" where
  "pro_holds PLoop = True" | "pro_holds PTest = True" | "pro_holds PAdd = True"
| "pro_holds (PSignal x) = True" | "pro_holds (PUnlock x) = True" | "pro_holds PExit = True"
| "pro_holds _ = False"

fun con_holds :: "con_pc \<Rightarrow> bool" where
  "con_holds CLoop = True" | "con_holds CTest = True" | "con_holds CRemove = True"
| "con_holds (CSignal x) = True" | "con_holds (CUnlock x) = True" | "con_holds CExit = True"
| "con_holds _ = False"

definition lock_ok :: "pc_state \<Rightarrow> bool" where
  "lock_ok s \<longleftrightarrow> (\<forall>i<length (pros s). pro_holds (pros s ! i) = (mutex s = Some (Pro i)))
     \<and> (\<forall>i<length (cons s). con_holds (cons s ! i) = (mutex s = Some (Con i)))
     \<and> (\<forall>i. mutex s = Some (Pro i) \<longrightarrow> i < length (pros s))
     \<and> (\<forall>i. mutex s = Some (Con i) \<longrightarrow> i < length (cons s))"

text \<open>The queue holds the items from one counter to the other.\<close>

definition data_ok :: "pc_state \<Rightarrow> bool" where
  "data_ok s \<longleftrightarrow> 0 \<le> concount s \<and> concount s \<le> procount s \<and> procount s \<le> WORK_MAX
     \<and> qrep (fifo s) [concount s..procount s - 1]"

definition signals_notEmpty :: "pc_state \<Rightarrow> bool" where
  "signals_notEmpty s \<longleftrightarrow> (\<exists>i<length (pros s). \<exists>x. pros s ! i = PSignal x)"

definition signals_notFull :: "pc_state \<Rightarrow> bool" where
  "signals_notFull s \<longleftrightarrow> (\<exists>i<length (cons s). \<exists>x. cons s ! i = CSignal x)"

text \<open>
  What a thread knows at each point. A waiting thread has reason to wait, or the broadcast that
  wakes it is the next statement of the thread that holds the mutex.
\<close>

fun pro_knows :: "pc_state \<Rightarrow> pro_pc \<Rightarrow> bool" where
  "pro_knows s PTest = (q_full (fifo s) \<longrightarrow> procount s = WORK_MAX)"
| "pro_knows s PAdd = (\<not> q_full (fifo s) \<and> procount s < WORK_MAX)"
| "pro_knows s PExit = (procount s = WORK_MAX)"
| "pro_knows s PBye = (procount s = WORK_MAX)"
| "pro_knows s PDone = (procount s = WORK_MAX)"
| "pro_knows s PWait = (q_full (fifo s) \<and> procount s < WORK_MAX \<or> signals_notFull s)"
| "pro_knows s _ = True"

fun con_knows :: "pc_state \<Rightarrow> con_pc \<Rightarrow> bool" where
  "con_knows s CTest = (q_empty (fifo s) \<longrightarrow> concount s = WORK_MAX)"
| "con_knows s CRemove = (\<not> q_empty (fifo s) \<and> concount s < WORK_MAX)"
| "con_knows s CExit = (concount s = WORK_MAX)"
| "con_knows s CBye = (concount s = WORK_MAX)"
| "con_knows s CDone = (concount s = WORK_MAX)"
| "con_knows s CWait = (q_empty (fifo s) \<and> concount s < WORK_MAX \<or> signals_notEmpty s)"
| "con_knows s _ = True"

definition know_ok :: "pc_state \<Rightarrow> bool" where
  "know_ok s \<longleftrightarrow> (\<forall>i<length (pros s). pro_knows s (pros s ! i))
     \<and> (\<forall>i<length (cons s). con_knows s (cons s ! i))"

definition main_ok :: "pc_state \<Rightarrow> bool" where
  "main_ok s \<longleftrightarrow> (case main_at s of
     MakePro k \<Rightarrow> k \<le> length (pros s) \<and> (\<forall>i<length (pros s). pros s ! i = PNew \<longleftrightarrow> k \<le> i)
       \<and> (\<forall>i<length (cons s). cons s ! i = CNew)
   | MakeCon k \<Rightarrow> k \<le> length (cons s) \<and> (\<forall>i<length (pros s). pros s ! i \<noteq> PNew)
       \<and> (\<forall>i<length (cons s). cons s ! i = CNew \<longleftrightarrow> k \<le> i)
   | JoinPro k \<Rightarrow> k \<le> length (pros s) \<and> (\<forall>i<length (pros s). pros s ! i \<noteq> PNew) \<and> (\<forall>i<length (cons s). cons s ! i \<noteq> CNew)
       \<and> (\<forall>i<k. pros s ! i = PDone)
   | JoinCon k \<Rightarrow> k \<le> length (cons s) \<and> (\<forall>i<length (pros s). pros s ! i = PDone) \<and> (\<forall>i<length (cons s). cons s ! i \<noteq> CNew)
       \<and> (\<forall>i<k. cons s ! i = CDone)
   | _ \<Rightarrow> (\<forall>i<length (pros s). pros s ! i = PDone) \<and> (\<forall>i<length (cons s). cons s ! i = CDone))
   \<and> (freed s \<longleftrightarrow> main_at s = Ended)"

lemmas state_ops = goto_pro_def goto_con_def say_def broadcast_notFull_def broadcast_notEmpty_def
  queueDelete_def Let_def

lemma items_empty: "data_ok s \<Longrightarrow> q_empty (fifo s) \<longleftrightarrow> concount s = procount s"
  by (auto simp: data_ok_def qrep_def)

lemma items_full: "data_ok s \<Longrightarrow> q_full (fifo s) \<longleftrightarrow> procount s = concount s + 5"
  by (auto simp: data_ok_def qrep_def QUEUESIZE_def)

subsection \<open>Producers\<close>

lemma lock_goto_pro:
  assumes "lock_ok s" "i < length (pros s)"
  shows "pro_holds pc = pro_holds (pros s ! i) \<Longrightarrow> lock_ok (goto_pro i pc s)"
    and "mutex s = None \<Longrightarrow> pro_holds pc \<Longrightarrow> lock_ok (goto_pro i pc (s\<lparr>mutex := Some (Pro i)\<rparr>))"
    and "pro_holds (pros s ! i) \<Longrightarrow> \<not> pro_holds pc \<Longrightarrow> lock_ok (goto_pro i pc (s\<lparr>mutex := None\<rparr>))"
  using assms by (auto simp: lock_ok_def goto_pro_def nth_list_update)

lemma lock_other [simp]:
  "lock_ok (s\<lparr>fifo := q\<rparr>) = lock_ok s" "lock_ok (s\<lparr>procount := p\<rparr>) = lock_ok s"
  "lock_ok (s\<lparr>concount := p\<rparr>) = lock_ok s" "lock_ok (s\<lparr>main_at := m\<rparr>) = lock_ok s"
  "lock_ok (say l s) = lock_ok s" "lock_ok (queueDelete s) = lock_ok s"
  by (simp_all add: lock_ok_def say_def queueDelete_def)

lemma lock_broadcast:
  "lock_ok s \<Longrightarrow> lock_ok (broadcast_notFull s)" "lock_ok s \<Longrightarrow> lock_ok (broadcast_notEmpty s)"
  by (auto simp: lock_ok_def broadcast_notFull_def broadcast_notEmpty_def)

lemma say_simps [simp]:
  "pros (say l s) = pros s" "cons (say l s) = cons s" "mutex (say l s) = mutex s"
  "fifo (say l s) = fifo s" "procount (say l s) = procount s" "concount (say l s) = concount s"
  "(say l s)\<lparr>mutex := m\<rparr> = say l (s\<lparr>mutex := m\<rparr>)"
  by (simp_all add: say_def)

lemma broadcast_simps [simp]:
  "pros (broadcast_notEmpty s) = pros s" "cons (broadcast_notFull s) = cons s"
  "fifo (broadcast_notEmpty s) = fifo s" "fifo (broadcast_notFull s) = fifo s"
  "procount (broadcast_notEmpty s) = procount s" "procount (broadcast_notFull s) = procount s"
  "concount (broadcast_notEmpty s) = concount s" "concount (broadcast_notFull s) = concount s"
  by (simp_all add: broadcast_notEmpty_def broadcast_notFull_def)

lemma producer_lock:
  assumes "lock_ok s" "i < length (pros s)" "producer_step i s = Some t"
  shows "lock_ok t"
  using assms lock_goto_pro(1)[of "s\<lparr>procount := p, fifo := q\<rparr>" i for p q]
    lock_goto_pro(1)[of "say l s" i for l] lock_goto_pro(1)[of "broadcast_notEmpty s" i]
    lock_goto_pro(3)[of "say l s" i for l] lock_goto_pro[of s i]
  by (cases "pros s ! i") (auto simp: producer_step_def lock_broadcast split: if_splits)

lemma producer_data:
  assumes "data_ok s" "know_ok s" "i < length (pros s)" "producer_step i s = Some t"
  shows "data_ok t"
proof (cases "pros s ! i = PAdd")
  case True
  then have room: "\<not> q_full (fifo s)" "procount s < WORK_MAX"
    using assms(2,3) by (auto simp: know_ok_def dest!: spec[of _ i])
  have q: "qrep (fifo s) [concount s..procount s - 1]" using assms(1) by (simp add: data_ok_def)
  have "length [concount s..procount s - 1] < QUEUESIZE"
    using q room(1) by (auto simp: qrep_def)
  from qrep_add[OF q this, of "procount s"]
  have "qrep (queueAdd (fifo s) (procount s)) [concount s..procount s]"
    using assms(1) upto_rec2[of "concount s" "procount s"] by (simp add: data_ok_def)
  then show ?thesis
    using True assms(1,4) room(2) by (auto simp: data_ok_def producer_step_def state_ops)
next
  case False
  then show ?thesis
    using assms(1,4)
    by (auto simp: data_ok_def producer_step_def state_ops split: pro_pc.splits if_splits)
qed

lemma know_other [simp]:
  "know_ok (s\<lparr>mutex := m\<rparr>) = know_ok s" "know_ok (say l s) = know_ok s"
  "know_ok (s\<lparr>main_at := a\<rparr>) = know_ok s" "know_ok (queueDelete s) = know_ok s"
proof -
  have "pro_knows (f s) x = pro_knows s x" "con_knows (f s) y = con_knows s y"
    if "fifo (f s) = fifo s" "procount (f s) = procount s" "concount (f s) = concount s"
      "pros (f s) = pros s" "cons (f s) = cons s" for f x y
    using that by (cases x; cases y; simp add: signals_notFull_def signals_notEmpty_def)+
  from this[of "\<lambda>s. s\<lparr>mutex := m\<rparr>"] this[of "say l"] this[of "\<lambda>s. s\<lparr>main_at := a\<rparr>"] this[of queueDelete]
  show "know_ok (s\<lparr>mutex := m\<rparr>) = know_ok s" "know_ok (say l s) = know_ok s"
    "know_ok (s\<lparr>main_at := a\<rparr>) = know_ok s" "know_ok (queueDelete s) = know_ok s"
    by (simp_all add: know_ok_def queueDelete_def)
qed

lemma goto_pro_simps [simp]:
  "fifo (goto_pro i pc s) = fifo s" "procount (goto_pro i pc s) = procount s"
  "concount (goto_pro i pc s) = concount s" "cons (goto_pro i pc s) = cons s"
  "pros (goto_pro i pc s) = (pros s)[i := pc]"
  by (simp_all add: goto_pro_def)

lemma goto_con_simps [simp]:
  "fifo (goto_con i pc s) = fifo s" "procount (goto_con i pc s) = procount s"
  "concount (goto_con i pc s) = concount s" "pros (goto_con i pc s) = pros s"
  "cons (goto_con i pc s) = (cons s)[i := pc]"
  by (simp_all add: goto_con_def)

lemma know_goto_pro:
  assumes K: "know_ok s" and i: "i < length (pros s)" and pc: "pro_knows s pc"
    and old: "\<And>x. pros s ! i \<noteq> PSignal x"
  shows "know_ok (goto_pro i pc s)"
proof -
  have full: "signals_notFull (goto_pro i pc s) = signals_notFull s"
    by (simp add: signals_notFull_def)
  have emp: "signals_notEmpty s \<Longrightarrow> signals_notEmpty (goto_pro i pc s)"
    using old unfolding signals_notEmpty_def by simp (metis nth_list_update_neq)
  have "pro_knows (goto_pro i pc s) x = pro_knows s x" for x
    by (cases x) (simp_all add: full)
  moreover have "con_knows s x \<Longrightarrow> con_knows (goto_pro i pc s) x" for x
    using emp by (cases x) auto
  ultimately show ?thesis
    using K i pc by (auto simp: know_ok_def nth_list_update)
qed

lemma know_signal_notEmpty:
  assumes K: "know_ok s" and i: "i < length (pros s)"
  shows "know_ok (goto_pro i (PUnlock x) (broadcast_notEmpty s))"
proof -
  let ?t = "goto_pro i (PUnlock x) (broadcast_notEmpty s)"
  have full: "signals_notFull ?t = signals_notFull s"
    by (auto simp: signals_notFull_def broadcast_notEmpty_def split: if_splits)
  have "pro_knows ?t y = pro_knows s y" for y by (cases y) (simp_all add: full)
  moreover have "y \<noteq> CWait \<Longrightarrow> con_knows ?t y = con_knows s y" for y by (cases y) auto
  ultimately show ?thesis
    using K i by (auto simp: know_ok_def nth_list_update) (auto simp: broadcast_notEmpty_def)
qed

lemma know_add:
  assumes K: "know_ok s" and L: "lock_ok s" and i: "i < length (pros s)" "pros s ! i = PAdd"
  shows "know_ok (goto_pro i (PSignal x) (s\<lparr>procount := p, fifo := q\<rparr>))"
proof -
  let ?t = "goto_pro i (PSignal x) (s\<lparr>procount := p, fifo := q\<rparr>)"
  have m: "mutex s = Some (Pro i)" using L i by (auto simp: lock_ok_def dest!: spec[of _ i])
  have room: "\<not> q_full (fifo s)" "procount s < WORK_MAX"
    using K i by (auto simp: know_ok_def dest!: spec[of _ i])
  have "\<not> signals_notFull s" using L m by (force simp: signals_notFull_def lock_ok_def)
  then have pro: "pro_knows ?t (pros s ! j)" if "j < length (pros s)" "j \<noteq> i" for j
    using K L that room m
    by (cases "pros s ! j") (auto simp: know_ok_def lock_ok_def dest!: spec[of _ j])
  have "signals_notEmpty ?t" using i(1) by (auto simp: signals_notEmpty_def intro!: exI[of _ i])
  then have con: "con_knows ?t (cons s ! j)" if "j < length (cons s)" for j
    using K L that m
    by (cases "cons s ! j") (auto simp: know_ok_def lock_ok_def dest!: spec[of _ j])
  show ?thesis using pro con i(1) by (auto simp: know_ok_def nth_list_update)
qed

lemma producer_know:
  assumes K: "know_ok s" and L: "lock_ok s" and D: "data_ok s"
    and i: "i < length (pros s)" and step: "producer_step i s = Some t"
  shows "know_ok t"
proof -
  have go: "know_ok (goto_pro i pc s')" if "know_ok s'" "pros s' = pros s" "pro_knows s' pc"
    "\<And>x. pros s ! i \<noteq> PSignal x" for s' pc
    using know_goto_pro[OF that(1) _ that(3)] that(2,4) i by simp
  have "pro_knows s (pros s ! i)" using K i by (simp add: know_ok_def)
  moreover have "procount s \<le> WORK_MAX" using D by (simp add: data_ok_def)
  ultimately show ?thesis
    using K step i go[of s] go[of "s\<lparr>mutex := m\<rparr>" for m] go[of "say l (s\<lparr>mutex := m\<rparr>)" for l m]
      go[of "say l s" for l] know_signal_notEmpty[OF K i] know_add[OF K L i]
    by (cases "pros s ! i") (auto simp: producer_step_def split: if_splits)
qed

lemma producer_main:
  assumes "main_ok s" "i < length (pros s)" "producer_step i s = Some t"
  shows "main_ok t"
proof -
  have started: "pros s ! i \<noteq> PNew" "pros s ! i \<noteq> PDone"
    using assms(3) by (auto simp: producer_step_def split: pro_pc.splits)
  have t: "main_at t = main_at s" "freed t = freed s" "length (pros t) = length (pros s)"
      "length (cons t) = length (cons s)" "\<And>j. j \<noteq> i \<Longrightarrow> pros t ! j = pros s ! j" "pros t ! i \<noteq> PNew"
      "\<And>j. j < length (cons s) \<Longrightarrow> cons t ! j = CNew \<longleftrightarrow> cons s ! j = CNew"
      "\<And>j. j < length (cons s) \<Longrightarrow> cons t ! j = CDone \<longleftrightarrow> cons s ! j = CDone"
    using assms(2,3)
    by (auto simp: producer_step_def state_ops split: pro_pc.splits if_splits)
  have pro: "pros t ! j = PNew \<longleftrightarrow> pros s ! j = PNew" for j
    using t(5)[of j] t(6) started(1) by (cases "j = i") auto
  have fin: "pros s ! j = PDone \<Longrightarrow> pros t ! j = PDone" for j
    using t(5)[of j] started(2) by (cases "j = i") auto
  show ?thesis
    using assms(1) t(1-4,7,8) pro fin
    by (auto simp: main_ok_def split: main_pc.splits)
qed

subsection \<open>Consumers\<close>

lemma lock_goto_con:
  assumes "lock_ok s" "i < length (cons s)"
  shows "con_holds pc = con_holds (cons s ! i) \<Longrightarrow> lock_ok (goto_con i pc s)"
    and "mutex s = None \<Longrightarrow> con_holds pc \<Longrightarrow> lock_ok (goto_con i pc (s\<lparr>mutex := Some (Con i)\<rparr>))"
    and "con_holds (cons s ! i) \<Longrightarrow> \<not> con_holds pc \<Longrightarrow> lock_ok (goto_con i pc (s\<lparr>mutex := None\<rparr>))"
  using assms by (auto simp: lock_ok_def goto_con_def nth_list_update)

lemma consumer_lock:
  assumes "lock_ok s" "i < length (cons s)" "consumer_step i s = Some t"
  shows "lock_ok t"
  using assms lock_goto_con(1)[of "s\<lparr>fifo := q, concount := p\<rparr>" i for p q]
    lock_goto_con(1)[of "say l s" i for l] lock_goto_con(1)[of "broadcast_notFull s" i]
    lock_goto_con(3)[of "say l s" i for l] lock_goto_con[of s i]
  by (cases "cons s ! i") (auto simp: consumer_step_def lock_broadcast Let_def split: if_splits prod.splits)

lemma consumer_data:
  assumes "data_ok s" "know_ok s" "i < length (cons s)" "consumer_step i s = Some t"
  shows "data_ok t"
proof (cases "cons s ! i = CRemove")
  case True
  then have some: "\<not> q_empty (fifo s)" "concount s < WORK_MAX"
    using assms(2,3) by (auto simp: know_ok_def dest!: spec[of _ i])
  have q: "qrep (fifo s) [concount s..procount s - 1]" using assms(1) by (simp add: data_ok_def)
  have lt: "concount s < procount s"
    using some(1) assms(1) items_empty[OF assms(1)] by (auto simp: data_ok_def)
  then have "[concount s..procount s - 1] = concount s # [concount s + 1..procount s - 1]"
    by (simp add: upto_rec1)
  then have "qrep (snd (queueRemove (fifo s))) [concount s + 1..procount s - 1]"
    using qrep_remove q by metis
  then show ?thesis
    using True assms(1,4) lt
    by (auto simp: data_ok_def consumer_step_def goto_con_def split: prod.splits)
next
  case False
  then show ?thesis
    using assms(1,4)
    by (auto simp: data_ok_def consumer_step_def state_ops split: con_pc.splits if_splits)
qed

lemma know_goto_con:
  assumes K: "know_ok s" and i: "i < length (cons s)" and pc: "con_knows s pc"
    and old: "\<And>x. cons s ! i \<noteq> CSignal x"
  shows "know_ok (goto_con i pc s)"
proof -
  have emp: "signals_notEmpty (goto_con i pc s) = signals_notEmpty s"
    by (simp add: signals_notEmpty_def)
  have full: "signals_notFull s \<Longrightarrow> signals_notFull (goto_con i pc s)"
    using old unfolding signals_notFull_def by simp (metis nth_list_update_neq)
  have "con_knows (goto_con i pc s) x = con_knows s x" for x
    by (cases x) (simp_all add: emp)
  moreover have "pro_knows s x \<Longrightarrow> pro_knows (goto_con i pc s) x" for x
    using full by (cases x) auto
  ultimately show ?thesis
    using K i pc by (auto simp: know_ok_def nth_list_update)
qed

lemma know_signal_notFull:
  assumes K: "know_ok s" and i: "i < length (cons s)"
  shows "know_ok (goto_con i (CUnlock x) (broadcast_notFull s))"
proof -
  let ?t = "goto_con i (CUnlock x) (broadcast_notFull s)"
  have emp: "signals_notEmpty ?t = signals_notEmpty s"
    by (auto simp: signals_notEmpty_def broadcast_notFull_def split: if_splits)
  have "con_knows ?t y = con_knows s y" for y by (cases y) (simp_all add: emp)
  moreover have "y \<noteq> PWait \<Longrightarrow> pro_knows ?t y = pro_knows s y" for y by (cases y) auto
  ultimately show ?thesis
    using K i by (auto simp: know_ok_def nth_list_update) (auto simp: broadcast_notFull_def)
qed

lemma know_remove:
  assumes K: "know_ok s" and L: "lock_ok s" and i: "i < length (cons s)" "cons s ! i = CRemove"
  shows "know_ok (goto_con i (CSignal x) (s\<lparr>fifo := q, concount := c\<rparr>))"
proof -
  let ?t = "goto_con i (CSignal x) (s\<lparr>fifo := q, concount := c\<rparr>)"
  have m: "mutex s = Some (Con i)" using L i by (auto simp: lock_ok_def dest!: spec[of _ i])
  have some: "\<not> q_empty (fifo s)" "concount s < WORK_MAX"
    using K i by (auto simp: know_ok_def dest!: spec[of _ i])
  have "\<not> signals_notEmpty s" using L m by (force simp: signals_notEmpty_def lock_ok_def)
  then have con: "con_knows ?t (cons s ! j)" if "j < length (cons s)" "j \<noteq> i" for j
    using K L that some m
    by (cases "cons s ! j") (auto simp: know_ok_def lock_ok_def dest!: spec[of _ j])
  have "signals_notFull ?t" using i(1) by (auto simp: signals_notFull_def intro!: exI[of _ i])
  then have pro: "pro_knows ?t (pros s ! j)" if "j < length (pros s)" for j
    using K L that m
    by (cases "pros s ! j") (auto simp: know_ok_def lock_ok_def dest!: spec[of _ j])
  show ?thesis using pro con i(1) by (auto simp: know_ok_def nth_list_update)
qed

lemma consumer_know:
  assumes K: "know_ok s" and L: "lock_ok s" and D: "data_ok s"
    and i: "i < length (cons s)" and step: "consumer_step i s = Some t"
  shows "know_ok t"
proof -
  have go: "know_ok (goto_con i pc s')" if "know_ok s'" "cons s' = cons s" "con_knows s' pc"
    "\<And>x. cons s ! i \<noteq> CSignal x" for s' pc
    using know_goto_con[OF that(1) _ that(3)] that(2,4) i by simp
  have "con_knows s (cons s ! i)" using K i by (simp add: know_ok_def)
  moreover have "concount s \<le> WORK_MAX" using D by (simp add: data_ok_def)
  ultimately show ?thesis
    using K step i go[of s] go[of "s\<lparr>mutex := m\<rparr>" for m] go[of "say l (s\<lparr>mutex := m\<rparr>)" for l m]
      go[of "say l s" for l] know_signal_notFull[OF K i] know_remove[OF K L i]
    by (cases "cons s ! i") (auto simp: consumer_step_def Let_def split: if_splits prod.splits)
qed

lemma consumer_main:
  assumes "main_ok s" "i < length (cons s)" "consumer_step i s = Some t"
  shows "main_ok t"
proof -
  have started: "cons s ! i \<noteq> CNew" "cons s ! i \<noteq> CDone"
    using assms(3) by (auto simp: consumer_step_def split: con_pc.splits)
  have t: "main_at t = main_at s" "freed t = freed s" "length (cons t) = length (cons s)"
      "length (pros t) = length (pros s)" "\<And>j. j \<noteq> i \<Longrightarrow> cons t ! j = cons s ! j" "cons t ! i \<noteq> CNew"
      "\<And>j. j < length (pros s) \<Longrightarrow> pros t ! j = PNew \<longleftrightarrow> pros s ! j = PNew"
      "\<And>j. j < length (pros s) \<Longrightarrow> pros t ! j = PDone \<longleftrightarrow> pros s ! j = PDone"
    using assms(2,3)
    by (auto simp: consumer_step_def state_ops split: con_pc.splits if_splits prod.splits)
  have con: "cons t ! j = CNew \<longleftrightarrow> cons s ! j = CNew" for j
    using t(5)[of j] t(6) started(1) by (cases "j = i") auto
  have fin: "cons s ! j = CDone \<Longrightarrow> cons t ! j = CDone" for j
    using t(5)[of j] started(2) by (cases "j = i") auto
  show ?thesis
    using assms(1) t(1-4,7,8) con fin
    by (auto simp: main_ok_def split: main_pc.splits)
qed

subsection \<open>Main and spurious wakeups\<close>

definition pc_inv :: "pc_state \<Rightarrow> bool" where
  "pc_inv s \<longleftrightarrow> lock_ok s \<and> data_ok s \<and> know_ok s \<and> main_ok s"

lemma data_other [simp]:
  "data_ok (goto_pro i pc s) = data_ok s" "data_ok (goto_con i qc s) = data_ok s"
  "data_ok (s\<lparr>main_at := a\<rparr>) = data_ok s" "data_ok (queueDelete s) = data_ok s"
  by (simp_all add: data_ok_def goto_pro_def goto_con_def queueDelete_def)

lemma new_pro:
  assumes "lock_ok s" "know_ok s" "i < length (pros s)" "pros s ! i = PNew"
  shows "lock_ok (goto_pro i PWork s)" "know_ok (goto_pro i PWork s)"
  using lock_goto_pro(1)[OF assms(1,3)] know_goto_pro[OF assms(2,3)] assms(4) by simp_all

lemma new_con:
  assumes "lock_ok s" "know_ok s" "i < length (cons s)" "cons s ! i = CNew"
  shows "lock_ok (goto_con i CLock s)" "know_ok (goto_con i CLock s)"
  using lock_goto_con(1)[OF assms(1,3)] know_goto_con[OF assms(2,3)] assms(4) by simp_all

lemma main_main: "main_ok s \<Longrightarrow> main_step s = Some t \<Longrightarrow> main_ok t"
  by (cases "main_at s")
    (auto simp: main_ok_def main_step_def goto_pro_def goto_con_def queueDelete_def nth_list_update
      less_Suc_eq_le le_less split: if_splits)

lemma main_inv:
  assumes "pc_inv s" "main_step s = Some t"
  shows "pc_inv t"
proof -
  have *: "lock_ok s" "data_ok s" "know_ok s" "main_ok s" using assms(1) by (simp_all add: pc_inv_def)
  have "lock_ok t \<and> data_ok t \<and> know_ok t"
  proof (cases "main_at s")
    case (MakePro k)
    then have "k < length (pros s) \<Longrightarrow> pros s ! k = PNew" using *(4) by (simp add: main_ok_def)
    then show ?thesis
      using assms(2) MakePro * new_pro[OF *(1,3), of k] by (auto simp: main_step_def split: if_splits)
  next
    case (MakeCon k)
    then have "k < length (cons s) \<Longrightarrow> cons s ! k = CNew" using *(4) by (simp add: main_ok_def)
    then show ?thesis
      using assms(2) MakeCon * new_con[OF *(1,3), of k] by (auto simp: main_step_def split: if_splits)
  qed (use assms(2) * in \<open>auto simp: main_step_def split: if_splits\<close>)
  then show ?thesis using main_main[OF *(4) assms(2)] by (simp add: pc_inv_def)
qed

lemma pc_inv_step: "pc_inv s \<Longrightarrow> pc_step s t \<Longrightarrow> pc_inv t"
proof (erule pc_step.cases; hypsubst)
  fix i s t
  assume "pc_inv s" "i < length (pros s)" "producer_step i s = Some t"
  then show "pc_inv t"
    using producer_lock producer_data producer_know producer_main unfolding pc_inv_def by blast
next
  fix i s t
  assume "pc_inv s" "i < length (cons s)" "consumer_step i s = Some t"
  then show "pc_inv t"
    using consumer_lock consumer_data consumer_know consumer_main unfolding pc_inv_def by blast
qed (rule main_inv)

lemma main_goto_pro:
  "main_ok s \<Longrightarrow> i < length (pros s) \<Longrightarrow> pros s ! i \<notin> {PNew, PDone} \<Longrightarrow> pc \<noteq> PNew
    \<Longrightarrow> main_ok (goto_pro i pc s)"
  by (auto simp: main_ok_def goto_pro_def nth_list_update split: main_pc.splits)

lemma main_goto_con:
  "main_ok s \<Longrightarrow> i < length (cons s) \<Longrightarrow> cons s ! i \<notin> {CNew, CDone} \<Longrightarrow> pc \<noteq> CNew
    \<Longrightarrow> main_ok (goto_con i pc s)"
  by (auto simp: main_ok_def goto_con_def nth_list_update split: main_pc.splits)

lemma pc_inv_spurious: "pc_inv s \<Longrightarrow> pc_step_spurious s t \<Longrightarrow> pc_inv t"
proof (erule pc_step_spurious.cases; hypsubst)
  fix i s
  assume "pc_inv s" "i < length (pros s)" "pros s ! i = PWait"
  then show "pc_inv (goto_pro i PWake s)"
    using lock_goto_pro(1)[of s i PWake] know_goto_pro[of s i PWake] main_goto_pro[of s i PWake]
    by (simp add: pc_inv_def)
next
  fix i s
  assume "pc_inv s" "i < length (cons s)" "cons s ! i = CWait"
  then show "pc_inv (goto_con i CWake s)"
    using lock_goto_con(1)[of s i CWake] know_goto_con[of s i CWake] main_goto_con[of s i CWake]
    by (simp add: pc_inv_def)
qed (rule pc_inv_step)

definition pc_start :: "nat \<Rightarrow> nat \<Rightarrow> pc_state \<Rightarrow> bool" where
  "pc_start p c s \<longleftrightarrow> s = initial p c 0 0"

lemma pc_inv_initial: "pc_inv (initial p c 0 0)"
  by (auto simp: pc_inv_def initial_def lock_ok_def data_ok_def know_ok_def main_ok_def qrep_init WORK_MAX_def)

section \<open>No deadlock\<close>

lemma holder_runs:
  assumes "lock_ok s" "mutex s = Some x"
  shows "\<exists>t. pc_step s t"
proof (cases x)
  case (Pro i)
  then have "i < length (pros s)" "pro_holds (pros s ! i)" using assms by (auto simp: lock_ok_def)
  then have "\<exists>t. producer_step i s = Some t"
    by (cases "pros s ! i") (auto simp: producer_step_def)
  then show ?thesis using \<open>i < length (pros s)\<close> pc_step.producer by blast
next
  case (Con i)
  then have "i < length (cons s)" "con_holds (cons s ! i)" using assms by (auto simp: lock_ok_def)
  then have "\<exists>t. consumer_step i s = Some t"
    by (cases "cons s ! i") (auto simp: consumer_step_def Let_def split: prod.split)
  then show ?thesis using \<open>i < length (cons s)\<close> pc_step.consumer by blast
qed

lemma pro_idle:
  assumes "mutex s = None" "producer_step i s = None"
  shows "pros s ! i \<in> {PNew, PWait, PDone}"
  using assms by (cases "pros s ! i") (auto simp: producer_step_def)

lemma con_idle:
  assumes "mutex s = None" "consumer_step i s = None"
  shows "cons s ! i \<in> {CNew, CWait, CDone}"
  using assms by (cases "cons s ! i") (auto simp: consumer_step_def Let_def split: prod.splits)

lemma pc_enabled:
  assumes inv: "pc_inv s" and threads: "pros s \<noteq> []" "cons s \<noteq> []" and going: "main_at s \<noteq> Ended"
  shows "\<exists>t. pc_step s t"
proof (rule ccontr)
  assume stuck: "\<nexists>t. pc_step s t"
  have L: "lock_ok s" and D: "data_ok s" and K: "know_ok s" and M: "main_ok s"
    using inv by (simp_all add: pc_inv_def)
  have free: "mutex s = None" using holder_runs[OF L] stuck by (cases "mutex s") auto
  have main: "main_step s = None" using stuck pc_step.main by (cases "main_step s") blast+
  have P: "pros s ! i \<in> {PNew, PWait, PDone}" if "i < length (pros s)" for i
    using pro_idle[OF free] stuck pc_step.producer[OF that] by (metis not_Some_eq)
  have C: "cons s ! i \<in> {CNew, CWait, CDone}" if "i < length (cons s)" for i
    using con_idle[OF free] stuck pc_step.consumer[OF that] by (metis not_Some_eq)
  have made: "\<forall>i<length (pros s). pros s ! i \<noteq> PNew" "\<forall>i<length (cons s). cons s ! i \<noteq> CNew"
    using main M going by (auto simp: main_step_def main_ok_def split: main_pc.splits if_splits)
  have "\<not> signals_notFull s" "\<not> signals_notEmpty s"
    using P C by (force simp: signals_notFull_def signals_notEmpty_def)+
  then have wait: "pros s ! i = PWait \<Longrightarrow> i < length (pros s) \<Longrightarrow> q_full (fifo s) \<and> procount s < WORK_MAX"
    "cons s ! i = CWait \<Longrightarrow> i < length (cons s) \<Longrightarrow> q_empty (fifo s) \<and> concount s < WORK_MAX" for i
    using K by (auto simp: know_ok_def dest!: spec[of _ i])
  have fin: "pros s ! i = PDone \<Longrightarrow> i < length (pros s) \<Longrightarrow> procount s = WORK_MAX"
    "cons s ! i = CDone \<Longrightarrow> i < length (cons s) \<Longrightarrow> concount s = WORK_MAX" for i
    using K by (auto simp: know_ok_def dest!: spec[of _ i])
  have P2: "pros s ! i = PWait \<or> pros s ! i = PDone" if "i < length (pros s)" for i
    using P[OF that] made(1) that by auto
  have C2: "cons s ! i = CWait \<or> cons s ! i = CDone" if "i < length (cons s)" for i
    using C[OF that] made(2) that by auto
  have 0: "0 < length (pros s)" "0 < length (cons s)" using threads by simp_all
  have c0: "concount s = WORK_MAX \<or> q_empty (fifo s) \<and> concount s < WORK_MAX"
    using C2[OF 0(2)] wait(2)[OF _ 0(2)] fin(2)[OF _ 0(2)] by blast
  have p0: "procount s = WORK_MAX \<or> q_full (fifo s) \<and> procount s < WORK_MAX"
    using P2[OF 0(1)] wait(1)[OF _ 0(1)] fin(1)[OF _ 0(1)] by blast
  have le: "concount s \<le> procount s" "procount s \<le> WORK_MAX" using D by (simp_all add: data_ok_def)
  have "concount s = WORK_MAX \<or> concount s = procount s \<and> concount s < WORK_MAX"
    using c0 items_empty[OF D] by blast
  moreover have "procount s = WORK_MAX \<or> procount s = concount s + 5 \<and> procount s < WORK_MAX"
    using p0 items_full[OF D] by blast
  ultimately have "concount s = WORK_MAX" "procount s = WORK_MAX" using le by linarith+
  then have "\<forall>i<length (pros s). pros s ! i = PDone" "\<forall>i<length (cons s). cons s ! i = CDone"
    using P2 C2 wait by (metis less_irrefl)+
  then show False
    using main M going by (auto simp: main_step_def main_ok_def split: main_pc.splits if_splits)
qed

end
