(* ===== verification/ProdCons_Output.thy ===== *)
theory ProdCons_Output
  imports ProdCons_Correct
begin

text \<open>
  What the producer-consumer program prints, and its properties: every item is announced once by
  the producer that made it and once by the consumer that took it.
\<close>

section \<open>Items printed and items in hand\<close>

fun said_pro :: "line \<Rightarrow> int list" where
  "said_pro (Produced t x) = [x]"
| "said_pro _ = []"

fun said_con :: "line \<Rightarrow> int cell list" where
  "said_con (Consumed t x) = [x]"
| "said_con _ = []"

fun hand_pro :: "pro_pc \<Rightarrow> int list" where
  "hand_pro (PSignal x) = [x]" | "hand_pro (PUnlock x) = [x]" | "hand_pro (PSay x) = [x]"
| "hand_pro _ = []"

fun hand_con :: "con_pc \<Rightarrow> int cell list" where
  "hand_con (CSignal x) = [x]" | "hand_con (CUnlock x) = [x]" | "hand_con (CSay x) = [x]"
| "hand_con _ = []"

definition made :: "pc_state \<Rightarrow> int multiset" where
  "made s = mset (concat (map said_pro (printed s))) + mset (concat (map hand_pro (pros s)))"

definition taken :: "pc_state \<Rightarrow> int cell multiset" where
  "taken s = mset (concat (map said_con (printed s))) + mset (concat (map hand_con (cons s)))"

definition out_ok :: "pc_state \<Rightarrow> bool" where
  "out_ok s \<longleftrightarrow> made s = mset [0..procount s - 1] \<and> taken s = mset (map Val [0..concount s - 1])"

lemma union_diff_eq: "A + x = B + y \<Longrightarrow> C + A = C + B + y - (x :: 'a multiset)"
  by (metis add.assoc add_diff_cancel_right')

lemma goto_pro_made:
  assumes "i < length (pros s)"
  shows "made (goto_pro i pc s) = made s + mset (hand_pro pc) - mset (hand_pro (pros s ! i))"
    and "taken (goto_pro i pc s) = taken s"
  using union_diff_eq[OF mset_concat_update[OF assms, of hand_pro pc],
    of "mset (concat (map said_pro (printed s)))"]
  by (simp_all add: made_def taken_def goto_pro_def)

lemma goto_con_made:
  assumes "i < length (cons s)"
  shows "taken (goto_con i pc s) = taken s + mset (hand_con pc) - mset (hand_con (cons s ! i))"
    and "made (goto_con i pc s) = made s"
  using union_diff_eq[OF mset_concat_update[OF assms, of hand_con pc],
    of "mset (concat (map said_con (printed s)))"]
  by (simp_all add: made_def taken_def goto_con_def)

lemma hand_broadcast [simp]:
  "hand_pro (if pc = PWait then PWake else pc) = hand_pro pc"
  "hand_con (if qc = CWait then CWake else qc) = hand_con qc"
  by simp_all

lemma made_other [simp]:
  "made (s\<lparr>mutex := m\<rparr>) = made s" "made (s\<lparr>procount := p, fifo := q\<rparr>) = made s"
  "made (s\<lparr>fifo := q, concount := p\<rparr>) = made s" "made (s\<lparr>main_at := a\<rparr>) = made s"
  "made (broadcast_notFull s) = made s" "made (broadcast_notEmpty s) = made s"
  "made (queueDelete s) = made s" "made (say l s) = made s + mset (said_pro l)"
  by (simp_all add: made_def broadcast_notFull_def broadcast_notEmpty_def queueDelete_def say_def comp_def)

lemma taken_other [simp]:
  "taken (s\<lparr>mutex := m\<rparr>) = taken s" "taken (s\<lparr>procount := p, fifo := q\<rparr>) = taken s"
  "taken (s\<lparr>fifo := q, concount := p\<rparr>) = taken s" "taken (s\<lparr>main_at := a\<rparr>) = taken s"
  "taken (broadcast_notFull s) = taken s" "taken (broadcast_notEmpty s) = taken s"
  "taken (queueDelete s) = taken s" "taken (say l s) = taken s + mset (said_con l)"
  by (simp_all add: taken_def broadcast_notFull_def broadcast_notEmpty_def queueDelete_def say_def comp_def)

lemma producer_out:
  assumes "out_ok s" "data_ok s" "i < length (pros s)" "producer_step i s = Some t"
  shows "out_ok t"
proof -
  have next_item: "mset [0..procount s] = mset [0..procount s - 1] + {#procount s#}"
    using assms(2) upto_rec2[of 0 "procount s"] by (simp add: data_ok_def)
  have go: "made (goto_pro i pc s') = made s' + mset (hand_pro pc) - mset (hand_pro (pros s ! i))
      \<and> taken (goto_pro i pc s') = taken s'" if "pros s' = pros s" for pc s'
    using goto_pro_made[of i s' pc] assms(3) that by simp
  show ?thesis
    using assms(1,4) next_item go[of s] go[of "say l s" for l] go[of "s\<lparr>mutex := m\<rparr>" for m]
      go[of "say l (s\<lparr>mutex := m\<rparr>)" for l m] go[of "s\<lparr>procount := p, fifo := q\<rparr>" for p q]
      go[of "broadcast_notEmpty s"]
    by (cases "pros s ! i") (auto simp: out_ok_def producer_step_def split: if_splits)
qed

lemma consumer_out:
  assumes "out_ok s" "data_ok s" "know_ok s" "i < length (cons s)" "consumer_step i s = Some t"
  shows "out_ok t"
proof -
  have next_item: "mset (map Val [0..concount s]) = mset (map Val [0..concount s - 1]) + {#Val (concount s)#}"
    using assms(2) upto_rec2[of 0 "concount s"] by (simp add: data_ok_def)
  have item: "fst (queueRemove (fifo s)) = Val (concount s)" if "cons s ! i = CRemove"
  proof -
    have q: "qrep (fifo s) [concount s..procount s - 1]" using assms(2) by (simp add: data_ok_def)
    have "\<not> q_empty (fifo s)" using assms(3,4) that by (auto simp: know_ok_def dest!: spec[of _ i])
    then have "concount s < procount s" using items_empty[OF assms(2)] assms(2) by (auto simp: data_ok_def)
    then show ?thesis using q qrep_remove upto_rec1[of "concount s" "procount s - 1"] by simp
  qed
  have go: "taken (goto_con i pc s') = taken s' + mset (hand_con pc) - mset (hand_con (cons s ! i))
      \<and> made (goto_con i pc s') = made s'" if "cons s' = cons s" for pc s'
    using goto_con_made[of i s' pc] assms(4) that by simp
  show ?thesis
    using assms(1,5) next_item item go[of s] go[of "say l s" for l] go[of "s\<lparr>mutex := m\<rparr>" for m]
      go[of "say l (s\<lparr>mutex := m\<rparr>)" for l m] go[of "s\<lparr>fifo := q, concount := p\<rparr>" for p q]
      go[of "broadcast_notFull s"]
    by (cases "cons s ! i") (auto simp: out_ok_def consumer_step_def Let_def split: if_splits prod.splits)
qed

lemma main_out:
  assumes "out_ok s" "main_ok s" "main_step s = Some t"
  shows "out_ok t"
proof (cases "main_at s")
  case (MakePro k)
  then have "k < length (pros s) \<Longrightarrow> pros s ! k = PNew" using assms(2) by (simp add: main_ok_def)
  then show ?thesis using assms(1,3) MakePro goto_pro_made[of k s PWork]
    by (auto simp: main_step_def out_ok_def split: if_splits)
next
  case (MakeCon k)
  then have "k < length (cons s) \<Longrightarrow> cons s ! k = CNew" using assms(2) by (simp add: main_ok_def)
  then show ?thesis using assms(1,3) MakeCon goto_con_made[of k s CLock]
    by (auto simp: main_step_def out_ok_def split: if_splits)
qed (use assms in \<open>auto simp: main_step_def out_ok_def queueDelete_def made_def taken_def split: if_splits\<close>)

section \<open>All invariants together\<close>

definition run_inv :: "nat \<Rightarrow> nat \<Rightarrow> pc_state \<Rightarrow> bool" where
  "run_inv p c s \<longleftrightarrow> pc_inv s \<and> out_ok s \<and> length (pros s) = p \<and> length (cons s) = c"

lemma pc_step_lengths: "pc_step s t \<Longrightarrow> length (pros t) = length (pros s) \<and> length (cons t) = length (cons s)"
  by (erule pc_step.cases)
    (auto simp: producer_step_def consumer_step_def main_step_def state_ops
      split: pro_pc.splits con_pc.splits main_pc.splits if_splits prod.splits)

lemma run_inv_step: "run_inv p c s \<Longrightarrow> pc_step s t \<Longrightarrow> run_inv p c t"
proof -
  assume inv: "run_inv p c s" and step: "pc_step s t"
  then have *: "out_ok s" "data_ok s" "know_ok s" "main_ok s" by (simp_all add: run_inv_def pc_inv_def)
  from step have "out_ok t"
    by cases (use * producer_out consumer_out main_out in blast)+
  then show ?thesis
    using inv pc_inv_step[OF _ step] pc_step_lengths[OF step] by (simp add: run_inv_def)
qed

lemma run_inv_spurious: "run_inv p c s \<Longrightarrow> pc_step_spurious s t \<Longrightarrow> run_inv p c t"
proof -
  assume inv: "run_inv p c s" and step: "pc_step_spurious s t"
  have "pc_inv t" using inv pc_inv_spurious[OF _ step] by (simp add: run_inv_def)
  with step show ?thesis
  proof cases
    case run
    then show ?thesis using inv run_inv_step by blast
  next
    case (wake_producer i)
    then show ?thesis using inv \<open>pc_inv t\<close> goto_pro_made[of i s PWake]
      by (simp add: run_inv_def out_ok_def)
  next
    case (wake_consumer i)
    then show ?thesis using inv \<open>pc_inv t\<close> goto_con_made[of i s CWake]
      by (simp add: run_inv_def out_ok_def)
  qed
qed

lemma run_inv_initial: "pc_start p c s \<Longrightarrow> run_inv p c s"
proof -
  have "concat (map f (replicate n x)) = []" if "f x = []" for f :: "'a \<Rightarrow> 'b list" and n x
    using that by (induction n) auto
  then show "pc_start p c s \<Longrightarrow> run_inv p c s"
    using pc_inv_initial[of p c]
    by (simp add: run_inv_def pc_start_def out_ok_def made_def taken_def) (simp add: initial_def)
qed

interpretation pc_run: inductive_invariant "pc_start p c" pc_step_spurious "run_inv p c" for p c
  by unfold_locales (rule run_inv_initial, assumption, rule run_inv_spurious, assumption+)

interpretation pc_progress: never_stuck "pc_start p c" pc_step
    "\<lambda>s. run_inv p c s" "\<lambda>s. main_at s = Ended \<or> p = 0 \<or> c = 0" for p c
proof (unfold_locales, goal_cases)
  case (3 s)
  then show ?case using pc_enabled[of s] by (auto simp: run_inv_def)
qed (rule run_inv_initial, assumption, rule run_inv_step, assumption+)

section \<open>Executable schedules\<close>

datatype actor = P nat | C nat | M

fun actor_step :: "actor \<Rightarrow> pc_state \<Rightarrow> pc_state option" where
  "actor_step (P i) s = (if i < length (pros s) then producer_step i s else None)"
| "actor_step (C i) s = (if i < length (cons s) then consumer_step i s else None)"
| "actor_step M s = main_step s"

primrec schedule :: "actor list \<Rightarrow> pc_state \<Rightarrow> pc_state option" where
  "schedule [] s = Some s"
| "schedule (a # as) s = Option.bind (actor_step a s) (schedule as)"

lemma actor_step_pc_step: "actor_step a s = Some t \<Longrightarrow> pc_step s t"
  by (cases a) (auto intro: pc_step.intros split: if_splits)

lemma schedule_reachable:
  "reachable st pc_step s \<Longrightarrow> schedule as s = Some t \<Longrightarrow> reachable st pc_step t"
proof (induction as arbitrary: s)
  case (Cons a as)
  then obtain u where u: "actor_step a s = Some u" "schedule as u = Some t"
    by (auto split: Option.bind_splits)
  show ?case
    by (rule Cons.IH[OF reachable.step[OF Cons.prems(1) actor_step_pc_step[OF u(1)]] u(2)])
qed simp

lemma reachable_spurious: "reachable st pc_step s \<Longrightarrow> reachable st pc_step_spurious s"
  by (induction rule: reachable.induct) (auto intro: reachable.intros pc_step_spurious.run)

lemmas step_eval = producer_step_def consumer_step_def main_step_def state_ops initial_def
  queueInit_def queueAdd_def queueRemove_def QUEUESIZE_def WORK_MAX_def

section \<open>Properties\<close>

lemma Suc_0_cases: "(\<forall>i<Suc 0. Q i) \<longleftrightarrow> Q 0" "(\<exists>i<Suc 0. Q i) \<longleftrightarrow> Q 0"
  by auto






text \<open>One producer and one consumer handing over one item.\<close>

definition resting :: "int \<Rightarrow> pc_state \<Rightarrow> bool" where
  "resting k s \<longleftrightarrow> pros s = [PWork] \<and> cons s = [CLock] \<and> mutex s = None \<and> procount s = k
     \<and> concount s = k \<and> qrep (fifo s) [] \<and> main_at s = JoinPro 0"

lemma hand_over:
  assumes "resting k s" "k < WORK_MAX"
  shows "\<exists>t. schedule [P 0, P 0, P 0, P 0, P 0, P 0, P 0, P 0, C 0, C 0, C 0, C 0, C 0, C 0, C 0] s = Some t
    \<and> resting (k + 1) t"
proof -
  have q: "qrep (fifo s) []" using assms(1) by (simp add: resting_def)
  have q1: "qrep (queueAdd (fifo s) k) [k]" using qrep_add[OF q, of k] by simp
  have q2: "qrep (snd (queueRemove (queueAdd (fifo s) k))) []" using qrep_remove[OF q1] by simp
  obtain x r where r: "queueRemove (queueAdd (fifo s) k) = (x, r)" by (cases "queueRemove (queueAdd (fifo s) k)")
  show ?thesis
    using assms q q1 q2 r
    by (simp add: resting_def producer_step_def consumer_step_def goto_pro_def goto_con_def say_def
        broadcast_notEmpty_def broadcast_notFull_def qrep_def QUEUESIZE_def)
qed

lemma hand_over_all: "resting 0 s \<Longrightarrow> reachable st pc_step s
    \<Longrightarrow> int n \<le> WORK_MAX \<Longrightarrow> \<exists>t. reachable st pc_step t \<and> resting (int n) t"
proof (induction n)
  case (Suc n)
  then obtain t where t: "reachable st pc_step t" "resting (int n) t" by auto
  obtain u where "reachable st pc_step u" "resting (int n + 1) u"
    using hand_over[OF t(2)] Suc.prems(3) schedule_reachable[OF t(1)]
    by (auto simp del: schedule.simps)
  then show ?case by (auto simp: add.commute)
qed auto

lemma run_to_the_end: "\<exists>s. reachable (pc_start 1 1) pc_step s \<and> main_at s = Ended"
proof -
  have init: "reachable (pc_start 1 1) pc_step (initial 1 1 0 0)"
    by (rule reachable.start) (simp add: pc_start_def)
  have "\<exists>s. schedule [M, M, M, M] (initial 1 1 0 0) = Some s \<and> resting 0 s"
    using qrep_init by (simp add: main_step_def goto_pro_def goto_con_def initial_def resting_def)
  then obtain s where "reachable (pc_start 1 1) pc_step s" "resting 0 s"
    using schedule_reachable[OF init] by blast
  from hand_over_all[OF this(2,1), of 30] obtain t where
    t: "reachable (pc_start 1 1) pc_step t" "resting 30 t" by (auto simp: WORK_MAX_def)
  have "\<exists>u. schedule [P 0, P 0, P 0, P 0, P 0, P 0, C 0, C 0, C 0, C 0, C 0, M, M, M, M, M] t = Some u
      \<and> main_at u = Ended"
    using t(2) by (simp add: resting_def producer_step_def consumer_step_def main_step_def goto_pro_def
      goto_con_def say_def queueDelete_def WORK_MAX_def)
  then show ?thesis using schedule_reachable[OF t(1)] by blast
qed


text \<open>
  C27. The counters are read before anything has been written to them: \<open>main\<close> allocates them
  with \<open>malloc\<close> only. With 31 in the counter of produced items the single producer stops at
  once and the single consumer waits for ever, so that \<open>main\<close> never returns.\<close>

theorem pc_uninitialised_counter:
  "\<exists>s. reachable (\<lambda>s. main_start (\<lambda>_. True) 3 1 1 31 0 = Inr s) pc_step s \<and> main_at s \<noteq> Ended
    \<and> cons s = [CWait] \<and> (\<nexists>t. pc_step s t)"
proof -
  let ?as = "[M, M, M, M, P 0, P 0, P 0, P 0, P 0, P 0, M, M, C 0, C 0]"
  have init: "reachable (\<lambda>s. main_start (\<lambda>_. True) 3 1 1 31 0 = Inr s) pc_step (initial 1 1 31 0)"
    by (rule reachable.start) (simp add: main_start_def)
  have "\<exists>s. schedule ?as (initial 1 1 31 0) = Some s \<and> main_at s = JoinCon 0 \<and> pros s = [PDone]
      \<and> cons s = [CWait]"
    by (simp add: step_eval)
  then obtain s where s: "schedule ?as (initial 1 1 31 0) = Some s" "main_at s = JoinCon 0"
    "pros s = [PDone]" "cons s = [CWait]" by blast
  have "\<nexists>t. pc_step s t"
    using s(2-4) by (auto elim!: pc_step.cases simp: producer_step_def consumer_step_def main_step_def)
  then show ?thesis using schedule_reachable[OF init s(1)] s(2,4) by auto
qed

text \<open>
  \<open>msleep\<close> asks for exactly the given time, in a form \<open>nanosleep\<close> accepts, and returns when
  it is interrupted only finitely often, having printed one line for each interruption.\<close>

theorem msleep_returns:
  fixes nanosleep :: "nat \<Rightarrow> nat \<times> nat \<Rightarrow> (nat \<times> nat) option \<times> nat"
  assumes "\<And>w req rest w'. nanosleep w req = (rest, w') \<Longrightarrow> (if rest = None then w = 0 else w = Suc w')"
  shows "(\<exists>w'. msleep nanosleep ms w = Some (w, w'))
    \<and> fst (sleep_request ms) * 10 ^ 9 + snd (sleep_request ms) = ms * 10 ^ 6
    \<and> snd (sleep_request ms) < 10 ^ 9"
proof -
  have "\<exists>w'. msleep_loop nanosleep req w = Some (w, w')" for req
  proof (induction w arbitrary: req)
    case 0
    obtain rest w' where *: "nanosleep 0 req = (rest, w')" by (cases "nanosleep 0 req")
    then have "rest = None" using assms[OF *] by (auto split: if_splits)
    then show ?case using * by (subst msleep_loop.simps) simp
  next
    case (Suc w)
    obtain rest w' where *: "nanosleep (Suc w) req = (rest, w')" by (cases "nanosleep (Suc w) req")
    then obtain req' where "rest = Some req'" "w' = w" using assms[OF *] by (auto split: if_splits)
    then show ?case using * Suc.IH[of req'] by (subst msleep_loop.simps) auto
  qed
  moreover have "ms div 1000 * 1000 + (ms - ms div 1000 * 1000) = ms" by simp
  moreover have "ms - ms div 1000 * 1000 < 1000"
    by (simp add: minus_div_mult_eq_mod)
  ultimately show ?thesis
    unfolding msleep_def sleep_request_def by (auto simp: algebra_simps)
qed

theorem msleep_returns_witness:
  "\<exists>w'. msleep (\<lambda>w :: nat. \<lambda>req. if w = 0 then (None, 0) else (Some req, w - 1)) 2500 3 = Some (3, w')"
  by (rule msleep_returns[THEN conjunct1]) (auto split: if_splits)

end
