(* ===== verification/Philosophers.thy ===== *)
theory Philosophers
  imports Transition
begin

text \<open>
  The dining philosophers (\<open>pthreads_dp/\<close>): the table, the thread of \<open>main\<close> and the progress
  report that the three programs share, and the philosopher of \<open>dining_philosophers.c\<close> and
  \<open>dp_asymmetric.c\<close>, which differ in the order of the two \<open>pthread_mutex_lock\<close> calls only.
  Chopsticks are mutexes; the state of a mutex is its owner. The thoughts and mouthfuls of a random
  number of loop rounds are single steps, since they touch local variables only.
\<close>

section \<open>The table\<close>

definition NUM_PHILS :: nat where "NUM_PHILS = 5"
definition ITERATION_LIMIT :: nat where "ITERATION_LIMIT = 10"

definition left_phil :: "nat \<Rightarrow> nat" where
  "left_phil i = (if i = NUM_PHILS - 1 then 0 else i + 1)"

definition right_phil :: "nat \<Rightarrow> nat" where
  "right_phil i = (if i = 0 then NUM_PHILS - 1 else i - 1)"

definition left_chop :: "nat \<Rightarrow> nat" where
  "left_chop i = i"

definition right_chop :: "nat \<Rightarrow> nat" where
  "right_chop i = (if i = 0 then NUM_PHILS - 1 else i - 1)"

datatype boss_pc = Create nat | Reset nat | Sleep | Check nat | Report | StopAll | Unlock nat | Join nat | End

text \<open>The state, over the program counters \<open>'p\<close> of the philosophers.\<close>

record 'p table =
  diners :: "'p list"
  prog :: "nat list"
  prog_total :: "nat list"
  chopstick :: "nat option list"
  waiter :: "nat option"
  available_chopsticks :: "bool list"
  stopped :: bool
  boss :: boss_pc
  iter :: nat
  deadlock :: bool
  screen :: "string list"

definition set_table :: "'p \<Rightarrow> 'p table" where
  "set_table fresh = \<lparr>diners = replicate NUM_PHILS fresh, prog = replicate NUM_PHILS 0,
     prog_total = replicate NUM_PHILS 0, chopstick = replicate NUM_PHILS None, waiter = None,
     available_chopsticks = replicate NUM_PHILS True, stopped = False, boss = Create 0, iter = 0,
     deadlock = False, screen = []\<rparr>"

section \<open>The progress report\<close>

text \<open>\<open>"%*s"\<close> pads on the left.\<close>

definition pad :: "nat \<Rightarrow> string \<Rightarrow> string" where
  "pad w s = replicate (w - length s) CHR '' '' @ s"

definition progress_cell :: "nat \<Rightarrow> nat \<times> nat \<Rightarrow> string" where
  "progress_cell i p = ''p'' @ show_nat i @ ''='' @ pad 16 (show_nat (fst p) @ ''/'' @ show_nat (snd p))"

text \<open>Five columns to a line; \<open>j\<close> is the column.\<close>

fun progress_rows :: "nat \<Rightarrow> nat \<Rightarrow> (nat \<times> nat) list \<Rightarrow> string" where
  "progress_rows j i [] = (if j = 0 then [] else [CHR 0x0A])"
| "progress_rows j i (p # ps) = (if j < 4
     then progress_cell i p @ ''   '' @ progress_rows (Suc j) (Suc i) ps
     else progress_cell i p @ [CHR 0x0A] @ progress_rows 0 (Suc i) ps)"

definition print_progress :: "'p table \<Rightarrow> string" where
  "print_progress s = progress_rows 0 0 (zip (prog s) (prog_total s)) @ [CHR 0x0A]"

section \<open>The thread of main\<close>

text \<open>
  \<open>ready\<close> and \<open>gone\<close> are the program counters of a philosopher that has been created and of one
  that has ended.
\<close>

definition header :: string where
  "header = [CHR 0x0A] @ ''Dining Philosophers Update every 5 seconds'' @ [CHR 0x0A]
     @ ''-------------------------------------------'' @ [CHR 0x0A]"

definition boss_step :: "'p \<Rightarrow> 'p \<Rightarrow> 'p table \<Rightarrow> 'p table option" where
  "boss_step ready gone s = (case boss s of
     Create i \<Rightarrow> Some (if i < NUM_PHILS
       then s\<lparr>diners := (diners s)[i := ready], boss := Create (Suc i)\<rparr>
       else s\<lparr>screen := screen s @ [header], boss := Reset 0\<rparr>)
   | Reset i \<Rightarrow> Some (if i < NUM_PHILS
       then s\<lparr>prog := (prog s)[i := 0], boss := Reset (Suc i)\<rparr> else s\<lparr>boss := Sleep\<rparr>)
   | Sleep \<Rightarrow> Some (s\<lparr>deadlock := True, boss := Check 0\<rparr>)
   | Check i \<Rightarrow> Some (if i < NUM_PHILS
       then s\<lparr>deadlock := (if prog s ! i \<noteq> 0 then False else deadlock s), boss := Check (Suc i)\<rparr>
       else s\<lparr>boss := Report\<rparr>)
   | Report \<Rightarrow> Some (s\<lparr>screen := screen s @ [print_progress s], iter := iter s + 1,
       boss := (if \<not> deadlock s \<and> iter s + 1 < ITERATION_LIMIT then Reset 0 else StopAll)\<rparr>)
   | StopAll \<Rightarrow> Some (s\<lparr>stopped := True, boss := Unlock 0, screen := screen s @
       [(if deadlock s then ''Deadlock Detected'' else ''Finished without Deadlock'') @ [CHR 0x0A]]\<rparr>)
   | Unlock i \<Rightarrow> Some (if i < NUM_PHILS
       then s\<lparr>chopstick := (chopstick s)[i := None], boss := Unlock (Suc i)\<rparr> else s\<lparr>boss := Join 0\<rparr>)
   | Join i \<Rightarrow> (if i < NUM_PHILS then (if diners s ! i = gone then Some (s\<lparr>boss := Join (Suc i)\<rparr>) else None)
       else Some (s\<lparr>boss := End\<rparr>))
   | End \<Rightarrow> None)"

section \<open>A philosopher who takes two mutexes\<close>

datatype diner_pc = New | Loop | Think | First | Second | Eat | PutRight | PutLeft | Count | CountTotal | Gone

definition goto_diner :: "nat \<Rightarrow> 'p \<Rightarrow> 'p table \<Rightarrow> 'p table" where
  "goto_diner i pc s = s\<lparr>diners := (diners s)[i := pc]\<rparr>"

definition lock_chop :: "nat \<Rightarrow> nat \<Rightarrow> 'p table \<Rightarrow> 'p table option" where
  "lock_chop i c s = (if chopstick s ! c = None then Some (s\<lparr>chopstick := (chopstick s)[c := Some i]\<rparr>) else None)"

definition unlock_chop :: "nat \<Rightarrow> 'p table \<Rightarrow> 'p table" where
  "unlock_chop c s = s\<lparr>chopstick := (chopstick s)[c := None]\<rparr>"

text \<open>The chopstick taken first and the one taken second.\<close>

definition naive_order :: "nat \<Rightarrow> nat \<times> nat" where
  "naive_order i = (left_chop i, right_chop i)"

definition asymmetric_order :: "nat \<Rightarrow> nat \<times> nat" where
  "asymmetric_order i = (if i mod 2 = 0 then (left_chop i, right_chop i) else (right_chop i, left_chop i))"

definition dp_thread :: "(nat \<Rightarrow> nat \<times> nat) \<Rightarrow> nat \<Rightarrow> diner_pc table \<Rightarrow> diner_pc table option" where
  "dp_thread order i s = (case diners s ! i of
     New \<Rightarrow> None
   | Loop \<Rightarrow> Some (goto_diner i (if \<not> stopped s then Think else Gone) s)
   | Think \<Rightarrow> Some (goto_diner i First s)
   | First \<Rightarrow> map_option (goto_diner i Second) (lock_chop i (fst (order i)) s)
   | Second \<Rightarrow> map_option (goto_diner i Eat) (lock_chop i (snd (order i)) s)
   | Eat \<Rightarrow> Some (goto_diner i PutRight s)
   | PutRight \<Rightarrow> Some (goto_diner i PutLeft (unlock_chop (right_chop i) s))
   | PutLeft \<Rightarrow> Some (goto_diner i Count (unlock_chop (left_chop i) s))
   | Count \<Rightarrow> Some (goto_diner i CountTotal (s\<lparr>prog := (prog s)[i := prog s ! i + 1]\<rparr>))
   | CountTotal \<Rightarrow> Some (goto_diner i Loop (s\<lparr>prog_total := (prog_total s)[i := prog_total s ! i + 1]\<rparr>))
   | Gone \<Rightarrow> None)"

text \<open>The two programs. Their \<open>main\<close>, \<open>set_table\<close> and \<open>print_progress\<close> are the same text.\<close>

definition naive_thread :: "nat \<Rightarrow> diner_pc table \<Rightarrow> diner_pc table option" where
  "naive_thread = dp_thread naive_order"

definition asymmetric_thread :: "nat \<Rightarrow> diner_pc table \<Rightarrow> diner_pc table option" where
  "asymmetric_thread = dp_thread asymmetric_order"

definition asymmetric_set_table :: "diner_pc table" where
  "asymmetric_set_table = set_table New"

definition asymmetric_print_progress :: "diner_pc table \<Rightarrow> string" where
  "asymmetric_print_progress = print_progress"

definition asymmetric_main :: "diner_pc table \<Rightarrow> diner_pc table option" where
  "asymmetric_main = boss_step Loop Gone"

inductive dp_step :: "(nat \<Rightarrow> nat \<times> nat) \<Rightarrow> diner_pc table \<Rightarrow> diner_pc table \<Rightarrow> bool" for order where
  diner: "i < NUM_PHILS \<Longrightarrow> dp_thread order i s = Some t \<Longrightarrow> dp_step order s t"
| boss: "boss_step Loop Gone s = Some t \<Longrightarrow> dp_step order s t"

definition dp_start :: "diner_pc table \<Rightarrow> bool" where
  "dp_start s \<longleftrightarrow> s = set_table New"

section \<open>The philosophers with a waiter\<close>

datatype guest_pc = WNew | WLoop | WThink | WAsk | WTest | WWait | WWake | WTake | WLeave | WEat
  | WReturn | WPut | WSignalLeft | WSignalRight | WDone | WCount | WCountTotal | WGone

definition lock_waiter :: "nat \<Rightarrow> guest_pc \<Rightarrow> guest_pc table \<Rightarrow> guest_pc table option" where
  "lock_waiter i pc s = (if waiter s = None then Some (goto_diner i pc (s\<lparr>waiter := Some i\<rparr>)) else None)"

text \<open>\<open>pthread_cond_signal\<close> on the condition variable of philosopher \<open>j\<close>, the only one to wait on it.\<close>

definition signal_can_eat :: "nat \<Rightarrow> guest_pc table \<Rightarrow> guest_pc table" where
  "signal_can_eat j s = (if diners s ! j = WWait then goto_diner j WWake s else s)"

definition set_available :: "nat \<Rightarrow> bool \<Rightarrow> 'p table \<Rightarrow> 'p table" where
  "set_available i b s = s\<lparr>available_chopsticks :=
     ((available_chopsticks s)[left_chop i := b])[right_chop i := b]\<rparr>"

definition waiter_thread :: "nat \<Rightarrow> guest_pc table \<Rightarrow> guest_pc table option" where
  "waiter_thread i s = (case diners s ! i of
     WNew \<Rightarrow> None
   | WLoop \<Rightarrow> Some (goto_diner i (if \<not> stopped s then WThink else WGone) s)
   | WThink \<Rightarrow> Some (goto_diner i WAsk s)
   | WAsk \<Rightarrow> lock_waiter i WTest s
   | WTest \<Rightarrow> Some (if \<not> (available_chopsticks s ! left_chop i \<and> available_chopsticks s ! right_chop i)
       then goto_diner i WWait (s\<lparr>waiter := None\<rparr>) else goto_diner i WTake s)
   | WWait \<Rightarrow> None
   | WWake \<Rightarrow> lock_waiter i WTest s
   | WTake \<Rightarrow> Some (goto_diner i WLeave (set_available i False s))
   | WLeave \<Rightarrow> Some (goto_diner i WEat (s\<lparr>waiter := None\<rparr>))
   | WEat \<Rightarrow> Some (goto_diner i WReturn s)
   | WReturn \<Rightarrow> lock_waiter i WPut s
   | WPut \<Rightarrow> Some (goto_diner i WSignalLeft (set_available i True s))
   | WSignalLeft \<Rightarrow> Some (goto_diner i WSignalRight (signal_can_eat (left_phil i) s))
   | WSignalRight \<Rightarrow> Some (goto_diner i WDone (signal_can_eat (right_phil i) s))
   | WDone \<Rightarrow> Some (goto_diner i WCount (s\<lparr>waiter := None\<rparr>))
   | WCount \<Rightarrow> Some (goto_diner i WCountTotal (s\<lparr>prog := (prog s)[i := prog s ! i + 1]\<rparr>))
   | WCountTotal \<Rightarrow> Some (goto_diner i WLoop (s\<lparr>prog_total := (prog_total s)[i := prog_total s ! i + 1]\<rparr>))
   | WGone \<Rightarrow> None)"

definition waiter_set_table :: "guest_pc table" where
  "waiter_set_table = set_table WNew"

definition waiter_print_progress :: "guest_pc table \<Rightarrow> string" where
  "waiter_print_progress = print_progress"

definition waiter_main :: "guest_pc table \<Rightarrow> guest_pc table option" where
  "waiter_main = boss_step WLoop WGone"

inductive waiter_step :: "guest_pc table \<Rightarrow> guest_pc table \<Rightarrow> bool" where
  diner: "i < NUM_PHILS \<Longrightarrow> waiter_thread i s = Some t \<Longrightarrow> waiter_step s t"
| boss: "waiter_main s = Some t \<Longrightarrow> waiter_step s t"

inductive waiter_step_spurious :: "guest_pc table \<Rightarrow> guest_pc table \<Rightarrow> bool" where
  run: "waiter_step s t \<Longrightarrow> waiter_step_spurious s t"
| wake: "i < NUM_PHILS \<Longrightarrow> diners s ! i = WWait \<Longrightarrow> waiter_step_spurious s (goto_diner i WWake s)"

definition waiter_start :: "guest_pc table \<Rightarrow> bool" where
  "waiter_start s \<longleftrightarrow> s = waiter_set_table"

end
