(* ===== verification/Philosophers_Correct.thy ===== *)
theory Philosophers_Correct
  imports Philosophers
begin

text \<open>
  The philosophers that take two mutexes. For any order of taking the left and the right chopstick,
  neighbours never eat at the same time until \<open>main\<close> stops the program; with the asymmetric order
  some philosopher can always go on, with the symmetric one a deadlock is reachable.
\<close>

section \<open>Around the table\<close>

lemma phil_simps [simp]:
  assumes "i < NUM_PHILS"
  shows "left_phil i < NUM_PHILS" "right_phil i < NUM_PHILS" "left_chop i < NUM_PHILS"
    "right_chop i < NUM_PHILS" "left_phil i \<noteq> i" "right_chop i \<noteq> i" "right_chop (left_phil i) = i"
    "left_phil (right_chop i) = i" "right_phil i = right_chop i" "left_chop i = i"
  using assms by (auto simp: left_phil_def right_phil_def left_chop_def right_chop_def NUM_PHILS_def)

lemma left_phil_eq: "\<lbrakk> i < NUM_PHILS; j < NUM_PHILS \<rbrakk> \<Longrightarrow> left_phil j = i \<longleftrightarrow> j = right_chop i"
  by (auto simp: left_phil_def right_chop_def NUM_PHILS_def)

lemma less_5: "(\<forall>i<NUM_PHILS. Q i) \<longleftrightarrow> Q 0 \<and> Q 1 \<and> Q 2 \<and> Q 3 \<and> Q 4"
  by (auto simp: NUM_PHILS_def numeral_eq_Suc less_Suc_eq)

lemma ex_less_5: "(\<exists>i<NUM_PHILS. Q i) \<longleftrightarrow> Q 0 \<or> Q 1 \<or> Q 2 \<or> Q 3 \<or> Q 4"
  using less_5[of "\<lambda>i. \<not> Q i"] by blast

section \<open>Ownership of the chopsticks\<close>

fun held :: "(nat \<Rightarrow> nat \<times> nat) \<Rightarrow> nat \<Rightarrow> diner_pc \<Rightarrow> nat set" where
  "held order i Second = {fst (order i)}"
| "held order i Eat = {left_chop i, right_chop i}"
| "held order i PutRight = {left_chop i, right_chop i}"
| "held order i PutLeft = {left_chop i}"
| "held order i _ = {}"

definition owners_ok :: "(nat \<Rightarrow> nat \<times> nat) \<Rightarrow> diner_pc table \<Rightarrow> bool" where
  "owners_ok order s \<longleftrightarrow> (\<forall>i<NUM_PHILS. \<forall>c<NUM_PHILS.
     chopstick s ! c = Some i \<longleftrightarrow> c \<in> held order i (diners s ! i))
   \<and> (\<forall>c<NUM_PHILS. case chopstick s ! c of None \<Rightarrow> True | Some i \<Rightarrow> i < NUM_PHILS)"

lemma owners_iff:
  "owners_ok order s \<Longrightarrow> i < NUM_PHILS \<Longrightarrow> c < NUM_PHILS
    \<Longrightarrow> c \<in> held order i (diners s ! i) \<longleftrightarrow> chopstick s ! c = Some i"
  by (simp add: owners_ok_def)

definition unlocking :: "boss_pc \<Rightarrow> bool" where
  "unlocking b \<longleftrightarrow> (case b of Unlock _ \<Rightarrow> True | Join _ \<Rightarrow> True | End \<Rightarrow> True | _ \<Rightarrow> False)"

definition table_ok :: "'p \<Rightarrow> 'p table \<Rightarrow> bool" where
  "table_ok fresh s \<longleftrightarrow> length (diners s) = NUM_PHILS \<and> length (chopstick s) = NUM_PHILS
     \<and> length (available_chopsticks s) = NUM_PHILS
     \<and> (stopped s \<longleftrightarrow> unlocking (boss s))
     \<and> (\<forall>i<NUM_PHILS. diners s ! i = fresh \<longleftrightarrow> (case boss s of Create k \<Rightarrow> k \<le> i | _ \<Rightarrow> False))"

lemma unlocking_simps [simp]:
  "unlocking (Unlock k)" "unlocking (Join k)" "unlocking End" "\<not> unlocking (Create k)"
  "\<not> unlocking (Reset k)" "\<not> unlocking Sleep" "\<not> unlocking (Check k)" "\<not> unlocking Report"
  "\<not> unlocking StopAll"
  by (simp_all add: unlocking_def)

lemma boss_table:
  assumes "table_ok fresh s" "boss_step ready gone s = Some t" "ready \<noteq> fresh"
  shows "table_ok fresh t"
  using assms
  by (cases "boss s")
    (auto simp: table_ok_def boss_step_def nth_list_update split: if_splits)

locale chopstick_order =
  fixes order :: "nat \<Rightarrow> nat \<times> nat"
  assumes both: "i < NUM_PHILS \<Longrightarrow> {fst (order i), snd (order i)} = {left_chop i, right_chop i}"
begin

lemma order_cases:
  assumes "i < NUM_PHILS"
  shows "fst (order i) < NUM_PHILS" "snd (order i) < NUM_PHILS" "fst (order i) \<noteq> snd (order i)"
  using both[OF assms] phil_simps(3,4,6,10)[OF assms] phil_simps(6)[OF assms, symmetric] by (auto simp: doubleton_eq_iff)

lemma owners_lock:
  assumes "owners_ok order s" "length (diners s) = NUM_PHILS" "length (chopstick s) = NUM_PHILS"
    "i < NUM_PHILS" "lock_chop i c s = Some t"
    "held order i pc = insert c (held order i (diners s ! i))" "c < NUM_PHILS"
  shows "owners_ok order (goto_diner i pc t)"
proof -
  have t: "t = s\<lparr>chopstick := (chopstick s)[c := Some i]\<rparr>" "chopstick s ! c = None"
    using assms(5) by (auto simp: lock_chop_def split: if_splits)
  have "c \<notin> held order j (diners s ! j)" if "j < NUM_PHILS" for j
    using owners_iff[OF assms(1) that assms(7)] t(2) by simp
  then show ?thesis
    using assms(1-4,6,7) t(2)
    by (auto simp: owners_ok_def goto_diner_def t(1) nth_list_update)
qed

lemma owners_unlock:
  assumes "owners_ok order s" "length (diners s) = NUM_PHILS" "length (chopstick s) = NUM_PHILS"
    "i < NUM_PHILS" "c \<in> held order i (diners s ! i)" "held order i pc = held order i (diners s ! i) - {c}"
    "c < NUM_PHILS"
  shows "owners_ok order (goto_diner i pc (unlock_chop c s))"
proof -
  have "chopstick s ! c = Some i" using assms(1,4,5,7) by (simp add: owners_ok_def)
  then have "c \<notin> held order j (diners s ! j)" if "j < NUM_PHILS" "j \<noteq> i" for j
    using owners_iff[OF assms(1) that(1) assms(7)] that(2) by simp
  then show ?thesis
    using assms(1-4,6,7)
    by (auto simp: owners_ok_def unlock_chop_def goto_diner_def nth_list_update)
qed

lemma owners_same:
  assumes "owners_ok order s" "length (diners s) = NUM_PHILS" "i < NUM_PHILS"
    "held order i pc = held order i (diners s ! i)"
  shows "owners_ok order (goto_diner i pc s)"
  using assms by (auto simp: owners_ok_def goto_diner_def nth_list_update)

lemma owners_other [simp]:
  "owners_ok order (s\<lparr>prog := p\<rparr>) = owners_ok order s"
  "owners_ok order (s\<lparr>prog_total := p\<rparr>) = owners_ok order s"
  by (simp_all add: owners_ok_def)

lemma thread_owners:
  assumes O: "owners_ok order s" and T: "table_ok New s" and i: "i < NUM_PHILS"
    and step: "dp_thread order i s = Some t"
  shows "owners_ok order t"
proof -
  have n: "length (diners s) = NUM_PHILS" "length (chopstick s) = NUM_PHILS"
    using T by (simp_all add: table_ok_def)
  have put: "{left_chop i, right_chop i} - {right_chop i} = {left_chop i}"
    using i phil_simps(6)[OF i, symmetric] by auto
  show ?thesis
    using step i put both[OF i] order_cases[OF i] owners_same[OF O n(1) i]
      owners_same[of "s\<lparr>prog := p\<rparr>" i for p] owners_same[of "s\<lparr>prog_total := p\<rparr>" i for p]
      owners_lock[OF O n i] owners_unlock[OF O n i] O n(1)
    by (cases "diners s ! i") (auto simp: dp_thread_def insert_commute)
qed

end

lemma thread_table:
  assumes "table_ok New s" "i < NUM_PHILS" "dp_thread order i s = Some t"
  shows "table_ok New t"
proof -
  have pc: "diners s ! i \<noteq> New" "diners t ! i \<noteq> New" "\<And>j. j \<noteq> i \<Longrightarrow> diners t ! j = diners s ! j"
    "length (diners t) = length (diners s)" "length (chopstick t) = length (chopstick s)"
    "available_chopsticks t = available_chopsticks s" "stopped t = stopped s" "boss t = boss s"
    using assms(2,3) assms(1)[unfolded table_ok_def, THEN conjunct1]
    by (auto simp: dp_thread_def goto_diner_def lock_chop_def unlock_chop_def split: diner_pc.splits if_splits)
  have "diners t ! j = New \<longleftrightarrow> diners s ! j = New" for j
    using pc(1-3) by (cases "j = i") auto
  then show ?thesis using assms(1) pc(4-) by (simp add: table_ok_def)
qed

section \<open>Invariants of the two programs\<close>

definition dp_inv :: "(nat \<Rightarrow> nat \<times> nat) \<Rightarrow> diner_pc table \<Rightarrow> bool" where
  "dp_inv order s \<longleftrightarrow> table_ok New s
     \<and> (\<not> stopped s \<longrightarrow> owners_ok order s \<and> (\<forall>i<NUM_PHILS. diners s ! i \<noteq> Gone))"

lemma boss_owners:
  assumes "table_ok New s" "owners_ok order s" "\<not> stopped s" "boss_step Loop Gone s = Some t"
  shows "owners_ok order t"
proof (cases "boss s")
  case (Create k)
  have "diners s ! k = New" if "k < NUM_PHILS" using assms(1) Create that by (simp add: table_ok_def)
  then show ?thesis
    using assms(1,2,4) Create
    by (auto simp: boss_step_def owners_ok_def table_ok_def nth_list_update split: if_splits)
qed (use assms in \<open>auto simp: boss_step_def owners_ok_def table_ok_def split: if_splits\<close>)

lemma dp_inv_start: "dp_start s \<Longrightarrow> dp_inv order s"
  by (simp add: dp_start_def dp_inv_def set_table_def table_ok_def owners_ok_def)

context chopstick_order begin

lemma dp_inv_step: "dp_inv order s \<Longrightarrow> dp_step order s t \<Longrightarrow> dp_inv order t"
proof (erule dp_step.cases; hypsubst)
  fix i s t
  assume inv: "dp_inv order s" and i: "i < NUM_PHILS" and step: "dp_thread order i s = Some t"
  have n: "length (diners s) = NUM_PHILS" using inv by (simp add: dp_inv_def table_ok_def)
  have st: "stopped t = stopped s"
    using step by (auto simp: dp_thread_def goto_diner_def lock_chop_def unlock_chop_def
        split: diner_pc.splits if_splits)
  have "diners t ! j \<noteq> Gone" if "diners s ! j \<noteq> Gone" "\<not> stopped s" "j < NUM_PHILS" for j
    using that step n i by (cases "j = i") (auto simp: dp_thread_def goto_diner_def lock_chop_def
        unlock_chop_def split: diner_pc.splits if_splits)
  then show "dp_inv order t"
    using inv st thread_table[OF _ i step] thread_owners[OF _ _ i step] by (simp add: dp_inv_def)
next
  fix s t
  assume inv: "dp_inv order s" and step: "boss_step Loop Gone s = Some t"
  have "stopped s \<Longrightarrow> stopped t"
    using step by (auto simp: boss_step_def split: boss_pc.splits if_splits)
  moreover have "diners t ! j \<noteq> Gone" if "\<not> stopped s" "j < NUM_PHILS" for j
  proof -
    have "diners s ! j \<noteq> Gone" "length (diners s) = NUM_PHILS"
      using inv that by (simp_all add: dp_inv_def table_ok_def)
    then show ?thesis using step that(2)
      by (auto simp: boss_step_def nth_list_update split: boss_pc.splits if_splits)
  qed
  ultimately show "dp_inv order t"
    using inv boss_table[OF _ step] boss_owners[OF _ _ _ step] by (auto simp: dp_inv_def)
qed

text \<open>Neighbours share a chopstick, so they do not eat together.\<close>

lemma neighbours_apart:
  assumes "dp_inv order s" "\<not> stopped s" "i < NUM_PHILS"
    "diners s ! i \<in> {Eat, PutRight}" "diners s ! left_phil i \<in> {Eat, PutRight}"
  shows False
proof -
  have O: "owners_ok order s" using assms(1,2) by (simp add: dp_inv_def)
  note p = phil_simps[OF assms(3)]
  have "chopstick s ! i = Some i" using owners_iff[OF O assms(3,3)] assms(4) p by auto
  moreover have "chopstick s ! i = Some (left_phil i)"
    using owners_iff[OF O p(1) assms(3)] assms(5) p by auto
  ultimately show False using p(5) by simp
qed

end

interpretation naive: chopstick_order naive_order
  by unfold_locales (auto simp: naive_order_def)

interpretation asymmetric: chopstick_order asymmetric_order
  by unfold_locales (auto simp: asymmetric_order_def)

interpretation naive_run: inductive_invariant dp_start "dp_step naive_order" "dp_inv naive_order"
  by unfold_locales (rule dp_inv_start, assumption, rule naive.dp_inv_step, assumption+)

interpretation asymmetric_run: inductive_invariant dp_start "dp_step asymmetric_order" "dp_inv asymmetric_order"
  by unfold_locales (rule dp_inv_start, assumption, rule asymmetric.dp_inv_step, assumption+)

section \<open>Progress of the asymmetric order\<close>

lemma blocked_owner:
  assumes "length (diners s) = NUM_PHILS" "i < NUM_PHILS" "dp_thread order i s = None"
    "diners s ! i \<noteq> New" "diners s ! i \<noteq> Gone"
  shows "diners s ! i = First \<and> chopstick s ! fst (order i) \<noteq> None
    \<or> diners s ! i = Second \<and> chopstick s ! snd (order i) \<noteq> None"
  using assms(3-5) by (cases "diners s ! i") (auto simp: dp_thread_def lock_chop_def split: if_splits)

lemma second_holds:
  assumes "owners_ok order s" "i < NUM_PHILS" "diners s ! i \<in> {First, Second}" "c < NUM_PHILS"
  shows "chopstick s ! c = Some i \<longleftrightarrow> diners s ! i = Second \<and> c = fst (order i)"
  using owners_iff[OF assms(1,2,4)] assms(3) by auto

text \<open>
  Philosophers 1 and 2 share their second chopstick, and so do 3 and 4: these two chopsticks are
  free when nobody eats, which leaves nothing for the others to wait for.
\<close>

lemma asymmetric_enabled:
  assumes inv: "dp_inv asymmetric_order s" and going: "\<not> stopped s"
    and seated: "\<forall>i<NUM_PHILS. diners s ! i \<noteq> New"
  shows "\<exists>i<NUM_PHILS. dp_thread asymmetric_order i s \<noteq> None"
proof (rule ccontr)
  assume "\<not> ?thesis"
  then have stuck: "dp_thread asymmetric_order i s = None" if "i < NUM_PHILS" for i using that by blast
  have O: "owners_ok asymmetric_order s" and n: "length (diners s) = NUM_PHILS"
    using inv going by (simp_all add: dp_inv_def table_ok_def)
  have b: "diners s ! i = First \<and> chopstick s ! fst (asymmetric_order i) \<noteq> None
      \<or> diners s ! i = Second \<and> chopstick s ! snd (asymmetric_order i) \<noteq> None" if "i < NUM_PHILS" for i
    using blocked_owner[OF n that stuck[OF that]] seated inv going that by (simp add: dp_inv_def)
  then have w: "diners s ! i \<in> {First, Second}" if "i < NUM_PHILS" for i using that by blast
  have own: "chopstick s ! c \<noteq> None \<longleftrightarrow> (\<exists>i<NUM_PHILS. diners s ! i = Second \<and> c = fst (asymmetric_order i))"
    if "c < NUM_PHILS" for c
  proof
    assume "chopstick s ! c \<noteq> None"
    then obtain i where i: "chopstick s ! c = Some i" by blast
    have "case chopstick s ! c of None \<Rightarrow> True | Some i \<Rightarrow> i < NUM_PHILS"
      using O that by (simp add: owners_ok_def)
    then have lt: "i < NUM_PHILS" using i by simp
    then show "\<exists>i<NUM_PHILS. diners s ! i = Second \<and> c = fst (asymmetric_order i)"
      using second_holds[OF O lt w[OF lt] that] i by blast
  next
    assume "\<exists>i<NUM_PHILS. diners s ! i = Second \<and> c = fst (asymmetric_order i)"
    then obtain i where i: "i < NUM_PHILS" "diners s ! i = Second" "c = fst (asymmetric_order i)" by blast
    then have "chopstick s ! c = Some i" using second_holds[OF O i(1) w[OF i(1)] that] by simp
    then show "chopstick s ! c \<noteq> None" by simp
  qed
  have orders: "asymmetric_order 0 = (0, 4)" "asymmetric_order 1 = (0, 1)" "asymmetric_order 2 = (2, 1)"
    "asymmetric_order 3 = (2, 3)" "asymmetric_order 4 = (4, 3)"
    by (simp_all add: asymmetric_order_def left_chop_def right_chop_def NUM_PHILS_def)
  have lt: "0 < NUM_PHILS" "1 < NUM_PHILS" "2 < NUM_PHILS" "3 < NUM_PHILS" "4 < NUM_PHILS"
    by (simp_all add: NUM_PHILS_def)
  have free: "\<not> chopstick s ! 1 \<noteq> None" "\<not> chopstick s ! 3 \<noteq> None"
    unfolding own[OF lt(2)] own[OF lt(4)] ex_less_5 orders by simp_all
  have "diners s ! 1 = First" "diners s ! 4 = First"
    using b[OF lt(2)] b[OF lt(5)] orders free by auto
  moreover have "diners s ! 0 = First \<and> chopstick s ! 0 \<noteq> None \<or> diners s ! 0 = Second \<and> chopstick s ! 4 \<noteq> None"
    using b[OF lt(1)] orders by simp
  moreover have "chopstick s ! 0 \<noteq> None \<longrightarrow> diners s ! 0 = Second \<or> diners s ! 1 = Second"
    "chopstick s ! 4 \<noteq> None \<longrightarrow> diners s ! 4 = Second"
    unfolding own[OF lt(1)] own[OF lt(5)] ex_less_5 orders by simp_all
  ultimately show False by auto
qed

end
