(* ===== verification/Philosophers_Run.thy ===== *)
theory Philosophers_Run
  imports Philosophers_Correct
begin

text \<open>
  The properties of the two mutex programs, with executable schedules for the runs they show.
\<close>

section \<open>Schedules\<close>

datatype act = D nat | B

fun act_step :: "(nat \<Rightarrow> nat \<times> nat) \<Rightarrow> act \<Rightarrow> diner_pc table \<Rightarrow> diner_pc table option" where
  "act_step order (D i) s = (if i < NUM_PHILS then dp_thread order i s else None)"
| "act_step order B s = boss_step Loop Gone s"

primrec dp_run :: "(nat \<Rightarrow> nat \<times> nat) \<Rightarrow> act list \<Rightarrow> diner_pc table \<Rightarrow> diner_pc table option" where
  "dp_run order [] s = Some s"
| "dp_run order (a # as) s = Option.bind (act_step order a s) (dp_run order as)"

lemma act_step_dp_step: "act_step order a s = Some t \<Longrightarrow> dp_step order s t"
  by (cases a) (auto intro: dp_step.intros split: if_splits)

lemma dp_run_steps: "dp_run order as s = Some t \<Longrightarrow> (dp_step order)\<^sup>*\<^sup>* s t"
proof (induction as arbitrary: s)
  case (Cons a as)
  then obtain u where "act_step order a s = Some u" "dp_run order as u = Some t"
    by (auto split: Option.bind_splits)
  then show ?case using Cons.IH act_step_dp_step by (meson converse_rtranclp_into_rtranclp)
qed simp

lemma reachable_steps: "reachable st step s \<Longrightarrow> step\<^sup>*\<^sup>* s t \<Longrightarrow> reachable st step t"
  by (rotate_tac 1, induction rule: rtranclp_induct) (auto intro: reachable.step)

lemma dp_run_append: "dp_run order (as @ bs) s = Option.bind (dp_run order as s) (dp_run order bs)"
proof (induction as arbitrary: s)
  case (Cons a as)
  then show ?case by (cases "act_step order a s") auto
qed simp

lemmas dp_eval = dp_thread_def boss_step_def goto_diner_def lock_chop_def unlock_chop_def
  naive_order_def left_chop_def right_chop_def NUM_PHILS_def ITERATION_LIMIT_def nat_literals

text \<open>Everybody has taken the left chopstick while \<open>main\<close> sleeps.\<close>

definition all_waiting :: "diner_pc table" where
  "all_waiting = (set_table New)\<lparr>diners := replicate 5 Second, chopstick := map Some [0..<5],
     boss := Sleep, screen := [header]\<rparr>"

definition to_deadlock :: "act list" where
  "to_deadlock = replicate 12 B @ concat (map (\<lambda>i. [D i, D i, D i]) [0..<5])"

lemma reach_all_waiting: "dp_run naive_order to_deadlock (set_table New) = Some all_waiting"
  by (simp add: to_deadlock_def all_waiting_def set_table_def dp_eval upt_rec)

text \<open>\<open>main\<close> gives up and unlocks every chopstick; then everybody eats, and everybody leaves.\<close>

definition to_feast :: "act list" where
  "to_feast = replicate 15 B @ map D [0..<5]"

definition to_end :: "act list" where
  "to_end = concat (map (\<lambda>i. replicate 6 (D i)) [0..<5]) @ replicate 6 B"

definition feasting :: "diner_pc table" where
  "feasting = all_waiting\<lparr>diners := replicate 5 Eat, chopstick := [Some 1, Some 2, Some 3, Some 4, Some 0],
     stopped := True, boss := Join 0, iter := 1, deadlock := True,
     screen := screen all_waiting @ [print_progress (all_waiting\<lparr>boss := Report, deadlock := True\<rparr>),
       ''Deadlock Detected'' @ [CHR 0x0A]]\<rparr>"

lemma reach_feast: "dp_run naive_order to_feast all_waiting = Some feasting"
  by (simp add: to_feast_def feasting_def all_waiting_def set_table_def dp_eval upt_rec)

lemma reach_end: "\<exists>u. dp_run naive_order to_end feasting = Some u \<and> boss u = End
    \<and> last (screen u) = ''Deadlock Detected'' @ [CHR 0x0A]"
  by (simp add: to_end_def feasting_def all_waiting_def set_table_def dp_eval upt_rec)

lemma table_reachable: "reachable dp_start (dp_step order) (set_table New)"
  by (rule reachable.start) (simp add: dp_start_def)

lemma run_reachable: "dp_run order as (set_table New) = Some s \<Longrightarrow> reachable dp_start (dp_step order) s"
  by (rule reachable_steps[OF table_reachable dp_run_steps])

section \<open>Properties\<close>





text \<open>
  C30. In \<open>dining_philosophers.c\<close>, where everybody takes the left chopstick first, all
  philosophers can block one another. \<open>main\<close> notices, prints its message and unlocks all
  chopsticks although the philosophers own them; from then on neighbours do eat at the same
  time, and the program can end.\<close>

theorem naive_deadlock_and_recovery:
  "\<exists>s t u. reachable dp_start (dp_step naive_order) s
    \<and> map (\<lambda>i. naive_thread i s) [0..<NUM_PHILS] = replicate NUM_PHILS None
    \<and> boss s = Sleep \<and> (dp_step naive_order)\<^sup>*\<^sup>* s t \<and> diners t = replicate NUM_PHILS Eat
    \<and> (dp_step naive_order)\<^sup>*\<^sup>* t u \<and> boss u = End \<and> last (screen u) = ''Deadlock Detected'' @ [CHR 0x0A]"
proof -
  have "\<forall>i<NUM_PHILS. naive_thread i all_waiting = None"
    unfolding less_5 by (simp add: naive_thread_def all_waiting_def dp_eval upt_rec)
  then have stuck: "map (\<lambda>i. naive_thread i all_waiting) [0..<NUM_PHILS] = replicate NUM_PHILS None"
    by (intro nth_equalityI) simp_all
  have feast: "diners feasting = replicate NUM_PHILS Eat"
    by (simp add: feasting_def NUM_PHILS_def)
  obtain u where u: "dp_run naive_order to_end feasting = Some u" "boss u = End"
    "last (screen u) = ''Deadlock Detected'' @ [CHR 0x0A]"
    using reach_end by blast
  have "boss all_waiting = Sleep" by (simp add: all_waiting_def)
  then show ?thesis
    by (intro exI[of _ all_waiting] exI[of _ feasting] exI[of _ u] conjI stuck feast
      run_reachable[OF reach_all_waiting] dp_run_steps[OF reach_feast] dp_run_steps[OF u(1)] u(2,3))
qed

end
