(* ===== verification/Philosophers_Waiter.thy ===== *)
theory Philosophers_Waiter
  imports Philosophers_Correct
begin

text \<open>
  The philosophers with a waiter (\<open>dp_waiter.c\<close>): the flags of the chopsticks tell exactly who
  eats, no wakeup is lost, neighbours never eat together, and the whole program cannot deadlock.
\<close>

section \<open>The invariant\<close>

fun eats :: "guest_pc \<Rightarrow> bool" where
  "eats WLeave = True" | "eats WEat = True" | "eats WReturn = True" | "eats WPut = True" | "eats _ = False"

fun at_waiter :: "guest_pc \<Rightarrow> bool" where
  "at_waiter WTest = True" | "at_waiter WTake = True" | "at_waiter WLeave = True" | "at_waiter WPut = True"
| "at_waiter WSignalLeft = True" | "at_waiter WSignalRight = True" | "at_waiter WDone = True"
| "at_waiter _ = False"

definition w_lock :: "guest_pc table \<Rightarrow> bool" where
  "w_lock s \<longleftrightarrow> (\<forall>i<NUM_PHILS. at_waiter (diners s ! i) = (waiter s = Some i))
     \<and> (case waiter s of None \<Rightarrow> True | Some i \<Rightarrow> i < NUM_PHILS)"

definition w_flags :: "guest_pc table \<Rightarrow> bool" where
  "w_flags s \<longleftrightarrow> (\<forall>c<NUM_PHILS. available_chopsticks s ! c
       = (\<not> eats (diners s ! c) \<and> \<not> eats (diners s ! left_phil c))
     \<and> \<not> (eats (diners s ! c) \<and> eats (diners s ! left_phil c)))"

text \<open>Philosopher \<open>i\<close> has reason to wait, or a neighbour is about to signal.\<close>

definition w_reason :: "guest_pc table \<Rightarrow> nat \<Rightarrow> bool" where
  "w_reason s i \<longleftrightarrow> \<not> available_chopsticks s ! i \<or> \<not> available_chopsticks s ! right_chop i
     \<or> diners s ! left_phil i \<in> {WSignalLeft, WSignalRight} \<or> diners s ! right_chop i = WSignalLeft"

definition w_know :: "guest_pc table \<Rightarrow> bool" where
  "w_know s \<longleftrightarrow> (\<forall>i<NUM_PHILS.
     (diners s ! i = WTake \<longrightarrow> available_chopsticks s ! i \<and> available_chopsticks s ! right_chop i)
   \<and> (diners s ! i = WWait \<longrightarrow> w_reason s i))"

definition w_inv :: "guest_pc table \<Rightarrow> bool" where
  "w_inv s \<longleftrightarrow> table_ok WNew s \<and> w_lock s \<and> w_flags s \<and> w_know s"

definition seats :: "guest_pc table \<Rightarrow> bool" where
  "seats s \<longleftrightarrow> length (diners s) = NUM_PHILS \<and> length (available_chopsticks s) = NUM_PHILS"

lemma diners_goto [simp]:
  "diners (goto_diner i pc s) = (diners s)[i := pc]" "waiter (goto_diner i pc s) = waiter s"
  "available_chopsticks (goto_diner i pc s) = available_chopsticks s"
  by (simp_all add: goto_diner_def)

lemma seats_goto [simp]: "seats (goto_diner i pc s) = seats s"
  by (simp add: seats_def)

lemma lock_same:
  assumes "w_lock s" "seats s" "i < NUM_PHILS" "at_waiter pc = at_waiter (diners s ! i)"
  shows "w_lock (goto_diner i pc s)"
  using assms by (auto simp: w_lock_def seats_def nth_list_update)

lemma lock_take:
  assumes "w_lock s" "seats s" "i < NUM_PHILS" "lock_waiter i pc s = Some t" "at_waiter pc"
  shows "w_lock t"
  using assms by (auto simp: w_lock_def seats_def lock_waiter_def goto_diner_def nth_list_update split: if_splits)

lemma lock_release:
  assumes "w_lock s" "seats s" "i < NUM_PHILS" "at_waiter (diners s ! i)" "\<not> at_waiter pc"
  shows "w_lock (goto_diner i pc (s\<lparr>waiter := None\<rparr>))"
  using assms by (auto simp: w_lock_def seats_def goto_diner_def nth_list_update)

lemma flags_same:
  assumes "w_flags s" "seats s" "i < NUM_PHILS" "eats pc = eats (diners s ! i)"
  shows "w_flags (goto_diner i pc s)"
proof -
  have "eats ((diners s)[i := pc] ! j) = eats (diners s ! j)" if "j < NUM_PHILS" for j
    using assms(2-4) that by (cases "j = i") (auto simp: seats_def)
  then show ?thesis using assms(1) by (simp add: w_flags_def)
qed

lemma flags_set:
  assumes F: "w_flags s" and S: "seats s" and i: "i < NUM_PHILS" and pc: "eats pc = (\<not> b)"
    and free: "\<not> b \<Longrightarrow> available_chopsticks s ! i \<and> available_chopsticks s ! right_chop i"
    and old: "eats (diners s ! i) = b"
  shows "w_flags (goto_diner i pc (set_available i b s))"
proof -
  note p = phil_simps[OF i]
  have e: "eats ((diners s)[i := pc] ! j) = (if j = i then \<not> b else eats (diners s ! j))" if "j < NUM_PHILS" for j
    using S i pc that by (cases "j = i") (auto simp: seats_def)
  have a: "available_chopsticks (set_available i b s) ! c
      = (if c = i \<or> c = right_chop i then b else available_chopsticks s ! c)" if "c < NUM_PHILS" for c
    using S i p that by (auto simp: set_available_def seats_def nth_list_update)
  have d: "diners (set_available i b s) = diners s" by (simp add: set_available_def)
  show ?thesis
    unfolding w_flags_def
  proof (intro allI impI)
    fix c assume c: "c < NUM_PHILS"
    note pc' = phil_simps[OF c]
    have old_c: "available_chopsticks s ! c = (\<not> eats (diners s ! c) \<and> \<not> eats (diners s ! left_phil c))"
      "\<not> (eats (diners s ! c) \<and> eats (diners s ! left_phil c))"
      using F c by (auto simp: w_flags_def)
    have lp: "left_phil c = i \<longleftrightarrow> c = right_chop i" using left_phil_eq[OF i c] by simp
    show "available_chopsticks (goto_diner i pc (set_available i b s)) ! c
       = (\<not> eats (diners (goto_diner i pc (set_available i b s)) ! c)
          \<and> \<not> eats (diners (goto_diner i pc (set_available i b s)) ! left_phil c))
     \<and> \<not> (eats (diners (goto_diner i pc (set_available i b s)) ! c)
          \<and> eats (diners (goto_diner i pc (set_available i b s)) ! left_phil c))"
      using e[OF c] e[OF pc'(1)] a[OF c] old_c lp free old p pc'(5) d by auto
  qed
qed

text \<open>What a philosopher knows is kept when another one moves.\<close>

lemma reason_goto:
  assumes "w_reason s j" "seats s" "i < NUM_PHILS" "diners s ! i \<notin> {WSignalLeft, WSignalRight}"
  shows "w_reason (goto_diner i pc s) j"
  using assms by (auto simp: w_reason_def seats_def nth_list_update)

lemma know_goto:
  assumes K: "w_know s" and S: "seats s" and i: "i < NUM_PHILS"
    and old: "diners s ! i \<notin> {WSignalLeft, WSignalRight}"
    and take: "pc = WTake \<Longrightarrow> available_chopsticks s ! i \<and> available_chopsticks s ! right_chop i"
    and wait: "pc = WWait \<Longrightarrow> w_reason s i"
  shows "w_know (goto_diner i pc s)"
  unfolding w_know_def
proof (intro allI impI)
  fix j assume j: "j < NUM_PHILS"
  have pc: "diners (goto_diner i pc s) ! j = (if j = i then pc else diners s ! j)"
    using S i by (auto simp: seats_def)
  have r: "w_reason s j \<Longrightarrow> w_reason (goto_diner i pc s) j"
    using reason_goto[OF _ S i old] .
  show "(diners (goto_diner i pc s) ! j = WTake \<longrightarrow> available_chopsticks (goto_diner i pc s) ! j
      \<and> available_chopsticks (goto_diner i pc s) ! right_chop j)
    \<and> (diners (goto_diner i pc s) ! j = WWait \<longrightarrow> w_reason (goto_diner i pc s) j)"
    using K j pc r take wait by (auto simp: w_know_def)
qed

lemma others_away:
  assumes "w_lock s" "i < NUM_PHILS" "at_waiter (diners s ! i)" "j < NUM_PHILS" "j \<noteq> i"
  shows "\<not> at_waiter (diners s ! j)"
  using assms by (auto simp: w_lock_def)

lemma know_set:
  assumes K: "w_know s" and L: "w_lock s" and S: "seats s" and i: "i < NUM_PHILS"
    and pc: "b \<and> diners s ! i = WPut \<and> pc = WSignalLeft \<or> \<not> b \<and> diners s ! i = WTake \<and> pc = WLeave"
  shows "w_know (goto_diner i pc (set_available i b s))"
  unfolding w_know_def
proof (intro allI impI)
  fix j assume j: "j < NUM_PHILS"
  let ?t = "goto_diner i pc (set_available i b s)"
  note p = phil_simps[OF i] and pj = phil_simps[OF j]
  have at: "at_waiter (diners s ! i)" using pc by auto
  have d: "diners ?t ! k = (if k = i then pc else diners s ! k)" for k
    using S i by (auto simp: seats_def set_available_def)
  have a: "available_chopsticks ?t ! c
      = (if c = i \<or> c = right_chop i then b else available_chopsticks s ! c)" if "c < NUM_PHILS" for c
    using S i p that by (auto simp: set_available_def seats_def nth_list_update)
  have "diners ?t ! j \<noteq> WTake"
    using d pc others_away[OF L i at j] by auto
  moreover have "w_reason ?t j" if w: "diners ?t ! j = WWait"
  proof -
    have ji: "j \<noteq> i" and "diners s ! j = WWait" using w d pc by (auto split: if_splits)
    then have r: "w_reason s j" using K j by (simp add: w_know_def)
    have quiet: "diners s ! k \<notin> {WSignalLeft, WSignalRight}" if "k < NUM_PHILS" for k
      using others_away[OF L i at that] pc by (cases "k = i") auto
    have un: "\<not> available_chopsticks s ! j \<or> \<not> available_chopsticks s ! right_chop j"
      using r quiet[OF pj(1)] quiet[OF pj(4)] by (auto simp: w_reason_def)
    have lp: "left_phil j = i \<longleftrightarrow> j = right_chop i" using left_phil_eq[OF i j] by simp
    have rp: "right_chop j = i \<longleftrightarrow> j = left_phil i" using left_phil_eq[OF j i] by auto
    have inj: "right_chop j = right_chop i \<Longrightarrow> j = i" using pj(8) p(8) by metis
    show ?thesis
      using un pc lp rp inj ji unfolding w_reason_def d a[OF j] a[OF pj(4)] by auto
  qed
  ultimately show "(diners ?t ! j = WTake \<longrightarrow> available_chopsticks ?t ! j
      \<and> available_chopsticks ?t ! right_chop j) \<and> (diners ?t ! j = WWait \<longrightarrow> w_reason ?t j)" by blast
qed

lemma know_signal:
  assumes K: "w_know s" and L: "w_lock s" and S: "seats s" and i: "i < NUM_PHILS"
    and pc: "k = left_phil i \<and> diners s ! i = WSignalLeft \<and> pc = WSignalRight
      \<or> k = right_phil i \<and> diners s ! i = WSignalRight \<and> pc = WDone"
  shows "w_know (goto_diner i pc (signal_can_eat k s))"
  unfolding w_know_def
proof (intro allI impI)
  fix j assume j: "j < NUM_PHILS"
  let ?t = "goto_diner i pc (signal_can_eat k s)"
  note p = phil_simps[OF i] and pj = phil_simps[OF j]
  have pc_k: "k = left_phil i \<or> k = right_chop i"
    using pc p(9) by blast
  have k: "k < NUM_PHILS" "k \<noteq> i"
    using pc_k p(1,4,5,6) by metis+
  have at: "at_waiter (diners s ! i)" using pc by auto
  have d: "diners ?t ! m = (if m = i then pc else if m = k \<and> diners s ! k = WWait then WWake else diners s ! m)" for m
    using S i k by (auto simp: seats_def signal_can_eat_def nth_list_update)
  have a: "available_chopsticks ?t = available_chopsticks s" by (simp add: signal_can_eat_def)
  have lp: "left_phil j = i \<longleftrightarrow> j = right_chop i" using left_phil_eq[OF i j] by simp
  have rp: "right_chop j = i \<longleftrightarrow> j = left_phil i" using left_phil_eq[OF j i] by auto
  have "diners ?t ! j \<noteq> WTake"
    using d pc others_away[OF L i at j] by auto
  moreover have "w_reason ?t j" if w: "diners ?t ! j = WWait"
  proof -
    have ji: "j \<noteq> i" "j \<noteq> k" and "diners s ! j = WWait" using w d pc by (auto split: if_splits)
    then have r: "w_reason s j" using K j by (simp add: w_know_def)
    have quiet: "diners s ! m \<notin> {WSignalLeft, WSignalRight}" if "m < NUM_PHILS" "m \<noteq> i" for m
      using others_away[OF L i at that] by auto
    have "\<not> available_chopsticks s ! j \<or> \<not> available_chopsticks s ! right_chop j
        \<or> left_phil j = i \<or> right_chop j = i \<and> diners s ! i = WSignalLeft"
      using r quiet[OF pj(1)] quiet[OF pj(4)] by (auto simp: w_reason_def)
    moreover have "pc = WSignalRight" if "left_phil j = i"
      using that pc lp ji(2) p(9) by metis
    moreover have False if "right_chop j = i" "diners s ! i = WSignalLeft"
      using that pc rp ji(2) by auto
    ultimately show ?thesis
      unfolding w_reason_def d a by auto
  qed
  ultimately show "(diners ?t ! j = WTake \<longrightarrow> available_chopsticks ?t ! j
      \<and> available_chopsticks ?t ! right_chop j) \<and> (diners ?t ! j = WWait \<longrightarrow> w_reason ?t j)" by blast
qed

section \<open>Every step keeps the invariant\<close>

lemma w_other [simp]:
  "w_lock (s\<lparr>prog := x\<rparr>) = w_lock s" "w_lock (s\<lparr>prog_total := x\<rparr>) = w_lock s"
  "w_flags (s\<lparr>prog := x\<rparr>) = w_flags s" "w_flags (s\<lparr>prog_total := x\<rparr>) = w_flags s"
  "w_flags (s\<lparr>waiter := w\<rparr>) = w_flags s"
  "w_know (s\<lparr>prog := x\<rparr>) = w_know s" "w_know (s\<lparr>prog_total := x\<rparr>) = w_know s"
  "w_know (s\<lparr>waiter := w\<rparr>) = w_know s"
  "seats (s\<lparr>prog := x\<rparr>) = seats s" "seats (s\<lparr>prog_total := x\<rparr>) = seats s"
  "seats (s\<lparr>waiter := w\<rparr>) = seats s" "seats (set_available i b s) = seats s"
  "w_lock (set_available i b s) = w_lock s"
  by (simp_all add: w_lock_def w_flags_def w_know_def w_reason_def seats_def set_available_def)

lemma lock_signal:
  assumes "w_lock s" "seats s" "k < NUM_PHILS"
  shows "w_lock (signal_can_eat k s)" "seats (signal_can_eat k s)"
  using assms lock_same[of s k WWake] by (auto simp: signal_can_eat_def)

lemma flags_signal:
  assumes "w_flags s" "seats s" "k < NUM_PHILS"
  shows "w_flags (signal_can_eat k s)"
  using assms flags_same[of s k WWake] by (auto simp: signal_can_eat_def)

lemma diners_signal: "i \<noteq> k \<Longrightarrow> diners (signal_can_eat k s) ! i = diners s ! i"
  by (simp add: signal_can_eat_def)

lemma diners_set: "diners (set_available i b s) = diners s"
  by (simp add: set_available_def)

lemma lock_waiter_shape:
  "lock_waiter i pc s = Some t \<Longrightarrow> waiter s = None \<and> t = goto_diner i pc (s\<lparr>waiter := Some i\<rparr>)"
  by (auto simp: lock_waiter_def split: if_splits)

lemma waiter_table:
  assumes "table_ok WNew s" "i < NUM_PHILS" "waiter_thread i s = Some t"
  shows "table_ok WNew t"
proof -
  have n: "length (diners s) = NUM_PHILS" using assms(1) by (simp add: table_ok_def)
  have t: "length (diners t) = length (diners s)" "chopstick t = chopstick s"
    "length (available_chopsticks t) = length (available_chopsticks s)" "stopped t = stopped s" "boss t = boss s"
    using assms(3) by (auto simp: waiter_thread_def lock_waiter_def goto_diner_def signal_can_eat_def
        set_available_def split: guest_pc.splits if_splits)
  have "diners t ! j = WNew \<longleftrightarrow> diners s ! j = WNew" for j
    using assms(2,3) n
    by (cases "j = i"; cases "diners s ! i")
      (auto simp: waiter_thread_def lock_waiter_def signal_can_eat_def
        set_available_def nth_list_update split: if_splits)
  then show ?thesis using assms(1) t by (simp add: table_ok_def)
qed

lemma waiter_thread_inv:
  assumes inv: "w_inv s" and i: "i < NUM_PHILS" and step: "waiter_thread i s = Some t"
  shows "w_inv t"
proof -
  have T: "table_ok WNew s" and L: "w_lock s" and F: "w_flags s" and K: "w_know s"
    using inv by (simp_all add: w_inv_def)
  then have S: "seats s" by (simp add: table_ok_def seats_def)
  note p = phil_simps[OF i]
  have know_i: "diners s ! i = WTake \<Longrightarrow> available_chopsticks s ! i \<and> available_chopsticks s ! right_chop i"
    using K i by (simp add: w_know_def)
  have "w_lock t \<and> w_flags t \<and> w_know t"
  proof (cases "diners s ! i")
    case WAsk
    then show ?thesis using step lock_take[OF L S i, of WTest t] lock_waiter_shape[of i WTest s t]
        flags_same[of "s\<lparr>waiter := Some i\<rparr>" i WTest] know_goto[of "s\<lparr>waiter := Some i\<rparr>" i WTest] F K S i
      by (auto simp: waiter_thread_def)
  next
    case WWake
    then show ?thesis using step lock_take[OF L S i, of WTest t] lock_waiter_shape[of i WTest s t]
        flags_same[of "s\<lparr>waiter := Some i\<rparr>" i WTest] know_goto[of "s\<lparr>waiter := Some i\<rparr>" i WTest] F K S i
      by (auto simp: waiter_thread_def)
  next
    case WReturn
    then show ?thesis using step lock_take[OF L S i, of WPut t] lock_waiter_shape[of i WPut s t]
        flags_same[of "s\<lparr>waiter := Some i\<rparr>" i WPut] know_goto[of "s\<lparr>waiter := Some i\<rparr>" i WPut] F K S i
      by (auto simp: waiter_thread_def)
  next
    case WTest
    then show ?thesis using step lock_release[OF L S i, of WWait] lock_same[OF L S i, of WTake]
        flags_same[of "s\<lparr>waiter := None\<rparr>" i WWait] flags_same[OF F S i, of WTake]
        know_goto[of "s\<lparr>waiter := None\<rparr>" i WWait] know_goto[OF K S i, of WTake] F K S i p
      by (auto simp: waiter_thread_def w_reason_def split: if_splits)
  next
    case WTake
    then show ?thesis using step lock_same[of "set_available i False s" i WLeave]
        flags_set[OF F S i, of WLeave False] know_set[OF K L S i, of False WLeave] know_i L S i
      by (auto simp: waiter_thread_def diners_set)
  next
    case WPut
    then show ?thesis using step lock_same[of "set_available i True s" i WSignalLeft]
        flags_set[OF F S i, of WSignalLeft True] know_set[OF K L S i, of True WSignalLeft] L S i
      by (auto simp: waiter_thread_def diners_set)
  next
    case WSignalLeft
    then show ?thesis
      using step lock_signal[OF L S p(1)] flags_signal[OF F S p(1)] i p(5) diners_signal[of i "left_phil i" s]
        lock_same[OF _ _ i, of "signal_can_eat (left_phil i) s" WSignalRight]
        flags_same[OF _ _ i, of "signal_can_eat (left_phil i) s" WSignalRight]
        know_signal[OF K L S i, of "left_phil i" WSignalRight] p(5)[symmetric]
      by (auto simp: waiter_thread_def)
  next
    case WSignalRight
    then show ?thesis
      using step lock_signal[OF L S p(4)] flags_signal[OF F S p(4)] i p(6,9) diners_signal[of i "right_chop i" s]
        lock_same[OF _ _ i, of "signal_can_eat (right_chop i) s" WDone]
        flags_same[OF _ _ i, of "signal_can_eat (right_chop i) s" WDone]
        know_signal[OF K L S i, of "right_phil i" WDone] p(6)[symmetric]
      by (auto simp: waiter_thread_def)
  next
    case WLeave
    then show ?thesis using step lock_release[OF L S i, of WEat] flags_same[of "s\<lparr>waiter := None\<rparr>" i WEat]
        know_goto[of "s\<lparr>waiter := None\<rparr>" i WEat] F K S i
      by (auto simp: waiter_thread_def)
  next
    case WDone
    then show ?thesis using step lock_release[OF L S i, of WCount] flags_same[of "s\<lparr>waiter := None\<rparr>" i WCount]
        know_goto[of "s\<lparr>waiter := None\<rparr>" i WCount] F K S i
      by (auto simp: waiter_thread_def)
  next
    case WCount
    then show ?thesis using step lock_same[of "s\<lparr>prog := x\<rparr>" i WCountTotal for x]
        flags_same[of "s\<lparr>prog := x\<rparr>" i WCountTotal for x] know_goto[of "s\<lparr>prog := x\<rparr>" i WCountTotal for x] L F K S i
      by (auto simp: waiter_thread_def)
  next
    case WCountTotal
    then show ?thesis using step lock_same[of "s\<lparr>prog_total := x\<rparr>" i WLoop for x]
        flags_same[of "s\<lparr>prog_total := x\<rparr>" i WLoop for x] know_goto[of "s\<lparr>prog_total := x\<rparr>" i WLoop for x] L F K S i
      by (auto simp: waiter_thread_def)
  next
    case WLoop
    then show ?thesis using step lock_same[OF L S i, of WThink] flags_same[OF F S i, of WThink]
        know_goto[OF K S i, of WThink] lock_same[OF L S i, of WGone] flags_same[OF F S i, of WGone]
        know_goto[OF K S i, of WGone]
      by (auto simp: waiter_thread_def)
  next
    case WThink
    then show ?thesis using step lock_same[OF L S i, of WAsk] flags_same[OF F S i, of WAsk]
        know_goto[OF K S i, of WAsk]
      by (auto simp: waiter_thread_def)
  next
    case WEat
    then show ?thesis using step lock_same[OF L S i, of WReturn] flags_same[OF F S i, of WReturn]
        know_goto[OF K S i, of WReturn]
      by (auto simp: waiter_thread_def)
  qed (use step in \<open>simp_all add: waiter_thread_def\<close>)
  then show ?thesis using waiter_table[OF T i step] by (simp add: w_inv_def)
qed

lemma waiter_boss_inv:
  assumes inv: "w_inv s" and step: "waiter_main s = Some t"
  shows "w_inv t"
proof -
  have T: "table_ok WNew s" and L: "w_lock s" and F: "w_flags s" and K: "w_know s"
    using inv by (simp_all add: w_inv_def)
  then have S: "seats s" by (simp add: table_ok_def seats_def)
  have "w_lock t \<and> w_flags t \<and> w_know t"
  proof (cases "boss s")
    case (Create k)
    show ?thesis
    proof (cases "k < NUM_PHILS")
      case True
      then have "diners s ! k = WNew" using T Create by (simp add: table_ok_def)
      then have g: "w_lock (goto_diner k WLoop s)" "w_flags (goto_diner k WLoop s)" "w_know (goto_diner k WLoop s)"
        using lock_same[OF L S True] flags_same[OF F S True] know_goto[OF K S True, of WLoop] by simp_all
      have "t = (goto_diner k WLoop s)\<lparr>boss := Create (Suc k)\<rparr>"
        using step Create True by (simp add: waiter_main_def boss_step_def goto_diner_def)
      then show ?thesis using g by (simp add: w_lock_def w_flags_def w_know_def w_reason_def)
    qed (use step Create L F K in \<open>auto simp: waiter_main_def boss_step_def w_lock_def w_flags_def
          w_know_def w_reason_def\<close>)
  qed (use step L F K in \<open>auto simp: waiter_main_def boss_step_def w_lock_def w_flags_def
          w_know_def w_reason_def split: if_splits\<close>)
  moreover have "table_ok WNew t"
    using boss_table[OF T, of WLoop WGone] step by (simp add: waiter_main_def)
  ultimately show ?thesis by (simp add: w_inv_def)
qed

lemma w_inv_step: "w_inv s \<Longrightarrow> waiter_step s t \<Longrightarrow> w_inv t"
  by (erule waiter_step.cases) (auto intro: waiter_thread_inv waiter_boss_inv)

lemma w_inv_spurious: "w_inv s \<Longrightarrow> waiter_step_spurious s t \<Longrightarrow> w_inv t"
proof (erule waiter_step_spurious.cases; hypsubst)
  fix i s
  assume inv: "w_inv s" and i: "i < NUM_PHILS" and w: "diners s ! i = WWait"
  then have S: "seats s" by (simp add: w_inv_def table_ok_def seats_def)
  have "diners (goto_diner i WWake s) ! j = WNew \<longleftrightarrow> diners s ! j = WNew" for j
    using S i w by (cases "j = i") (auto simp: seats_def)
  then have "table_ok WNew (goto_diner i WWake s)"
    using inv by (simp add: w_inv_def table_ok_def) (simp add: goto_diner_def)
  then show "w_inv (goto_diner i WWake s)"
    using inv w lock_same[OF _ S i, of WWake] flags_same[OF _ S i, of WWake] know_goto[OF _ S i, of WWake]
    by (simp add: w_inv_def)
qed (rule w_inv_step)

lemma w_inv_start: "waiter_start s \<Longrightarrow> w_inv s"
  by (simp add: waiter_start_def waiter_set_table_def w_inv_def set_table_def table_ok_def w_lock_def
      w_flags_def w_know_def)

section \<open>No deadlock\<close>

lemma w_enabled:
  assumes inv: "w_inv s" and going: "boss s \<noteq> End"
  shows "\<exists>t. waiter_step s t"
proof (rule ccontr)
  assume stuck: "\<nexists>t. waiter_step s t"
  have T: "table_ok WNew s" and L: "w_lock s" and F: "w_flags s" and K: "w_know s"
    using inv by (simp_all add: w_inv_def)
  have none: "waiter_thread i s = None" if "i < NUM_PHILS" for i
    using stuck waiter_step.diner[OF that] by (cases "waiter_thread i s") blast+
  have main: "boss_step WLoop WGone s = None"
    using stuck waiter_step.boss by (cases "boss_step WLoop WGone s") (auto simp: waiter_main_def)
  have free: "waiter s = None"
  proof (rule ccontr)
    assume "waiter s \<noteq> None"
    then obtain i where i: "waiter s = Some i" by blast
    then have "i < NUM_PHILS" "at_waiter (diners s ! i)" using L by (auto simp: w_lock_def)
    then show False using none[of i] by (cases "diners s ! i") (auto simp: waiter_thread_def)
  qed
  have pcs: "diners s ! i \<in> {WNew, WWait, WGone}" if "i < NUM_PHILS" for i
    using none[OF that] free by (cases "diners s ! i") (auto simp: waiter_thread_def lock_waiter_def)
  have "diners s ! i \<noteq> WWait" if i: "i < NUM_PHILS" for i
  proof
    assume "diners s ! i = WWait"
    then have "w_reason s i" using K i by (simp add: w_know_def)
    moreover have "available_chopsticks s ! c" if "c < NUM_PHILS" for c
      using F that pcs[OF that] pcs[OF phil_simps(1)[OF that]] by (auto simp: w_flags_def)
    ultimately show False
      using i phil_simps[OF i] pcs[OF phil_simps(1)[OF i]] pcs[OF phil_simps(4)[OF i]]
      by (auto simp: w_reason_def)
  qed
  then show False
    using main going pcs T by (fastforce simp: boss_step_def table_ok_def split: boss_pc.splits if_splits)
qed

interpretation waiter_run: inductive_invariant waiter_start waiter_step_spurious w_inv
  by unfold_locales (rule w_inv_start, assumption, rule w_inv_spurious, assumption+)

interpretation waiter_progress: never_stuck waiter_start waiter_step w_inv "\<lambda>s. boss s = End"
  by unfold_locales (rule w_inv_start, assumption, rule w_inv_step, assumption+, rule w_enabled)

section \<open>Properties\<close>

text \<open>
  C31. In \<open>dp_waiter.c\<close>, in every reachable state and with any spurious wakeups, neighbours never
  eat at the same time, even after the stop, and a chopstick is flagged as available exactly when
  neither of the two philosophers beside it eats.\<close>

theorem waiter_safe:
  assumes "reachable waiter_start waiter_step_spurious s" "i < NUM_PHILS"
  shows "\<not> (eats (diners s ! i) \<and> eats (diners s ! left_phil i))
    \<and> available_chopsticks s ! left_chop i = (\<not> eats (diners s ! i) \<and> \<not> eats (diners s ! left_phil i))"
  using waiter_run.inv_reachable[OF assms(1)] assms(2) by (auto simp: w_inv_def w_flags_def)

theorem waiter_safe_witness:
  "reachable waiter_start waiter_step_spurious waiter_set_table
    \<and> available_chopsticks waiter_set_table ! left_chop 2"
proof -
  have r: "reachable waiter_start waiter_step_spurious waiter_set_table"
    by (rule reachable.start) (simp add: waiter_start_def)
  from waiter_safe[OF r, of 2] r show ?thesis
    by (simp add: waiter_set_table_def set_table_def NUM_PHILS_def left_phil_def)
qed

text \<open>
  C32. \<open>dp_waiter.c\<close> cannot deadlock: in every reachable state the program has ended or a thread can
  take a step without a spurious wakeup. No signal to a neighbour is lost.\<close>

theorem waiter_no_deadlock:
  assumes "reachable waiter_start waiter_step s"
  shows "boss s = End \<or> (\<exists>t. waiter_step s t)"
  using waiter_progress.no_deadlock[OF assms] by auto

theorem waiter_no_deadlock_witness: "\<exists>t. waiter_step waiter_set_table t"
proof -
  have "reachable waiter_start waiter_step waiter_set_table"
    by (rule reachable.start) (simp add: waiter_start_def)
  from waiter_no_deadlock[OF this] show ?thesis by (simp add: waiter_set_table_def set_table_def)
qed

end
