(* ===== verification/Dine.thy ===== *)
theory Dine
  imports Philosophers_Correct
begin

text \<open>
  The dining philosophers that look at themselves through \<open>/proc\<close> (\<open>procfs/dine.c\<close>): deadlock
  is detected by reading the processor times of the threads from their \<open>stat\<close> files. The file
  system is a parameter: the contents of a file, or \<open>None\<close> where \<open>fopen\<close> fails.
\<close>

section \<open>Reading a stat file\<close>

text \<open>\<open>fscanf(statf, "%*s")\<close>\<close>

definition scan_word :: "string \<Rightarrow> string" where
  "scan_word s = dropWhile (\<lambda>c. \<not> is_space c) (dropWhile is_space s)"

text \<open>\<open>strtoul\<close> on the digits that were read: too large a number gives \<open>ULONG_MAX\<close>.\<close>

definition ulong_of :: "bool \<Rightarrow> string \<Rightarrow> 64 word" where
  "ulong_of neg ds = (let n = digits_val ds in
     if n \<ge> 2 ^ 64 then - 1 else if neg then - of_int n else of_int n)"

text \<open>\<open>fscanf(statf, "%lu", &x)\<close>: what is stored, if anything, and the rest of the file.\<close>

definition scan_lu :: "string \<Rightarrow> 64 word option \<times> string" where
  "scan_lu s = (let s1 = dropWhile is_space s;
       signed = (s1 \<noteq> [] \<and> (hd s1 = CHR ''-'' \<or> hd s1 = CHR ''+''));
       s2 = (if signed then tl s1 else s1);
       ds = takeWhile is_digit s2
     in if ds = [] then (None, s2)
        else (Some (ulong_of (signed \<and> hd s1 = CHR ''-'') ds), dropWhile is_digit s2))"

definition FIELDS_TO_IGNORE :: nat where "FIELDS_TO_IGNORE = 13"

definition scan_times :: "string \<Rightarrow> 64 word option \<times> 64 word option" where
  "scan_times txt = (let (u, r) = scan_lu ((scan_word ^^ FIELDS_TO_IGNORE) txt); (v, r) = scan_lu r in (u, v))"

section \<open>The state\<close>

definition dine_left_chop :: "nat \<Rightarrow> nat" where
  "dine_left_chop i = i"

definition dine_right_chop :: "nat \<Rightarrow> nat" where
  "dine_right_chop i = (if i = 0 then NUM_PHILS - 1 else i - 1)"

text \<open>The neighbours, the other way round than in \<open>pthreads_dp\<close>; the program does not use them.\<close>

definition dine_left_phil :: "nat \<Rightarrow> nat" where
  "dine_left_phil i = (if i = 0 then NUM_PHILS - 1 else i - 1)"

definition dine_right_phil :: "nat \<Rightarrow> nat" where
  "dine_right_phil i = (if i = NUM_PHILS - 1 then 0 else i + 1)"

datatype dine_pc = DNew | DTid | DLoop | DThink | DLeft | DRight | DEat | DPutRight | DPutLeft | DGone

datatype dine_boss = MCreate nat | MStall nat | MSleep | MCheck | MPrint | MStop | MUnlock nat
  | MJoin nat | MEnd

record dine =
  dpcs :: "dine_pc list"
  tids :: "int list"
  forks :: "nat option list"
  stop_flag :: bool
  user_progress :: "64 word list"
  user_time :: "64 word list"
  sys_progress :: "64 word list"
  sys_time :: "64 word list"
  dboss :: dine_boss
  dscreen :: "string list"

definition dine_set_table :: dine where
  "dine_set_table = \<lparr>dpcs = replicate NUM_PHILS DNew, tids = replicate NUM_PHILS (- 1),
     forks = replicate NUM_PHILS None, stop_flag = False,
     user_progress = replicate NUM_PHILS 0, user_time = replicate NUM_PHILS 0,
     sys_progress = replicate NUM_PHILS 0, sys_time = replicate NUM_PHILS 0,
     dboss = MCreate 0, dscreen = []\<rparr>"

section \<open>The deadlock check\<close>

definition stat_file :: "int \<Rightarrow> string" where
  "stat_file tid = ''/proc/self/task/'' @ show_int tid @ ''/stat''"

text \<open>
  One round of the loop. The variables for the new times keep their contents when a number is
  missing in the file; to use them while they are uninitialised, or a file that could not be
  opened, is undefined (\<open>None\<close>).
\<close>

record check_vars =
  cdeadlock :: bool
  new_user :: "64 word option"
  new_sys :: "64 word option"

definition check_diner :: "(string \<Rightarrow> string option) \<Rightarrow> nat \<Rightarrow> check_vars \<times> dine \<Rightarrow> (check_vars \<times> dine) option" where
  "check_diner fs i = (\<lambda>(v, s). case fs (stat_file (tids s ! i)) of None \<Rightarrow> None
     | Some txt \<Rightarrow> (let (u, y) = scan_times txt;
         nu = (case u of None \<Rightarrow> new_user v | Some _ \<Rightarrow> u);
         ny = (case y of None \<Rightarrow> new_sys v | Some _ \<Rightarrow> y)
       in case (nu, ny) of (Some a, Some b) \<Rightarrow>
         let up = a - user_time s ! i; sp = b - sys_time s ! i in
         Some (\<lparr>cdeadlock = (if up > 0 \<or> sp > 0 then False else cdeadlock v), new_user = nu, new_sys = ny\<rparr>,
           s\<lparr>user_progress := (user_progress s)[i := up], user_time := (user_time s)[i := a],
             sys_progress := (sys_progress s)[i := sp], sys_time := (sys_time s)[i := b]\<rparr>)
       | _ \<Rightarrow> None))"

definition check_for_deadlock :: "(string \<Rightarrow> string option) \<Rightarrow> dine \<Rightarrow> (bool \<times> dine) option" where
  "check_for_deadlock fs s = map_option (\<lambda>(v, s). (cdeadlock v, s))
     (foldl (\<lambda>r i. Option.bind r (check_diner fs i))
       (Some (\<lparr>cdeadlock = True, new_user = None, new_sys = None\<rparr>, s)) [0..<NUM_PHILS])"

definition time_cell :: "64 word \<times> 64 word \<Rightarrow> string" where
  "time_cell p = (let buf = show_nat (unat (fst p)) @ '' / '' @ show_nat (unat (snd p)) in
     if length buf < 8 then buf @ [CHR 0x09, CHR 0x09] else buf @ [CHR 0x09])"

definition dine_print_progress :: "dine \<Rightarrow> string" where
  "dine_print_progress s =
     [CHR 0x0A] @ ''User time:'' @ [CHR 0x09] @ concat (map time_cell (zip (user_progress s) (user_time s)))
   @ [CHR 0x0A] @ ''System time:'' @ [CHR 0x09] @ concat (map time_cell (zip (sys_progress s) (sys_time s)))
   @ [CHR 0x0A]"

section \<open>The threads\<close>

definition dine_goto :: "nat \<Rightarrow> dine_pc \<Rightarrow> dine \<Rightarrow> dine" where
  "dine_goto i pc s = s\<lparr>dpcs := (dpcs s)[i := pc]\<rparr>"

definition take_fork :: "nat \<Rightarrow> nat \<Rightarrow> dine \<Rightarrow> dine option" where
  "take_fork i c s = (if forks s ! c = None then Some (s\<lparr>forks := (forks s)[c := Some i]\<rparr>) else None)"

text \<open>The philosopher with \<open>DEADLOCK\<close> defined as 1; \<open>tid\<close> is what \<open>gettid\<close> returns.\<close>

definition dine_thread :: "int \<Rightarrow> nat \<Rightarrow> dine \<Rightarrow> dine option" where
  "dine_thread tid i s = (case dpcs s ! i of
     DNew \<Rightarrow> None
   | DTid \<Rightarrow> Some (dine_goto i DLoop (s\<lparr>tids := (tids s)[i := tid]\<rparr>))
   | DLoop \<Rightarrow> Some (dine_goto i (if \<not> stop_flag s then DThink else DGone) s)
   | DThink \<Rightarrow> Some (dine_goto i DLeft s)
   | DLeft \<Rightarrow> map_option (dine_goto i DRight) (take_fork i (dine_left_chop i) s)
   | DRight \<Rightarrow> map_option (dine_goto i DEat) (take_fork i (dine_right_chop i) s)
   | DEat \<Rightarrow> Some (dine_goto i DPutRight s)
   | DPutRight \<Rightarrow> Some (dine_goto i DPutLeft (s\<lparr>forks := (forks s)[dine_right_chop i := None]\<rparr>))
   | DPutLeft \<Rightarrow> Some (dine_goto i DLoop (s\<lparr>forks := (forks s)[dine_left_chop i := None]\<rparr>))
   | DGone \<Rightarrow> None)"

definition dine_main :: "(string \<Rightarrow> string option) \<Rightarrow> dine \<Rightarrow> dine option" where
  "dine_main fs s = (case dboss s of
     MCreate i \<Rightarrow> Some (if i < NUM_PHILS
       then s\<lparr>dpcs := (dpcs s)[i := DTid], dboss := MCreate (Suc i)\<rparr> else s\<lparr>dboss := MStall 0\<rparr>)
   | MStall i \<Rightarrow> Some (if i < NUM_PHILS
       then (if tids s ! i \<noteq> - 1 then s\<lparr>dboss := MStall (Suc i)\<rparr> else s) else s\<lparr>dboss := MSleep\<rparr>)
   | MSleep \<Rightarrow> Some (s\<lparr>dboss := MCheck\<rparr>)
   | MCheck \<Rightarrow> map_option (\<lambda>(deadlock, s). s\<lparr>dboss := (if deadlock then MStop else MPrint)\<rparr>)
       (check_for_deadlock fs s)
   | MPrint \<Rightarrow> Some (s\<lparr>dscreen := dscreen s @ [dine_print_progress s], dboss := MSleep\<rparr>)
   | MStop \<Rightarrow> Some (s\<lparr>stop_flag := True, dscreen := dscreen s @ [''Reached deadlock'' @ [CHR 0x0A]],
       dboss := MUnlock 0\<rparr>)
   | MUnlock i \<Rightarrow> Some (if i < NUM_PHILS
       then s\<lparr>forks := (forks s)[i := None], dboss := MUnlock (Suc i)\<rparr> else s\<lparr>dboss := MJoin 0\<rparr>)
   | MJoin i \<Rightarrow> (if i < NUM_PHILS then (if dpcs s ! i = DGone then Some (s\<lparr>dboss := MJoin (Suc i)\<rparr>) else None)
       else Some (s\<lparr>dboss := MEnd\<rparr>))
   | MEnd \<Rightarrow> None)"

text \<open>The kernel chooses thread identifiers and the contents of the files.\<close>

inductive dine_step :: "dine \<Rightarrow> dine \<Rightarrow> bool" where
  diner: "i < NUM_PHILS \<Longrightarrow> tid \<noteq> - 1 \<Longrightarrow> dine_thread tid i s = Some t \<Longrightarrow> dine_step s t"
| boss: "dine_main fs s = Some t \<Longrightarrow> dine_step s t"

definition dine_start :: "dine \<Rightarrow> bool" where
  "dine_start s \<longleftrightarrow> s = dine_set_table"

section \<open>The invariant\<close>

definition settled :: "dine_boss \<Rightarrow> nat" where
  "settled b = (case b of MCreate _ \<Rightarrow> 0 | MStall i \<Rightarrow> i | _ \<Rightarrow> NUM_PHILS)"

definition stopping :: "dine_boss \<Rightarrow> bool" where
  "stopping b = (case b of MUnlock _ \<Rightarrow> True | MJoin _ \<Rightarrow> True | MEnd \<Rightarrow> True | _ \<Rightarrow> False)"

definition created :: "dine_boss \<Rightarrow> nat" where
  "created b = (case b of MCreate k \<Rightarrow> k | _ \<Rightarrow> NUM_PHILS)"

definition diner_ok :: "dine \<Rightarrow> nat \<Rightarrow> dine_pc \<Rightarrow> int \<Rightarrow> bool" where
  "diner_ok s j pc tid \<longleftrightarrow> (tid = - 1) = (pc \<in> {DNew, DTid}) \<and> (pc = DGone \<longrightarrow> stop_flag s)
     \<and> (j < settled (dboss s) \<longrightarrow> tid \<noteq> - 1) \<and> (created (dboss s) \<le> j \<longrightarrow> pc = DNew)"

definition dine_inv :: "dine \<Rightarrow> bool" where
  "dine_inv s \<longleftrightarrow> length (dpcs s) = NUM_PHILS \<and> length (tids s) = NUM_PHILS
     \<and> length (user_progress s) = NUM_PHILS \<and> length (user_time s) = NUM_PHILS
     \<and> length (sys_progress s) = NUM_PHILS \<and> length (sys_time s) = NUM_PHILS
     \<and> stop_flag s = stopping (dboss s)
     \<and> (\<forall>j<NUM_PHILS. diner_ok s j (dpcs s ! j) (tids s ! j))"

lemma dine_inv_start: "dine_start s \<Longrightarrow> dine_inv s"
  by (simp add: dine_start_def dine_set_table_def dine_inv_def diner_ok_def created_def
      settled_def stopping_def)

lemma dine_thread_inv:
  assumes inv: "dine_inv s" and i: "i < NUM_PHILS" and tid: "tid \<noteq> - 1" and step: "dine_thread tid i s = Some t"
  shows "dine_inv t"
proof -
  have same: "dboss t = dboss s" "stop_flag t = stop_flag s" "length (dpcs t) = length (dpcs s)"
    "length (tids t) = length (tids s)" "user_progress t = user_progress s" "user_time t = user_time s"
    "sys_progress t = sys_progress s" "sys_time t = sys_time s"
    using step by (auto simp: dine_thread_def dine_goto_def take_fork_def split: dine_pc.splits if_splits)
  have n: "length (dpcs s) = NUM_PHILS" "length (tids s) = NUM_PHILS" using inv by (simp_all add: dine_inv_def)
  have others: "dpcs t ! j = dpcs s ! j" "tids t ! j = tids s ! j" if "j \<noteq> i" for j
    using step that by (auto simp: dine_thread_def dine_goto_def take_fork_def split: dine_pc.splits if_splits)
  have pc: "dpcs s ! i \<noteq> DNew" using step by (auto simp: dine_thread_def)
  have ok: "diner_ok s i (dpcs s ! i) (tids s ! i)" using inv i by (simp add: dine_inv_def)
  have me: "diner_ok s i (dpcs t ! i) (tids t ! i)"
    using step tid n i ok
    by (cases "dpcs s ! i") (auto simp: diner_ok_def dine_thread_def dine_goto_def take_fork_def split: if_splits)
  have ok_t: "diner_ok t = diner_ok s" by (intro ext) (simp add: diner_ok_def same)
  have "diner_ok s j (dpcs t ! j) (tids t ! j)" if "j < NUM_PHILS" for j
    using me others[of j] inv that by (cases "j = i") (simp_all add: dine_inv_def)
  then show ?thesis using inv by (simp add: dine_inv_def same ok_t)
qed

section \<open>What the check computes\<close>

text \<open>
  A \<open>stat\<close> file: thirteen fields without white space, then the user and the system time.\<close>

definition stat_text :: "nat \<Rightarrow> nat \<Rightarrow> string \<Rightarrow> bool" where
  "stat_text u y txt \<longleftrightarrow> u < 2 ^ 64 \<and> y < 2 ^ 64 \<and> (\<exists>ws rest. length ws = 13
     \<and> (\<forall>w\<in>set ws. w \<noteq> [] \<and> (\<forall>c\<in>set w. \<not> is_space c))
     \<and> txt = concat (map (\<lambda>w. w @ '' '') ws) @ show_nat u @ '' '' @ show_nat y @ '' '' @ rest)"

lemma space_blank [simp]: "is_space CHR '' ''" "\<not> is_digit CHR '' ''"
  by (simp_all add: is_space_def is_digit_def)

lemma drop_word:
  "w \<noteq> [] \<Longrightarrow> \<forall>c\<in>set w. \<not> is_space c \<Longrightarrow> dropWhile is_space (w @ r) = w @ r"
  by (cases w) auto

lemma scan_word_append:
  assumes "w \<noteq> []" "\<forall>c\<in>set w. \<not> is_space c"
  shows "scan_word (w @ CHR '' '' # r) = CHR '' '' # r" "scan_word (CHR '' '' # w @ CHR '' '' # r) = CHR '' '' # r"
  using assms by (simp_all add: scan_word_def drop_word[OF assms] dropWhile_append2)

lemma scan_words:
  assumes "\<forall>w\<in>set ws. w \<noteq> [] \<and> (\<forall>c\<in>set w. \<not> is_space c)" "ws \<noteq> []"
  shows "(scan_word ^^ length ws) (concat (map (\<lambda>w. w @ '' '') ws) @ r) = CHR '' '' # r
    \<and> (scan_word ^^ length ws) (CHR '' '' # concat (map (\<lambda>w. w @ '' '') ws) @ r) = CHR '' '' # r"
  using assms
proof (induction ws)
  case (Cons w ws)
  then show ?case
    by (cases "ws = []") (simp_all add: funpow_Suc_right scan_word_append del: funpow.simps)
qed simp

lemma ulong_of_show: "u < 2 ^ 64 \<Longrightarrow> ulong_of False (show_nat u) = of_nat u"
  by (simp add: ulong_of_def digits_val_show)

lemma take_show: "takeWhile is_digit (show_nat u @ CHR '' '' # r) = show_nat u"
  "dropWhile is_digit (show_nat u @ CHR '' '' # r) = CHR '' '' # r"
  using show_nat_digits[of _ u] by (simp_all add: takeWhile_append2 dropWhile_append2)

lemma scan_lu_show:
  assumes "u < 2 ^ 64"
  shows "scan_lu (CHR '' '' # show_nat u @ CHR '' '' # r) = (Some (of_nat u), CHR '' '' # r)"
proof -
  obtain c cs where c: "show_nat u = c # cs" "is_digit c"
    using show_nat_digits[of _ u] show_nat_nonempty[of u] by (cases "show_nat u") auto
  then have "dropWhile is_space (show_nat u @ CHR '' '' # r) = show_nat u @ CHR '' '' # r"
    "hd (show_nat u @ CHR '' '' # r) \<noteq> CHR ''-''" "hd (show_nat u @ CHR '' '' # r) \<noteq> CHR ''+''"
    by (auto simp: digit_not_space is_digit_def)
  then show ?thesis
    by (simp add: scan_lu_def Let_def take_show ulong_of_show[OF assms])
qed

lemma scan_times_stat:
  assumes "stat_text u y txt"
  shows "scan_times txt = (Some (of_nat u), Some (of_nat y))"
proof -
  obtain ws rest where ws: "length ws = 13" "\<forall>w\<in>set ws. w \<noteq> [] \<and> (\<forall>c\<in>set w. \<not> is_space c)"
    "txt = concat (map (\<lambda>w. w @ '' '') ws) @ show_nat u @ '' '' @ show_nat y @ '' '' @ rest"
    "u < 2 ^ 64" "y < 2 ^ 64"
    using assms by (auto simp: stat_text_def)
  then have "(scan_word ^^ FIELDS_TO_IGNORE) txt = CHR '' '' # show_nat u @ '' '' @ show_nat y @ '' '' @ rest"
    using scan_words[OF ws(2)] ws(1,3) by (cases "ws = []") (simp_all add: FIELDS_TO_IGNORE_def)
  then show ?thesis using scan_lu_show[OF ws(4)] scan_lu_show[OF ws(5)] by (simp add: scan_times_def)
qed

text \<open>The state after the first \<open>n\<close> rounds.\<close>

definition timed :: "(nat \<Rightarrow> nat) \<Rightarrow> (nat \<Rightarrow> nat) \<Rightarrow> nat \<Rightarrow> dine \<Rightarrow> dine" where
  "timed ut st n s = s\<lparr>
     user_progress := map (\<lambda>i. if i < n then of_nat (ut i) - user_time s ! i else user_progress s ! i) [0..<NUM_PHILS],
     user_time := map (\<lambda>i. if i < n then of_nat (ut i) else user_time s ! i) [0..<NUM_PHILS],
     sys_progress := map (\<lambda>i. if i < n then of_nat (st i) - sys_time s ! i else sys_progress s ! i) [0..<NUM_PHILS],
     sys_time := map (\<lambda>i. if i < n then of_nat (st i) else sys_time s ! i) [0..<NUM_PHILS]\<rparr>"

definition no_progress :: "(nat \<Rightarrow> nat) \<Rightarrow> (nat \<Rightarrow> nat) \<Rightarrow> nat \<Rightarrow> dine \<Rightarrow> bool" where
  "no_progress ut st n s \<longleftrightarrow> (\<forall>i<n. of_nat (ut i) = user_time s ! i \<and> of_nat (st i) = sys_time s ! i)"

lemma map_upt_update:
  "n < N \<Longrightarrow> (map (\<lambda>i. if i < n then f i else g i) [0..<N])[n := f n] = map (\<lambda>i. if i < Suc n then f i else g i) [0..<N]"
  by (rule nth_equalityI) (auto simp: nth_list_update less_Suc_eq)

lemma timed_Suc:
  assumes "n < NUM_PHILS"
  shows "(timed ut st n s)\<lparr>
      user_progress := (user_progress (timed ut st n s))[n := of_nat (ut n) - user_time s ! n],
      user_time := (user_time (timed ut st n s))[n := of_nat (ut n)],
      sys_progress := (sys_progress (timed ut st n s))[n := of_nat (st n) - sys_time s ! n],
      sys_time := (sys_time (timed ut st n s))[n := of_nat (st n)]\<rparr> = timed ut st (Suc n) s"
  using map_upt_update[OF assms, of "\<lambda>i. of_nat (ut i) - user_time s ! i" "(!) (user_progress s)"]
    map_upt_update[OF assms, of "\<lambda>i. of_nat (ut i)" "(!) (user_time s)"]
    map_upt_update[OF assms, of "\<lambda>i. of_nat (st i) - sys_time s ! i" "(!) (sys_progress s)"]
    map_upt_update[OF assms, of "\<lambda>i. of_nat (st i)" "(!) (sys_time s)"]
  by (simp add: timed_def)

lemma timed_simps:
  "tids (timed ut st n s) = tids s"
  "n < NUM_PHILS \<Longrightarrow> user_time (timed ut st n s) ! n = user_time s ! n"
  "n < NUM_PHILS \<Longrightarrow> sys_time (timed ut st n s) ! n = sys_time s ! n"
  by (simp_all add: timed_def)

lemma no_progress_Suc: "no_progress ut st (Suc n) s \<longleftrightarrow> no_progress ut st n s
    \<and> of_nat (ut n) = user_time s ! n \<and> of_nat (st n) = sys_time s ! n"
  by (auto simp: no_progress_def less_Suc_eq)

lemma check_loop:
  assumes n: "n \<le> NUM_PHILS" and inv: "dine_inv s"
    and files: "\<And>i. i < NUM_PHILS \<Longrightarrow> \<exists>txt. fs (stat_file (tids s ! i)) = Some txt \<and> stat_text (ut i) (st i) txt"
  shows "\<exists>v. foldl (\<lambda>r i. Option.bind r (check_diner fs i))
      (Some (\<lparr>cdeadlock = True, new_user = None, new_sys = None\<rparr>, s)) [0..<n] = Some (v, timed ut st n s)
    \<and> cdeadlock v = no_progress ut st n s"
  using n
proof (induction n)
  case 0
  have "map ((!) xs) [0..<NUM_PHILS] = xs" if "length xs = NUM_PHILS" for xs :: "64 word list"
    using map_nth[of xs] that by simp
  then have "timed ut st 0 s = s"
    using inv by (simp add: timed_def dine_inv_def)
  then show ?case by (simp add: no_progress_def)
next
  case (Suc n)
  then have n: "n < NUM_PHILS" "n \<le> NUM_PHILS" by simp_all
  obtain v where v: "foldl (\<lambda>r i. Option.bind r (check_diner fs i))
      (Some (\<lparr>cdeadlock = True, new_user = None, new_sys = None\<rparr>, s)) [0..<n] = Some (v, timed ut st n s)"
    "cdeadlock v = no_progress ut st n s"
    using Suc.IH[OF n(2)] by blast
  obtain data where data: "fs (stat_file (tids s ! n)) = Some data" "scan_times data = (Some (of_nat (ut n)), Some (of_nat (st n)))"
    using files[OF n(1)] scan_times_stat by blast
  have "\<exists>v'. check_diner fs n (v, timed ut st n s) = Some (v', timed ut st (Suc n) s)
    \<and> cdeadlock v' = no_progress ut st (Suc n) s"
    using v(2) data
    by (auto simp: check_diner_def timed_simps(2,3)[OF n(1)] timed_simps(1) Let_def timed_Suc[OF n(1)]
        no_progress_Suc word_gt_0)
  then show ?case using v(1) by simp
qed

lemma check_for_deadlock_exact:
  assumes "dine_inv s"
    and "\<And>i. i < NUM_PHILS \<Longrightarrow> \<exists>txt. fs (stat_file (tids s ! i)) = Some txt \<and> stat_text (ut i) (st i) txt"
  shows "check_for_deadlock fs s = Some (no_progress ut st NUM_PHILS s, timed ut st NUM_PHILS s)"
  using check_loop[where n = NUM_PHILS and fs = fs and s = s and ut = ut and st = st] assms
  by (auto simp: check_for_deadlock_def)

section \<open>Every step keeps the invariant\<close>

lemma check_diner_same:
  assumes "check_diner fs i (v, s) = Some (v', t)"
  shows "dpcs t = dpcs s \<and> tids t = tids s \<and> stop_flag t = stop_flag s \<and> dboss t = dboss s
    \<and> length (user_progress t) = length (user_progress s) \<and> length (user_time t) = length (user_time s)
    \<and> length (sys_progress t) = length (sys_progress s) \<and> length (sys_time t) = length (sys_time s)"
  using assms by (auto simp: check_diner_def Let_def split: option.splits prod.splits)

lemma check_fold_same:
  "foldl (\<lambda>r i. Option.bind r (check_diner fs i)) (Some (v, s)) ns = Some (v', t)
   \<Longrightarrow> dpcs t = dpcs s \<and> tids t = tids s \<and> stop_flag t = stop_flag s \<and> dboss t = dboss s
    \<and> length (user_progress t) = length (user_progress s) \<and> length (user_time t) = length (user_time s)
    \<and> length (sys_progress t) = length (sys_progress s) \<and> length (sys_time t) = length (sys_time s)"
proof (induction ns arbitrary: v' t rule: rev_induct)
  case (snoc n ns)
  then obtain v1 t1 where "foldl (\<lambda>r i. Option.bind r (check_diner fs i)) (Some (v, s)) ns = Some (v1, t1)"
    "check_diner fs n (v1, t1) = Some (v', t)"
    by (auto simp: bind_eq_Some_conv)
  then show ?case using snoc.IH check_diner_same by force
qed simp

lemma dine_main_inv:
  assumes inv: "dine_inv s" and step: "dine_main fs s = Some t"
  shows "dine_inv t"
proof (cases "dboss s")
  case (MCreate k)
  show ?thesis
  proof (cases "k < NUM_PHILS")
    case True
    have t: "t = s\<lparr>dpcs := (dpcs s)[k := DTid], dboss := MCreate (Suc k)\<rparr>"
      using step MCreate True by (simp add: dine_main_def)
    have "diner_ok t j (dpcs t ! j) (tids t ! j)" if j: "j < NUM_PHILS" for j
    proof -
      have "diner_ok s j (dpcs s ! j) (tids s ! j)" using inv j by (simp add: dine_inv_def)
      then show ?thesis using inv MCreate True j unfolding t
        by (cases "j = k") (auto simp: dine_inv_def diner_ok_def created_def settled_def)
    qed
    then show ?thesis using inv MCreate by (simp add: dine_inv_def t stopping_def)
  next
    case False
    then have "t = s\<lparr>dboss := MStall 0\<rparr>" using step MCreate by (simp add: dine_main_def)
    then show ?thesis
      using inv MCreate False by (auto simp: dine_inv_def diner_ok_def created_def settled_def stopping_def)
  qed
next
  case MCheck
  then obtain v w u where "foldl (\<lambda>r i. Option.bind r (check_diner fs i)) (Some (v, s)) [0..<NUM_PHILS] = Some (w, u)"
    and t: "t = u\<lparr>dboss := (if cdeadlock w then MStop else MPrint)\<rparr>"
    using step by (auto simp: dine_main_def check_for_deadlock_def)
  from check_fold_same[OF this(1)] show ?thesis
    using inv MCheck by (auto simp: dine_inv_def diner_ok_def created_def settled_def stopping_def t)
next
  case (MStall k)
  have "diner_ok t j (dpcs t ! j) (tids t ! j)" if j: "j < NUM_PHILS" for j
  proof -
    have "diner_ok s j (dpcs s ! j) (tids s ! j)" using inv j by (simp add: dine_inv_def)
    then show ?thesis using step MStall j
      by (auto simp: dine_main_def diner_ok_def created_def settled_def less_Suc_eq split: if_splits)
  qed
  then show ?thesis using inv step MStall
    by (auto simp: dine_inv_def dine_main_def stopping_def split: if_splits)
qed (use inv step in \<open>auto simp: dine_inv_def dine_main_def diner_ok_def created_def settled_def
    stopping_def split: if_splits\<close>)

interpretation dine_run: inductive_invariant dine_start dine_step dine_inv
  by unfold_locales (rule dine_inv_start, assumption,
    erule dine_step.cases, auto intro: dine_thread_inv dine_main_inv)

section \<open>Properties\<close>

text \<open>
  C33. Whenever \<open>main\<close> of \<open>dine.c\<close> looks for a deadlock, every philosopher has announced his thread
  and none has ended, so that the \<open>stat\<close> files exist; with files as \<open>proc(5)\<close> describes them (a
  command name without white space) the check reads the user and system time of each thread,
  reports deadlock exactly when no time has changed since the last check, and remembers the times.\<close>

theorem dine_check_exact:
  assumes "reachable dine_start dine_step s" "dboss s = MCheck"
    and "\<And>i. \<lbrakk> i < NUM_PHILS; dpcs s ! i \<notin> {DNew, DTid, DGone}; tids s ! i \<noteq> - 1 \<rbrakk>
      \<Longrightarrow> \<exists>txt. fs (stat_file (tids s ! i)) = Some txt \<and> stat_text (ut i) (st i) txt"
  shows "check_for_deadlock fs s = Some (no_progress ut st NUM_PHILS s, timed ut st NUM_PHILS s)"
proof (rule check_for_deadlock_exact)
  show inv: "dine_inv s" using dine_run.inv_reachable[OF assms(1)] .
  fix i assume "i < NUM_PHILS"
  then show "\<exists>txt. fs (stat_file (tids s ! i)) = Some txt \<and> stat_text (ut i) (st i) txt"
    using inv assms(2,3) by (auto simp: dine_inv_def diner_ok_def settled_def stopping_def)
qed

text \<open>A run to the first check: \<open>main\<close> creates the threads, they announce themselves, \<open>main\<close> goes on.\<close>

fun dine_acts :: "(dine \<Rightarrow> dine option) list \<Rightarrow> dine \<Rightarrow> dine option" where
  "dine_acts [] s = Some s"
| "dine_acts (a # as) s = Option.bind (a s) (dine_acts as)"

definition first_check :: dine where
  "first_check = dine_set_table\<lparr>dpcs := replicate NUM_PHILS DLoop, tids := [101, 102, 103, 104, 105],
     dboss := MCheck\<rparr>"

lemma acts_reachable:
  "dine_acts as s = Some t \<Longrightarrow> \<forall>a\<in>set as. \<forall>s t. a s = Some t \<longrightarrow> dine_step s t
    \<Longrightarrow> reachable dine_start dine_step s \<Longrightarrow> reachable dine_start dine_step t"
proof (induction as arbitrary: s)
  case (Cons a as)
  then obtain u where "a s = Some u" "dine_acts as u = Some t" by (auto simp: bind_eq_Some_conv)
  moreover from this Cons.prems have "reachable dine_start dine_step u"
    using reachable.step[of dine_start dine_step s u] by simp
  ultimately show ?case using Cons.IH[of u] Cons.prems(2) by simp
qed simp

lemma first_check_reachable: "reachable dine_start dine_step first_check"
proof (rule acts_reachable)
  let ?as = "replicate 6 (dine_main Map.empty) @ map (\<lambda>i. dine_thread (101 + int i) i) [0, 1, 2, 3, 4]
    @ replicate 7 (dine_main Map.empty)"
  show "dine_acts ?as dine_set_table = Some first_check"
    by (simp add: first_check_def dine_set_table_def dine_main_def dine_thread_def dine_goto_def
        NUM_PHILS_def nat_literals)
  show "\<forall>a\<in>set ?as. \<forall>s t. a s = Some t \<longrightarrow> dine_step s t"
    by (auto simp: NUM_PHILS_def intro: dine_step.diner[rotated 2] dine_step.boss)
qed (simp add: reachable.start dine_start_def)

theorem dine_check_exact_witness:
  "\<exists>t. check_for_deadlock (\<lambda>_. Some ''1 (dine) S 1 1 1 0 -1 64 0 0 0 0 7 2 0'') first_check = Some (False, t)
    \<and> user_time t = replicate NUM_PHILS 7"
proof -
  have "stat_text 7 2 ''1 (dine) S 1 1 1 0 -1 64 0 0 0 0 7 2 0''"
    unfolding stat_text_def
    by (intro conjI exI[of _ "[''1'', ''(dine)'', ''S'', ''1'', ''1'', ''1'', ''0'', ''-1'', ''64'', ''0'', ''0'', ''0'', ''0'']"]
        exI[of _ "''0''"]) (simp_all add: is_space_def)
  then have "check_for_deadlock (\<lambda>_. Some ''1 (dine) S 1 1 1 0 -1 64 0 0 0 0 7 2 0'') first_check
    = Some (no_progress (\<lambda>_. 7) (\<lambda>_. 2) NUM_PHILS first_check, timed (\<lambda>_. 7) (\<lambda>_. 2) NUM_PHILS first_check)"
    by (intro dine_check_exact first_check_reachable) (simp_all add: first_check_def)
  moreover have "\<not> no_progress (\<lambda>_. 7) (\<lambda>_. 2) NUM_PHILS first_check"
    unfolding no_progress_def less_5 by (simp add: first_check_def dine_set_table_def NUM_PHILS_def)
  moreover have "user_time (timed (\<lambda>_. 7) (\<lambda>_. 2) NUM_PHILS first_check) = replicate NUM_PHILS 7"
    by (simp add: timed_def NUM_PHILS_def upt_rec nat_literals)
  ultimately show ?thesis by simp
qed

end
