(* ===== verification/Command.thy ===== *)
theory Command
  imports Prelude
begin

unbundle bit_operations_syntax

text \<open>
  The commands of the shell (\<open>quash/src/command.c\<close>): the tagged union with its constructors, the
  holder with the flags of redirections, pipes and background, and the debug printer. A \<open>NULL\<close>
  terminated array of strings is a list; a \<open>char*\<close> that may be \<open>NULL\<close> is an option.
\<close>

section \<open>Data\<close>

datatype CommandType = EOC | GENERIC | ECHO | EXPORT | KILL | CD | PWD | JOBS | EXIT

datatype command = Generic "string list" | Echo "string list" | Export string string
  | Cd "string option" | Kill int int string string | Pwd | Jobs | Exit | Eoc

definition REDIRECT_IN :: "8 word" where "REDIRECT_IN = 0x01"
definition REDIRECT_OUT :: "8 word" where "REDIRECT_OUT = 0x04"
definition REDIRECT_APPEND :: "8 word" where "REDIRECT_APPEND = 0x08"
definition PIPE_IN :: "8 word" where "PIPE_IN = 0x10"
definition PIPE_OUT :: "8 word" where "PIPE_OUT = 0x20"
definition BACKGROUND :: "8 word" where "BACKGROUND = 0x40"

lemmas flag_defs = REDIRECT_IN_def REDIRECT_OUT_def REDIRECT_APPEND_def PIPE_IN_def PIPE_OUT_def BACKGROUND_def

record command_holder =
  redirect_in :: "string option"
  redirect_out :: "string option"
  flags :: "8 word"
  cmd :: command

definition has_flag :: "command_holder \<Rightarrow> 8 word \<Rightarrow> bool" where
  "has_flag h f \<longleftrightarrow> flags h AND f \<noteq> 0"

section \<open>Constructors\<close>

definition mk_command_holder :: "string option \<Rightarrow> string option \<Rightarrow> 8 word \<Rightarrow> command \<Rightarrow> command_holder" where
  "mk_command_holder i out f c = \<lparr>redirect_in = i, redirect_out = out, flags = f, cmd = c\<rparr>"

definition mk_generic_command :: "string list \<Rightarrow> command" where
  "mk_generic_command args = Generic args"

definition mk_echo_command :: "string list \<Rightarrow> command" where
  "mk_echo_command strs = Echo strs"

definition mk_export_command :: "string \<Rightarrow> string \<Rightarrow> command" where
  "mk_export_command env_var val = Export env_var val"

definition mk_cd_command :: "string option \<Rightarrow> command" where
  "mk_cd_command dir = Cd dir"

definition mk_kill_command :: "string \<Rightarrow> string \<Rightarrow> command" where
  "mk_kill_command sig job = Kill (strtol_int sig) (strtol_int job) sig job"

definition mk_pwd_command :: command where "mk_pwd_command = Pwd"
definition mk_jobs_command :: command where "mk_jobs_command = Jobs"
definition mk_exit_command :: command where "mk_exit_command = Exit"
definition mk_eoc :: command where "mk_eoc = Eoc"

fun get_command_type :: "command \<Rightarrow> CommandType" where
  "get_command_type (Generic _) = GENERIC"
| "get_command_type (Echo _) = ECHO"
| "get_command_type (Export _ _) = EXPORT"
| "get_command_type (Cd _) = CD"
| "get_command_type (Kill _ _ _ _) = KILL"
| "get_command_type Pwd = PWD"
| "get_command_type Jobs = JOBS"
| "get_command_type Exit = EXIT"
| "get_command_type Eoc = EOC"

definition get_command_holder_type :: "command_holder \<Rightarrow> CommandType" where
  "get_command_holder_type h = get_command_type (cmd h)"

lemma command_type_iff [simp]:
  "get_command_type c = EOC \<longleftrightarrow> c = Eoc" "get_command_type c = EXIT \<longleftrightarrow> c = Exit"
  by (cases c; simp)+

section \<open>The debug printer\<close>

text \<open>What \<open>printf\<close> of the C library writes for \<open>%s\<close> with \<open>NULL\<close>, and for \<open>%02x\<close> below 256.\<close>

definition show_str :: "string option \<Rightarrow> string" where
  "show_str s = (case s of None \<Rightarrow> ''(null)'' | Some s \<Rightarrow> s)"

definition hex_char :: "nat \<Rightarrow> char" where
  "hex_char d = (if d < 10 then digit_char d else char_of (87 + d))"

definition show_hex2 :: "8 word \<Rightarrow> string" where
  "show_hex2 w = [hex_char (unat w div 16), hex_char (unat w mod 16)]"

definition print_generic_cmd :: "string list \<Rightarrow> string" where
  "print_generic_cmd args = concat (map (\<lambda>a. ''['' @ a @ ''] '') args)"

definition print_echo_cmd :: string where "print_echo_cmd = ''%ECHO%''"

definition print_export_cmd :: "string \<Rightarrow> string \<Rightarrow> string" where
  "print_export_cmd env_var val = ''%EXPORT% [VAR: '' @ env_var @ ''] [VAL: '' @ val @ '']''"

definition print_cd_cmd :: "string option \<Rightarrow> string" where
  "print_cd_cmd dir = ''%CD% [DIR: '' @ show_str dir @ '']''"

definition print_kill_cmd :: "int \<Rightarrow> int \<Rightarrow> string" where
  "print_kill_cmd sig job = ''%KILL% [JOB: '' @ show_int sig @ ''] [SIG: '' @ show_int job @ '']''"

definition print_simple_cmd :: "string \<Rightarrow> string" where
  "print_simple_cmd str = ''%'' @ str @ ''%''"

fun print_command :: "command \<Rightarrow> string" where
  "print_command (Generic args) = print_generic_cmd args"
| "print_command (Echo _) = print_echo_cmd"
| "print_command (Export v x) = print_export_cmd v x"
| "print_command (Cd d) = print_cd_cmd d"
| "print_command (Kill sig job _ _) = print_kill_cmd sig job"
| "print_command Pwd = print_simple_cmd ''PWD''"
| "print_command Jobs = print_simple_cmd ''JOBS''"
| "print_command Exit = print_simple_cmd ''EXIT''"
| "print_command Eoc = ''--- EOC ---''"

definition print_command_holder :: "command_holder \<Rightarrow> string" where
  "print_command_holder h = ''{'' @ print_command (cmd h) @ ''<''
     @ (if has_flag h BACKGROUND then ''BG '' else ''FG '')
     @ (if has_flag h PIPE_IN then ''P_IN '' else '''')
     @ (if has_flag h PIPE_OUT then ''P_OUT '' else '''')
     @ (if has_flag h REDIRECT_IN then ''(R_IN: '' @ show_str (redirect_in h) @ '') '' else '''')
     @ (if has_flag h REDIRECT_APPEND then ''(R_APPEND: ''
        else if has_flag h REDIRECT_OUT then ''(R_OUT: '' else '''')
     @ (if has_flag h REDIRECT_OUT then show_str (redirect_out h) @ '') '' else '''')
     @ ''*0x'' @ show_hex2 (flags h) @ ''*'' @ ''>'' @ ''}''"

text \<open>The holders up to the first \<open>EOC\<close>, and that one; running past the array is undefined.\<close>

fun debug_print_script :: "command_holder list \<Rightarrow> string option" where
  "debug_print_script [] = None"
| "debug_print_script (h # hs) = (if get_command_holder_type h \<noteq> EOC
     then map_option ((@) (print_command_holder h @ [CHR 0x0A])) (debug_print_script hs)
     else Some (print_command_holder h @ [CHR 0x0A]))"

section \<open>Lemmas\<close>

lemma strtol_show:
  assumes "n < 2 ^ 63"
  shows "strtol (show_nat n) = int n"
proof -
  obtain c cs where c: "show_nat n = c # cs" "is_digit c"
    using show_nat_digits[of _ n] show_nat_nonempty[of n] by (cases "show_nat n") auto
  have "dropWhile is_space (show_nat n) = show_nat n" "hd (show_nat n) \<noteq> CHR ''-''" "hd (show_nat n) \<noteq> CHR ''+''"
    using c by (auto simp: digit_not_space is_digit_def)
  moreover have "takeWhile is_digit (show_nat n) = show_nat n"
    using show_nat_digits[of _ n] by simp
  ultimately show ?thesis
    using assms by (simp add: strtol_def Let_def digits_val_show del: takeWhile_eq_all_conv)
qed

lemma strtol_int_show: "n < 2 ^ 31 \<Longrightarrow> strtol_int (show_nat n) = int n"
  using sint_sbintrunc'[where 'a = 32, of "int n"]
  by (simp add: strtol_int_def strtol_show signed_take_bit_int_eq_self)

end
