(* ===== verification/ParseInterface.thy ===== *)
theory ParseInterface
  imports Command
begin

text \<open>
  The interface of the shell to its parser (\<open>quash/src/parsing/parsing_interface.c\<close>) and the actions
  of the grammar (\<open>parse.y\<close>). The automaton that \<open>bison\<close> generates and the lexer are parameters:
  they give the tree of productions of one input line. The string builders are deques, which are
  lists here.
\<close>

section \<open>Expansion of words\<close>

definition NUL :: char where "NUL = CHR 0x00"
definition BACKSLASH :: char where "BACKSLASH = CHR 0x5C"
definition QUOTE :: char where "QUOTE = CHR 0x27"

text \<open>\<open>str[i]\<close>, which is the terminator at the end.\<close>

definition char_at :: "string \<Rightarrow> nat \<Rightarrow> char" where
  "char_at s i = (if i < length s then s ! i else NUL)"

definition is_alpha :: "char \<Rightarrow> bool" where
  "is_alpha c = (let n = (of_char c :: nat) in 65 \<le> n \<and> n \<le> 90 \<or> 97 \<le> n \<and> n \<le> 122)"

definition is_first_identifier_char :: "char \<Rightarrow> bool" where
  "is_first_identifier_char c \<longleftrightarrow> is_alpha c \<or> c = CHR ''_''"

definition is_identifier_char :: "char \<Rightarrow> bool" where
  "is_identifier_char c \<longleftrightarrow> is_alpha c \<or> is_digit c \<or> c = CHR ''_''"

text \<open>The builder without its back, which is the dollar, and the value; the index of the last
  character of the identifier.\<close>

definition interpret_deref ::
  "(string \<Rightarrow> string option) \<Rightarrow> string \<Rightarrow> string \<Rightarrow> nat \<Rightarrow> string \<times> nat" where
  "interpret_deref env bld str idx =
     (let tmp = takeWhile is_identifier_char (drop (Suc idx) str);
          bld = butlast bld
      in (case env tmp of None \<Rightarrow> bld | Some env_var \<Rightarrow> bld @ env_var, idx + length tmp))"

definition update_last :: "string \<Rightarrow> char \<Rightarrow> string" where
  "update_last bld c = bld[length bld - 1 := c]"

definition escapable :: "char \<Rightarrow> bool" where
  "escapable c \<longleftrightarrow> c \<in> {BACKSLASH, QUOTE, CHR ''#'', CHR ''$'', CHR ''='', CHR ''&'', CHR ''|'',
     CHR '';'', CHR '' '', CHR 0x09}"

text \<open>One round of the loop: the new index, builder and state of the quotes.\<close>

definition interpret_char ::
  "(string \<Rightarrow> string option) \<Rightarrow> string \<Rightarrow> nat \<times> string \<times> bool \<Rightarrow> nat \<times> string \<times> bool" where
  "interpret_char env str = (\<lambda>(i, bld, in_quotes).
     let c = char_at str i; n = char_at str (i + 1); bld = bld @ [c] in
     if c = BACKSLASH then
       (if \<not> in_quotes then
          (if escapable n then (i + 2, update_last bld n, in_quotes)
           else if n = CHR 0x0A then (i + 2, butlast bld, in_quotes)
           else (i + 1, bld, in_quotes))
        else if n = QUOTE then (i + 2, update_last bld QUOTE, in_quotes)
        else (i + 1, bld, in_quotes))
     else if c = QUOTE then (i + 1, butlast bld, \<not> in_quotes)
     else if c = CHR ''$'' \<and> \<not> in_quotes \<and> is_first_identifier_char n then
       (let (bld, j) = interpret_deref env bld str i in (j + 1, bld, in_quotes))
     else (i + 1, bld, in_quotes))"

lemma interpret_char_advances: "i < fst (interpret_char env str (i, bld, q))"
  by (simp add: interpret_char_def interpret_deref_def Let_def)

function interpret_loop ::
  "(string \<Rightarrow> string option) \<Rightarrow> string \<Rightarrow> nat \<times> string \<times> bool \<Rightarrow> string \<times> bool" where
  "interpret_loop env str (i, bld, in_quotes) = (if i \<le> length str
     then interpret_loop env str (interpret_char env str (i, bld, in_quotes)) else (bld, in_quotes))"
  by pat_completeness auto
termination
proof (relation "measure (\<lambda>(env, str, i, bld, q). Suc (length str) - i)", simp_all add: case_prod_unfold)
  fix env str i bld in_quotes
  assume "i \<le> length (str :: string)"
  then show "Suc (length str) - fst (interpret_char env str (i, bld, in_quotes)) < Suc (length str) - i"
    using interpret_char_advances[of i env str bld in_quotes] by linarith
qed

declare interpret_loop.simps [simp del]

text \<open>The C string in the builder; \<open>None\<close> is the failure of \<open>assert(!in_quotes)\<close>.\<close>

definition interpret_complex_string_token :: "(string \<Rightarrow> string option) \<Rightarrow> string \<Rightarrow> string option" where
  "interpret_complex_string_token env str =
     (let (bld, in_quotes) = interpret_loop env str (0, [], False); bld = update_last bld NUL
      in if in_quotes then None else Some (takeWhile (\<lambda>c. c \<noteq> NUL) bld))"

section \<open>Commands as strings\<close>

text \<open>The words of a command; a \<open>NULL\<close> may be among them.\<close>

definition stringify_generic_cmd :: "string list \<Rightarrow> string option list" where
  "stringify_generic_cmd args = map Some args"

definition stringify_echo_cmd :: "string list \<Rightarrow> string option list" where
  "stringify_echo_cmd args = Some ''echo'' # map Some args"

definition stringify_export_cmd :: "string \<Rightarrow> string \<Rightarrow> string option list" where
  "stringify_export_cmd env_var val = [Some ''export'', Some env_var, Some val]"

definition stringify_cd_cmd :: "string option \<Rightarrow> string option list" where
  "stringify_cd_cmd dir = [Some ''cd'', dir]"

definition stringify_kill_cmd :: "string \<Rightarrow> string \<Rightarrow> string option list" where
  "stringify_kill_cmd sig_str job_str = [Some ''kill'', Some sig_str, Some job_str]"

definition stringify_simple_cmd :: "string \<Rightarrow> string option list" where
  "stringify_simple_cmd str = [Some str]"

fun stringify_command :: "command \<Rightarrow> string option list" where
  "stringify_command (Generic args) = stringify_generic_cmd args"
| "stringify_command (Echo args) = stringify_echo_cmd args"
| "stringify_command (Export v x) = stringify_export_cmd v x"
| "stringify_command (Cd dir) = stringify_cd_cmd dir"
| "stringify_command (Kill _ _ sig job) = stringify_kill_cmd sig job"
| "stringify_command Pwd = stringify_simple_cmd ''PWD''"
| "stringify_command Jobs = stringify_simple_cmd ''JOBS''"
| "stringify_command Exit = stringify_simple_cmd ''EXIT''"
| "stringify_command Eoc = []"

definition stringify_holder :: "command_holder \<Rightarrow> string option list" where
  "stringify_holder h = stringify_command (cmd h)
     @ (if has_flag h REDIRECT_IN then [Some ''<'', redirect_in h] else [])
     @ (if has_flag h REDIRECT_APPEND then [Some ''>>'']
        else if has_flag h REDIRECT_OUT then [Some ''>''] else [])
     @ (if has_flag h REDIRECT_OUT then [redirect_out h] else [])
     @ (if has_flag h PIPE_OUT then [Some ''|''] else [])"

definition stringify_script :: "command_holder list \<Rightarrow> string option list" where
  "stringify_script hs = concat (map stringify_holder (takeWhile (\<lambda>h. get_command_holder_type h \<noteq> EOC) hs))
     @ (if has_flag (hd hs) BACKGROUND then [Some ''&''] else []) @ [None]"

section \<open>Joining the words\<close>

text \<open>
  The words up to the first \<open>NULL\<close> are copied into one buffer, whose bytes are unknown at first.
  A write outside of the buffer is undefined.
\<close>

type_synonym buffer = "char option list"

definition strcpy :: "buffer \<Rightarrow> nat \<Rightarrow> string \<Rightarrow> buffer option" where
  "strcpy buf pos w = (if pos + length w + 1 \<le> length buf
     then Some (take pos buf @ map Some w @ [Some NUL] @ drop (pos + length w + 1) buf) else None)"

definition put_char :: "buffer \<Rightarrow> nat \<Rightarrow> char \<Rightarrow> buffer option" where
  "put_char buf i c = (if i < length buf then Some (buf[i := Some c]) else None)"

fun condense_loop :: "string list \<Rightarrow> nat list \<Rightarrow> buffer \<Rightarrow> nat \<Rightarrow> (buffer \<times> nat) option" where
  "condense_loop [] ss ret pos = Some (ret, pos)"
| "condense_loop (w # ws) ss ret pos = Option.bind (strcpy ret pos w) (\<lambda>ret.
     (case ss of [] \<Rightarrow> None
      | n # ss \<Rightarrow> (let pos = pos + n in
          Option.bind (put_char ret (pos - 1) CHR '' '') (\<lambda>ret. condense_loop ws ss ret pos))))"

text \<open>The C string at the start of a buffer; it is undefined to read an unknown byte.\<close>

fun c_string_of :: "buffer \<Rightarrow> string option" where
  "c_string_of [] = None"
| "c_string_of (None # bs) = None"
| "c_string_of (Some c # bs) = (if c = NUL then Some [] else map_option ((#) c) (c_string_of bs))"

definition condense_string_array :: "string option list \<Rightarrow> string option" where
  "condense_string_array str_arr =
     (let words = map the (takeWhile (\<lambda>s. s \<noteq> None) str_arr);
          ss = map (\<lambda>w. length w + 1) words;
          len = sum_list ss
      in Option.bind (condense_loop words ss (replicate (len + 1) None) 0) (\<lambda>(ret, pos).
         Option.bind (put_char ret pos NUL) c_string_of))"

section \<open>The productions of the grammar and their actions\<close>

record Redirect =
  r_in :: "string option"
  r_out :: "string option"
  r_append :: bool

definition mk_redirect :: "string option \<Rightarrow> string option \<Rightarrow> bool \<Rightarrow> Redirect" where
  "mk_redirect i out app = \<lparr>r_in = i, r_out = out, r_append = app\<rparr>"

text \<open>A word of the line: the terminals of \<open>string\<close>.\<close>

datatype word_token = STR_TOK string | SIM_STR string | NUM string | ID_STR string
  | ECHO_TOK | EXPORT_TOK | CD_TOK | KILL_TOK | PWD_TOK | JOBS_TOK | EXIT_TOK string

datatype mark = REDIRIN | REDIROUT | REDIROUTAPP

datatype content_tree = CmdTree word_token "word_token list" | EchoTree "word_token list"
  | ExportTree string word_token | CdHomeTree | CdTree word_token | PwdTree | JobsTree | ExitTree
  | KillTree string string

text \<open>A command with its redirections, in the order of the line, and the mark of the background.\<close>

record top_tree =
  content :: content_tree
  redirs :: "(mark \<times> word_token) list"
  bg :: bool

datatype input_line = Empty | Commands top_tree "top_tree list" | LastCommands top_tree "top_tree list"
  | BadLine | BadEnd

text \<open>What the parser asks of the system: the environment and \<open>realpath\<close>.\<close>

record sys =
  sys_env :: "string \<Rightarrow> string option"
  realpath :: "string \<Rightarrow> string option"

fun string_action :: "sys \<Rightarrow> word_token \<Rightarrow> string option" where
  "string_action E (STR_TOK s) = interpret_complex_string_token (sys_env E) s"
| "string_action E (SIM_STR s) = Some s"
| "string_action E (NUM s) = Some s"
| "string_action E (ID_STR s) = Some s"
| "string_action E ECHO_TOK = Some ''echo''"
| "string_action E EXPORT_TOK = Some ''export''"
| "string_action E CD_TOK = Some ''cd''"
| "string_action E KILL_TOK = Some ''kill''"
| "string_action E PWD_TOK = Some ''pwd''"
| "string_action E JOBS_TOK = Some ''jobs''"
| "string_action E (EXIT_TOK s) = Some s"

fun strings_action :: "sys \<Rightarrow> word_token list \<Rightarrow> string list option" where
  "strings_action E [] = Some []"
| "strings_action E (w # ws) = Option.bind (string_action E w) (\<lambda>s.
     map_option ((#) s) (strings_action E ws))"

text \<open>\<open>redir_inner\<close>: the production for the first mark acts last, on the redirect of the others.\<close>

fun redirect_action :: "sys \<Rightarrow> (mark \<times> word_token) list \<Rightarrow> Redirect option" where
  "redirect_action E [] = Some (mk_redirect None None False)"
| "redirect_action E [(m, w)] = Option.bind (string_action E w) (\<lambda>s. Some (case m of
       REDIRIN \<Rightarrow> mk_redirect (Some s) None False
     | REDIROUT \<Rightarrow> mk_redirect None (Some s) False
     | REDIROUTAPP \<Rightarrow> mk_redirect None (Some s) True))"
| "redirect_action E ((m, w) # rs) = Option.bind (string_action E w) (\<lambda>s.
     Option.bind (redirect_action E rs) (\<lambda>r. Some (case m of
       REDIRIN \<Rightarrow> r\<lparr>r_in := Some s\<rparr>
     | REDIROUT \<Rightarrow> r\<lparr>r_out := Some s, r_append := False\<rparr>
     | REDIROUTAPP \<Rightarrow> r\<lparr>r_out := Some s, r_append := True\<rparr>)))"

text \<open>\<open>cmd_content\<close>. Without \<open>HOME\<close>, \<open>cd\<close> copies a null pointer, which is undefined.\<close>

fun content_action :: "sys \<Rightarrow> content_tree \<Rightarrow> command option" where
  "content_action E (CmdTree w ws) = map_option mk_generic_command (strings_action E (w # ws))"
| "content_action E (EchoTree ws) = map_option mk_echo_command (strings_action E ws)"
| "content_action E (ExportTree v w) = map_option (mk_export_command v) (string_action E w)"
| "content_action E CdHomeTree = map_option (\<lambda>h. mk_cd_command (Some h)) (sys_env E ''HOME'')"
| "content_action E (CdTree w) = map_option (\<lambda>s. mk_cd_command (realpath E s)) (string_action E w)"
| "content_action E PwdTree = Some mk_pwd_command"
| "content_action E JobsTree = Some mk_jobs_command"
| "content_action E ExitTree = Some mk_exit_command"
| "content_action E (KillTree sig job) = Some (mk_kill_command sig job)"

definition cmd_top_action :: "sys \<Rightarrow> top_tree \<Rightarrow> command_holder option" where
  "cmd_top_action E t = Option.bind (content_action E (content t)) (\<lambda>c.
     Option.bind (redirect_action E (redirs t)) (\<lambda>r.
     let f = (if r_append r then REDIRECT_APPEND else 0) OR (if r_out r \<noteq> None then REDIRECT_OUT else 0)
       OR (if r_in r \<noteq> None then REDIRECT_IN else 0) OR (if bg t then BACKGROUND else 0)
     in Some (mk_command_holder (r_in r) (r_out r) f c)))"

text \<open>\<open>cmds\<close>: a command in front of the pipeline behind it.\<close>

definition pipe_action :: "command_holder \<Rightarrow> command_holder list \<Rightarrow> command_holder list" where
  "pipe_action h hs = (case hs of [] \<Rightarrow> [h]
     | prev # rest \<Rightarrow>
       (let h = h\<lparr>flags := flags h AND NOT (REDIRECT_APPEND OR REDIRECT_OUT) OR PIPE_OUT\<rparr>;
            prev = prev\<lparr>flags := flags prev AND NOT REDIRECT_IN OR PIPE_IN\<rparr>;
            h = (if has_flag prev BACKGROUND then h\<lparr>flags := flags h OR BACKGROUND\<rparr> else h)
        in h # prev # rest))"

fun cmds_action :: "sys \<Rightarrow> top_tree \<Rightarrow> top_tree list \<Rightarrow> command_holder list option" where
  "cmds_action E t ts = Option.bind (cmd_top_action E t) (\<lambda>h.
     (case ts of [] \<Rightarrow> Some [h]
      | t' # ts \<Rightarrow> map_option (pipe_action h) (cmds_action E t' ts)))"

declare cmds_action.simps [simp del]

definition eoc_holder :: command_holder where
  "eoc_holder = mk_command_holder None None 0 mk_eoc"

text \<open>\<open>top\<close>: the holders that \<open>parse\<close> gets, and whether the main loop goes on.\<close>

fun top_action :: "sys \<Rightarrow> input_line \<Rightarrow> (command_holder list option \<times> bool) option" where
  "top_action E Empty = Some (None, True)"
| "top_action E (Commands t ts) = map_option (\<lambda>hs. (Some (hs @ [eoc_holder]), True)) (cmds_action E t ts)"
| "top_action E (LastCommands t ts) = map_option (\<lambda>hs. (Some (hs @ [eoc_holder]), False)) (cmds_action E t ts)"
| "top_action E BadLine = Some (None, True)"
| "top_action E BadEnd = Some (None, False)"

record QuashState =
  running :: bool
  is_a_tty :: bool
  parsed_str :: "string option"

definition parse :: "sys \<Rightarrow> input_line \<Rightarrow> QuashState \<Rightarrow> (command_holder list option \<times> QuashState) option" where
  "parse E l state = Option.bind (top_action E l) (\<lambda>(holders, go).
     let state = (if go then state else state\<lparr>running := False\<rparr>) in
     (case holders of None \<Rightarrow> Some (None, state)
      | Some hs \<Rightarrow> Option.bind (condense_string_array (stringify_script hs)) (\<lambda>str.
          Some (Some hs, state\<lparr>parsed_str := Some str\<rparr>))))"

end
