(* ===== verification/Descriptors.thy ===== *)
theory Descriptors
  imports Prelude
begin

text \<open>
  The table of open file descriptors of a process, as the shell and the pipeline examples use it:
  what a descriptor refers to, the system calls \<open>pipe\<close>, \<open>dup2\<close> and \<open>close\<close>, and the tables
  that hold the standard descriptors and the ends of pipes.
\<close>

section \<open>System calls\<close>

text \<open>What a descriptor refers to. Pipes are numbered as they are created.\<close>

datatype channel = Inherited nat | PipeR nat | PipeW nat | InFile string | OutFile string bool

type_synonym fd_table = "channel option list"

definition free_fds :: "fd_table \<Rightarrow> nat list" where
  "free_fds t = filter (\<lambda>i. t ! i = None) [0..<length t]"

definition close_fd :: "nat \<Rightarrow> fd_table \<Rightarrow> fd_table" where
  "close_fd a t = t[a := None]"

definition dup2 :: "nat \<Rightarrow> nat \<Rightarrow> fd_table \<Rightarrow> fd_table" where
  "dup2 a b t = (if a < length t \<and> t ! a \<noteq> None then t[b := t ! a] else t)"

text \<open>\<open>pipe\<close> takes the two lowest free descriptors; \<open>n\<close> is the number of the new pipe.\<close>

definition open_pipe :: "nat \<Rightarrow> fd_table \<Rightarrow> ((nat \<times> nat) \<times> fd_table) option" where
  "open_pipe n t = (case free_fds t of
     r # w # _ \<Rightarrow> Some ((r, w), t[r := Some (PipeR n), w := Some (PipeW n)])
   | _ \<Rightarrow> None)"

section \<open>The standard descriptors\<close>

text \<open>The table of a process with its three standard descriptors and no others.\<close>

definition std :: "nat \<Rightarrow> channel \<Rightarrow> channel \<Rightarrow> fd_table" where
  "std N i u = map (\<lambda>k. if k = 0 then Some i else if k = 1 then Some u else if k = 2 then Some (Inherited 2) else None)
     [0..<N]"

lemma std_simps [simp]: "length (std N i u) = N"
  "k < N \<Longrightarrow> std N i u ! k = (if k = 0 then Some i else if k = 1 then Some u else if k = 2 then Some (Inherited 2) else None)"
  by (simp_all add: std_def)

lemma free_fdsD:
  assumes "free_fds t = r # w # rest"
  shows "r < length t \<and> w < length t \<and> r \<noteq> w \<and> t ! r = None \<and> t ! w = None"
proof -
  have "set (free_fds t) = {i. i < length t \<and> t ! i = None}" "distinct (free_fds t)"
    by (auto simp: free_fds_def)
  then show ?thesis using assms by auto
qed

lemma free_fds_two:
  assumes "finite A" "{i. i < length t \<and> t ! i \<noteq> None} \<subseteq> A" "card A + 2 \<le> length t"
  shows "\<exists>r w rest. free_fds t = r # w # rest"
proof -
  have "set (free_fds t) = {i. i < length t \<and> t ! i = None}" by (auto simp: free_fds_def)
  also have "\<dots> \<supseteq> {0..<length t} - A" using assms(2) by auto
  finally have "card ({0..<length t} - A) \<le> card (set (free_fds t))" by (rule card_mono[OF finite_set])
  then have "2 \<le> card (set (free_fds t))"
    using diff_card_le_card_Diff[OF assms(1), of "{0..<length t}"] assms(3) by simp
  then have "2 \<le> length (free_fds t)" using card_length[of "free_fds t"] by simp
  then show ?thesis by (cases "free_fds t"; cases "tl (free_fds t)") auto
qed

lemma free_std: "4 \<le> N \<Longrightarrow> free_fds (std N i u) \<noteq> []"
proof -
  assume "4 \<le> N"
  then have "3 \<in> set (free_fds (std N i u))" by (simp add: free_fds_def)
  then show ?thesis by auto
qed

lemma std_update: "3 \<le> N \<Longrightarrow> (std N i u)[0 := Some c] = std N c u" "3 \<le> N \<Longrightarrow> (std N i u)[1 := Some c] = std N i c"
  by (auto intro!: nth_equalityI simp: nth_list_update)

text \<open>The table with the ends of two pipes, and what remains when they are closed.\<close>

definition two_pipes :: "nat \<Rightarrow> channel \<Rightarrow> channel \<Rightarrow> nat \<Rightarrow> nat \<Rightarrow> nat \<Rightarrow> nat \<Rightarrow> nat \<Rightarrow> fd_table" where
  "two_pipes N i u n r w c d = (std N i u)[r := Some (PipeR n), w := Some (PipeW n),
     c := Some (PipeR (Suc n)), d := Some (PipeW (Suc n))]"

definition apart :: "nat \<Rightarrow> nat list \<Rightarrow> bool" where
  "apart N xs \<longleftrightarrow> distinct xs \<and> (\<forall>x\<in>set xs. 3 \<le> x \<and> x < N)"

lemma two_pipes_dup:
  assumes "apart N [r, w, c, d]"
  shows "dup2 r 0 (two_pipes N i u n r w c d) = two_pipes N (PipeR n) u n r w c d"
    "dup2 d 1 (two_pipes N i u n r w c d) = two_pipes N i (PipeW (Suc n)) n r w c d"
  using assms by (auto simp: apart_def dup2_def two_pipes_def nth_list_update intro!: nth_equalityI)

lemma two_pipes_close:
  assumes "apart N [r, w, c, d]"
  shows "close_fd w (close_fd r (close_fd d (close_fd c (two_pipes N i u n r w c d)))) = std N i u"
    "close_fd w (close_fd r (two_pipes N i u n r w c d))
      = (std N i u)[c := Some (PipeR (Suc n)), d := Some (PipeW (Suc n))]"
  using assms by (auto simp: apart_def close_fd_def two_pipes_def nth_list_update intro!: nth_equalityI)

lemma three_le: "3 \<le> d \<longleftrightarrow> d \<noteq> 0 \<and> d \<noteq> 1 \<and> d \<noteq> (2 :: nat)"
  by auto

section \<open>Opening pipes\<close>

lemma open_pipe_first:
  assumes "5 \<le> N"
  shows "\<exists>r w. open_pipe n (std N i u) = Some ((r, w), (std N i u)[r := Some (PipeR n), w := Some (PipeW n)])
    \<and> apart N [r, w]"
proof -
  have "{k. k < length (std N i u) \<and> std N i u ! k \<noteq> None} \<subseteq> {0, 1, 2}" by (auto split: if_splits)
  then obtain r w rest where f: "free_fds (std N i u) = r # w # rest"
    using free_fds_two[of "{0, 1, 2}" "std N i u"] assms by (auto simp: card_insert_if)
  have "apart N [r, w]" using free_fdsD[OF f] by (auto simp: apart_def split: if_splits)
  then show ?thesis using f by (simp add: open_pipe_def)
qed

lemma open_pipe_second:
  assumes "7 \<le> N" "apart N [r, w]"
  shows "\<exists>c d. open_pipe (Suc n) ((std N i u)[r := Some (PipeR n), w := Some (PipeW n)])
      = Some ((c, d), two_pipes N i u n r w c d) \<and> apart N [r, w, c, d]"
proof -
  define t where "t = (std N i u)[r := Some (PipeR n), w := Some (PipeW n)]"
  have rw: "3 \<le> r" "3 \<le> w" "r < N" "w < N" "r \<noteq> w" and len: "length t = N"
    using assms(2) by (auto simp: apart_def t_def)
  have "{k. k < length t \<and> t ! k \<noteq> None} \<subseteq> {0, 1, 2, r, w}"
    using rw by (auto simp: t_def nth_list_update split: if_splits)
  moreover have "card {0, 1, 2, r, w} \<le> 5" by (auto simp: card_insert_if)
  ultimately obtain c d rest where f: "free_fds t = c # d # rest"
    using free_fds_two[of "{0, 1, 2, r, w}" t] assms(1) len by auto
  then have "c < N" "d < N" "c \<noteq> d" "t ! c = None" "t ! d = None"
    using free_fdsD[OF f] len by auto
  then have "apart N [r, w, c, d]"
    using rw by (auto simp: apart_def t_def nth_list_update three_le split: if_splits)
  then show ?thesis using f unfolding open_pipe_def t_def[symmetric]
    by (intro exI[of _ c] exI[of _ d]) (simp add: two_pipes_def t_def)
qed

end
