(* ===== verification/Execute.thy ===== *)
theory Execute
  imports ParseInterface Descriptors
begin

text \<open>
  Running a command line (\<open>quash/src/execute.c\<close>): the shell with its job table, the pipes that
  alternate between two slots, the processes it forks with the descriptors they start with, and the
  builtins. The kernel is modelled by a table of descriptors and by parameters for the results of the
  system calls. The deques of jobs and process ids are lists here; \<open>None\<close> stands for a failed
  assertion of a deque or a null pointer that is used.
\<close>

section \<open>Descriptors\<close>

text \<open>\<open>open\<close>, \<open>dup2\<close> and \<open>close\<close> in a row; nothing happens when \<open>open\<close> fails.\<close>

definition redirect :: "channel option \<Rightarrow> nat \<Rightarrow> fd_table \<Rightarrow> fd_table" where
  "redirect ch target t = (case (ch, free_fds t) of
     (Some c, fd # _) \<Rightarrow> close_fd fd (dup2 fd target (t[fd := Some c]))
   | _ \<Rightarrow> t)"

section \<open>The state\<close>

record job =
  job_id :: int
  job_cmd :: string
  pid_list :: "int list"

text \<open>A child process: its identifier, its descriptors, and what it does then.\<close>

datatype child_act = Exec "string list" | Prints string | Quiet | Aborts

record child =
  child_pid :: int
  child_fds :: fd_table
  child_act :: child_act

record shell =
  fds :: fd_table
  pipes_made :: nat
  pipes :: "(nat \<times> nat) list"
  cur_pipe :: nat
  old_pipe :: nat
  current_job :: "int list"
  bg_jobs :: "job list"
  globals_created :: bool
  environment :: "string \<Rightarrow> string option"
  cwd :: string
  children :: "child list"
  fork_calls :: nat
  wait_calls :: nat
  waited :: "int list"
  signalled :: "(int \<times> int) list"
  out :: "string list"
  err :: "string list"
  quash :: QuashState

text \<open>
  The results of system calls; the numbers count the calls. \<open>chdir\<close> gives the new directory from the old
  one and the path.
\<close>

record os =
  fork_result :: "nat \<Rightarrow> int"
  wait_result :: "nat \<Rightarrow> int \<Rightarrow> int"
  chdir :: "string \<Rightarrow> string \<Rightarrow> string option"
  can_read :: "string \<Rightarrow> bool"
  can_write :: "string \<Rightarrow> bool"

section \<open>Jobs\<close>

text \<open>\<open>getenv\<close>\<close>

definition lookup_env :: "shell \<Rightarrow> string \<Rightarrow> string option" where
  "lookup_env s env_var = environment s env_var"

definition emit :: "string \<Rightarrow> shell \<Rightarrow> shell" where
  "emit w s = s\<lparr>out := out s @ [w]\<rparr>"

definition complain :: "string \<Rightarrow> shell \<Rightarrow> shell" where
  "complain w s = s\<lparr>err := err s @ [w]\<rparr>"

definition get_next_job_number :: "shell \<Rightarrow> int" where
  "get_next_job_number s = (if bg_jobs s = [] then 1 else job_id (last (bg_jobs s)) + 1)"

text \<open>\<open>"[%d]\t%8d\t%s\n"\<close>\<close>

definition print_job :: "int \<Rightarrow> int \<Rightarrow> string \<Rightarrow> string" where
  "print_job jid pid w = ''['' @ show_int jid @ '']'' @ [CHR 0x09]
     @ replicate (8 - length (show_int pid)) CHR '' '' @ show_int pid @ [CHR 0x09] @ w @ [CHR 0x0A]"

definition print_job_bg_start :: "int \<Rightarrow> int \<Rightarrow> string \<Rightarrow> string" where
  "print_job_bg_start jid pid w = ''Background job started: '' @ print_job jid pid w"

definition print_job_bg_complete :: "int \<Rightarrow> int \<Rightarrow> string \<Rightarrow> string" where
  "print_job_bg_complete jid pid w = ''Completed: '' @ [CHR 0x09] @ print_job jid pid w"

text \<open>The inner loop: it stops at the first process that is still running.\<close>

fun all_done :: "os \<Rightarrow> int list \<Rightarrow> shell \<Rightarrow> bool \<times> shell" where
  "all_done os [] s = (True, s)"
| "all_done os (pid # pids) s =
     (let x = wait_result os (wait_calls s) pid; s = s\<lparr>wait_calls := Suc (wait_calls s)\<rparr>
      in if x = 0 then (False, s) else all_done os pids s)"

primrec check_jobs_loop :: "os \<Rightarrow> nat \<Rightarrow> shell \<Rightarrow> shell option" where
  "check_jobs_loop os 0 s = Some s"
| "check_jobs_loop os (Suc n) s = (case bg_jobs s of [] \<Rightarrow> None
     | j # js \<Rightarrow> (case pid_list j of [] \<Rightarrow> None
       | first_pid # _ \<Rightarrow>
         (let (d, s) = all_done os (pid_list j) (s\<lparr>bg_jobs := js\<rparr>);
              s = (if d then emit (print_job_bg_complete (job_id j) first_pid (job_cmd j)) s
                   else s\<lparr>bg_jobs := bg_jobs s @ [j]\<rparr>)
          in check_jobs_loop os n s)))"

definition check_jobs_bg_status :: "os \<Rightarrow> shell \<Rightarrow> shell option" where
  "check_jobs_bg_status os s = check_jobs_loop os (length (bg_jobs s)) s"

section \<open>Builtins\<close>

definition run_echo :: "string list \<Rightarrow> string" where
  "run_echo args = concat (map (\<lambda>w. w @ '' '') args) @ [CHR 0x0A]"

definition run_export :: "string \<Rightarrow> string \<Rightarrow> shell \<Rightarrow> shell" where
  "run_export env_var val s = s\<lparr>environment := (environment s)(env_var := Some val)\<rparr>"

definition run_cd :: "os \<Rightarrow> string option \<Rightarrow> shell \<Rightarrow> shell option" where
  "run_cd os dir s = (case dir of
     None \<Rightarrow> Some (complain ''ERROR: Failed to resolve path'' s)
   | Some d \<Rightarrow> (let s = (case chdir os (cwd s) d of Some c \<Rightarrow> s\<lparr>cwd := c\<rparr> | None \<Rightarrow> s) in
       case lookup_env s ''PWD'' of None \<Rightarrow> None
       | Some new_dir \<Rightarrow>
         Some (s\<lparr>environment := (environment s)(''OLD_PWD'' := Some new_dir, ''PWD'' := Some d)\<rparr>)))"

text \<open>Every job is taken from the front and put back at the end.\<close>

primrec kill_loop :: "int \<Rightarrow> int \<Rightarrow> nat \<Rightarrow> bool \<times> shell \<Rightarrow> (bool \<times> shell) option" where
  "kill_loop sig jid 0 r = Some r"
| "kill_loop sig jid (Suc n) r = (let (killed, s) = r in case bg_jobs s of [] \<Rightarrow> None
     | j # js \<Rightarrow>
       (let (killed, s) = (if job_id j = jid
              then (True, s\<lparr>signalled := signalled s @ map (\<lambda>pid. (pid, sig)) (pid_list j)\<rparr>) else (killed, s))
        in kill_loop sig jid n (killed, s\<lparr>bg_jobs := js @ [j]\<rparr>)))"

definition run_kill :: "int \<Rightarrow> int \<Rightarrow> shell \<Rightarrow> shell option" where
  "run_kill sig jid s = map_option
     (\<lambda>(killed, s). if \<not> killed then complain (''ERR: job found with given id'' @ [CHR 0x0A]) s else s)
     (kill_loop sig jid (length (bg_jobs s)) (False, s))"

text \<open>\<open>getcwd\<close> into a buffer of 256 bytes, which is long enough for the directories considered.\<close>

definition get_current_directory :: "shell \<Rightarrow> string" where
  "get_current_directory s = cwd s"

definition run_pwd :: "shell \<Rightarrow> string" where
  "run_pwd s = get_current_directory s @ [CHR 0x0A]"

fun run_jobs :: "job list \<Rightarrow> string option" where
  "run_jobs [] = Some []"
| "run_jobs (j # js) = (case pid_list j of [] \<Rightarrow> None
     | pid # _ \<Rightarrow> map_option ((@) (print_job (job_id j) pid (job_cmd j))) (run_jobs js))"

section \<open>Processes\<close>

definition child_run_command :: "command \<Rightarrow> shell \<Rightarrow> child_act" where
  "child_run_command c s = (case c of
     Generic args \<Rightarrow> Exec args
   | Echo args \<Rightarrow> Prints (run_echo args)
   | Pwd \<Rightarrow> Prints (run_pwd s)
   | Jobs \<Rightarrow> (case run_jobs (bg_jobs s) of None \<Rightarrow> Aborts | Some w \<Rightarrow> Prints w)
   | _ \<Rightarrow> Quiet)"

definition parent_run_command :: "os \<Rightarrow> command \<Rightarrow> shell \<Rightarrow> shell option" where
  "parent_run_command os c s = (case c of
     Export v x \<Rightarrow> Some (run_export v x s)
   | Cd d \<Rightarrow> run_cd os d s
   | Kill sig jid _ _ \<Rightarrow> run_kill sig jid s
   | _ \<Rightarrow> Some s)"

text \<open>\<open>pipe(pipes[i])\<close>: the two lowest free descriptors; a failing call changes nothing.\<close>

definition do_pipe :: "nat \<Rightarrow> shell \<Rightarrow> shell" where
  "do_pipe i s = (case free_fds (fds s) of
     r # w # _ \<Rightarrow> s\<lparr>pipes := (pipes s)[i := (r, w)], pipes_made := Suc (pipes_made s),
       fds := (fds s)[r := Some (PipeR (pipes_made s)), w := Some (PipeW (pipes_made s))]\<rparr>
   | _ \<Rightarrow> s)"

definition close_pipe :: "nat \<Rightarrow> shell \<Rightarrow> shell" where
  "close_pipe i s = s\<lparr>fds := close_fd (snd (pipes s ! i)) (close_fd (fst (pipes s ! i)) (fds s))\<rparr>"

text \<open>The descriptors of the child, up to the call of \<open>child_run_command\<close>.\<close>

definition child_table :: "os \<Rightarrow> command_holder \<Rightarrow> shell \<Rightarrow> fd_table" where
  "child_table os h s =
     (let (pr, pw) = pipes s ! old_pipe s; (cr, cw) = pipes s ! cur_pipe s;
          t = fds s;
          t = (if has_flag h PIPE_IN then dup2 pr 0 t else t);
          t = (if has_flag h PIPE_OUT then dup2 cw 1 t else t);
          t = close_fd pw (close_fd pr (close_fd cw (close_fd cr t)));
          t = (if has_flag h REDIRECT_IN then redirect (case redirect_in h of
                   Some f \<Rightarrow> if can_read os f then Some (InFile f) else None | None \<Rightarrow> None) 0 t else t);
          t = (if has_flag h REDIRECT_OUT then redirect (case redirect_out h of
                   Some f \<Rightarrow> if can_write os f then Some (OutFile f (has_flag h REDIRECT_APPEND)) else None
                 | None \<Rightarrow> None) 1 t else t)
      in t)"

text \<open>\<open>fork\<close> gives the parent a positive number, or a negative one when there is no child.\<close>

definition create_process :: "os \<Rightarrow> command_holder \<Rightarrow> shell \<Rightarrow> shell option" where
  "create_process os h s =
     (let s = do_pipe (cur_pipe s) s;
          pid = fork_result os (fork_calls s);
          s = s\<lparr>fork_calls := Suc (fork_calls s), current_job := current_job s @ [pid]\<rparr>;
          s = (if pid > 0 then s\<lparr>children := children s @
                 [\<lparr>child_pid = pid, child_fds = child_table os h s, child_act = child_run_command (cmd h) s\<rparr>]\<rparr>
               else s)
      in Option.bind (parent_run_command os (cmd h) s) (\<lambda>s.
         let s = close_pipe (old_pipe s) s
         in Some (s\<lparr>old_pipe := cur_pipe s, cur_pipe := (cur_pipe s + 1) mod 2\<rparr>)))"

fun create_processes :: "os \<Rightarrow> command_holder list \<Rightarrow> shell \<Rightarrow> shell option" where
  "create_processes os [] s = None"
| "create_processes os (h # hs) s = (if get_command_holder_type h \<noteq> EOC
     then Option.bind (create_process os h s) (create_processes os hs) else Some s)"

text \<open>A copy of the command string; there is none before the first command.\<close>

definition get_command_string :: "shell \<Rightarrow> string option" where
  "get_command_string s = parsed_str (quash s)"

definition create_job :: "int \<Rightarrow> int list \<Rightarrow> shell \<Rightarrow> job option" where
  "create_job jid pids s = map_option (\<lambda>w. \<lparr>job_id = jid, job_cmd = w, pid_list = pids\<rparr>) (get_command_string s)"

definition wait_foreground :: "shell \<Rightarrow> shell" where
  "wait_foreground s = s\<lparr>waited := waited s @ current_job s, current_job := []\<rparr>"

definition start_background :: "shell \<Rightarrow> shell option" where
  "start_background s = Option.bind (create_job (get_next_job_number s) (current_job s) s) (\<lambda>j.
     (case pid_list j of [] \<Rightarrow> None
      | pid # _ \<Rightarrow> Some (emit (print_job_bg_start (job_id j) pid (job_cmd j))
          (s\<lparr>current_job := [], bg_jobs := bg_jobs s @ [j]\<rparr>))))"

definition end_main_loop :: "shell \<Rightarrow> shell" where
  "end_main_loop s = s\<lparr>quash := (quash s)\<lparr>running := False\<rparr>\<rparr>"

definition init_globals :: "shell \<Rightarrow> shell" where
  "init_globals s = (if \<not> globals_created s
     then s\<lparr>current_job := [], bg_jobs := [], globals_created := True\<rparr> else s)"

definition run_script :: "os \<Rightarrow> command_holder list option \<Rightarrow> shell \<Rightarrow> shell option" where
  "run_script os holders s = (case holders of
     None \<Rightarrow> Some s
   | Some [] \<Rightarrow> None
   | Some (h # hs) \<Rightarrow>
     Option.bind (check_jobs_bg_status os (init_globals s)) (\<lambda>s.
     if get_command_holder_type h = EXIT \<and> hs \<noteq> [] \<and> get_command_holder_type (hd hs) = EOC
     then Some (end_main_loop s)
     else
       Option.bind (create_processes os (h # hs) (do_pipe (old_pipe s) s)) (\<lambda>s.
       let s = close_pipe (old_pipe s) s in
       if \<not> has_flag h BACKGROUND then Some (wait_foreground s) else start_background s)))"

end
