(* ===== verification/ParseInterface_Correct.thy ===== *)
theory ParseInterface_Correct
  imports ParseInterface
begin

text \<open>
  What the parser interface of the shell computes: the loop over the indices of a word is a
  recursive expansion, quoting round trips, the flags of a pipeline, and the string of a command.
\<close>

section \<open>Expansion as a recursive function\<close>

definition onto :: "string \<Rightarrow> string \<times> bool \<Rightarrow> string \<times> bool" where
  "onto w r = (w @ fst r, snd r)"

lemma onto_simps [simp]: "fst (onto w r) = w @ fst r" "snd (onto w r) = snd r"
  by (simp_all add: onto_def)

function expand :: "(string \<Rightarrow> string option) \<Rightarrow> bool \<Rightarrow> string \<Rightarrow> string \<times> bool" where
  "expand env q [] = ([], q)"
| "expand env q (c # r) =
     (if c = BACKSLASH then (case r of [] \<Rightarrow> ([c], q)
        | n # r' \<Rightarrow>
          if (if q then n = QUOTE else escapable n) then onto [n] (expand env q r')
          else if \<not> q \<and> n = CHR 0x0A then expand env q r'
          else onto [c] (expand env q r))
      else if c = QUOTE then expand env (\<not> q) r
      else if c = CHR ''$'' \<and> \<not> q \<and> r \<noteq> [] \<and> is_first_identifier_char (hd r) then
        onto (case env (takeWhile is_identifier_char r) of None \<Rightarrow> [] | Some v \<Rightarrow> v)
          (expand env q (dropWhile is_identifier_char r))
      else onto [c] (expand env q r))"
  by pat_completeness auto
termination
  by (relation "measure (\<lambda>(env, q, s). length s)") (auto simp: less_Suc_eq_le length_dropWhile_le)

declare expand.simps(2) [simp del]

lemma char_consts: "BACKSLASH \<noteq> NUL" "QUOTE \<noteq> NUL" "BACKSLASH \<noteq> QUOTE" "\<not> escapable NUL"
  "\<not> is_first_identifier_char NUL" "\<not> is_identifier_char NUL" "NUL \<noteq> CHR 0x0A"
  by (simp_all add: BACKSLASH_def QUOTE_def NUL_def escapable_def is_first_identifier_char_def
      is_identifier_char_def is_alpha_def is_digit_def)

lemma update_last_snoc [simp]: "update_last (xs @ [x]) y = xs @ [y]"
  by (simp add: update_last_def)

lemma char_at_drop:
  assumes "i < length s"
  shows "drop i s = char_at s i # drop (Suc i) s" "char_at s i \<in> set s"
    "char_at s (Suc i) = (case drop (Suc i) s of [] \<Rightarrow> NUL | n # _ \<Rightarrow> n)"
  using assms by (auto simp: char_at_def Cons_nth_drop_Suc hd_drop_conv_nth nth_via_drop split: list.split)

lemma drop_dropWhile: "dropWhile P (drop i s) = drop (i + length (takeWhile P (drop i s))) s"
  by (metis add.commute drop_drop dropWhile_eq_drop)

lemma interpret_loop_end:
  "interpret_loop env s (length s, bld, q) = (bld @ [NUL], q)"
  by (simp add: interpret_loop.simps interpret_char_def char_at_def char_consts Let_def
      char_consts(1,2)[symmetric])

lemma interpret_loop_step:
  "i < length s \<Longrightarrow> interpret_loop env s (i, bld, q) = interpret_loop env s (interpret_char env s (i, bld, q))"
  by (subst interpret_loop.simps) simp

lemma interpret_loop_expand:
  assumes "NUL \<notin> set s" "i \<le> length s"
  shows "interpret_loop env s (i, bld, q)
    = (bld @ fst (expand env q (drop i s)) @ [NUL], snd (expand env q (drop i s)))"
  using assms(2)
proof (induction "length s - i" arbitrary: i bld q rule: less_induct)
  case less
  show ?case
  proof (cases "i = length s")
    case True
    then show ?thesis by (simp add: interpret_loop_end)
  next
    case False
    then have i: "i < length s" using less.prems by simp
    note d = char_at_drop[OF i]
    have ih: "interpret_loop env s (j, b, p)
        = (b @ fst (expand env p (drop j s)) @ [NUL], snd (expand env p (drop j s)))"
      if "i < j" "j \<le> length s" for j b p
      using less.hyps[of j b p] that i by simp
    show ?thesis
    proof (cases "drop (Suc i) s")
      case Nil
      then have n: "char_at s (Suc i) = NUL" "length s = Suc i" using d(3) i by simp_all
      have "interpret_char env s (i, bld, q) = (if char_at s i = QUOTE then (Suc i, bld, \<not> q)
          else (Suc i, bld @ [char_at s i], q))"
        using char_consts n by (simp add: interpret_char_def Let_def)
      then show ?thesis
        using interpret_loop_step[OF i] interpret_loop_end[of env s] n d(1) Nil char_consts(3)
        by (auto simp: expand.simps(2))
    next
      case (Cons n r)
      then have n: "char_at s (Suc i) = n" using d(3) by simp
      have r: "drop (Suc (Suc i)) s = r" by (metis Cons drop_Suc list.sel(3) tl_drop)
      have l: "Suc (Suc i) \<le> length s"
      proof (rule ccontr)
        assume "\<not> ?thesis"
        then show False using Cons by simp
      qed
      note step = interpret_loop_step[OF i, of env bld q]
      let ?c = "char_at s i"
      have e: "drop i s = ?c # n # r" using d(1) Cons by simp
      have ih1: "interpret_loop env s (Suc i, b, p)
          = (b @ fst (expand env p (n # r)) @ [NUL], snd (expand env p (n # r)))" for b p
        using ih[of "Suc i" b p] i Cons by simp
      have ih2: "interpret_loop env s (Suc (Suc i), b, p)
          = (b @ fst (expand env p r) @ [NUL], snd (expand env p r))" for b p
        using ih[of "Suc (Suc i)" b p] l r by simp
      note x = expand.simps(2)[of env q ?c "n # r"]
      consider "?c = BACKSLASH" | "?c = QUOTE" | "?c \<noteq> BACKSLASH" "?c \<noteq> QUOTE" by blast
      then show ?thesis
      proof cases
        case 1
        then show ?thesis
          unfolding step e x by (simp add: interpret_char_def Let_def n ih1 ih2)
      next
        case 2
        then show ?thesis using char_consts(3)[symmetric]
          unfolding step e x by (simp add: interpret_char_def Let_def n ih1)
      next
        case 3
        show ?thesis
        proof (cases "?c = CHR ''$'' \<and> \<not> q \<and> is_first_identifier_char n")
          case True
          let ?w = "takeWhile is_identifier_char (n # r)"
          have j: "Suc i + length ?w \<le> length s"
          proof -
            have "length s - Suc i = Suc (length r)" using arg_cong[OF Cons, of length] by simp
            then show ?thesis using length_takeWhile_le[of is_identifier_char "n # r"] i by simp
          qed
          have "drop (Suc i + length ?w) s = dropWhile is_identifier_char (n # r)"
            using drop_dropWhile[of is_identifier_char "Suc i" s] unfolding Cons by simp
          then show ?thesis using True 3 ih[of "Suc i + length ?w"] j
            unfolding step e x
            by (simp add: interpret_char_def interpret_deref_def Let_def n Cons del: takeWhile.simps dropWhile.simps
                split: option.split)
        next
          case False
          then show ?thesis using 3
            unfolding step e x by (auto simp: interpret_char_def Let_def n ih1)
        qed
      qed
    qed
  qed
qed

definition no_nul_env :: "(string \<Rightarrow> string option) \<Rightarrow> bool" where
  "no_nul_env env \<longleftrightarrow> (\<forall>v w. env v = Some w \<longrightarrow> NUL \<notin> set w)"

lemma expand_no_nul:
  "no_nul_env env \<Longrightarrow> NUL \<notin> set s \<Longrightarrow> NUL \<notin> set (fst (expand env q s))"
proof (induction "length s" arbitrary: s q rule: less_induct)
  case less
  show ?case
  proof (cases s)
    case (Cons c r)
    have ih: "NUL \<notin> set (fst (expand env p u))" if "length u \<le> length r" "set u \<subseteq> set r" for u p
      using less.hyps[of u p] less.prems that Cons by auto
    have drop: "NUL \<notin> set (fst (expand env q (dropWhile is_identifier_char r)))"
      by (rule ih) (auto simp: length_dropWhile_le dest: set_dropWhileD)
    have val: "NUL \<notin> set (case env v of None \<Rightarrow> [] | Some w \<Rightarrow> w)" for v
      using less.prems(1) by (auto simp: no_nul_env_def split: option.split)
    have same: "NUL \<notin> set (fst (expand env p r))" for p by (rule ih) auto
    have c: "c \<noteq> NUL" using less.prems(2) Cons by auto
    show ?thesis
    proof (cases r)
      case Nil
      then show ?thesis using c char_consts(1)[symmetric] unfolding Cons expand.simps(2)[of env q c] by simp
    next
      case (Cons n r')
      then have "NUL \<notin> set (fst (expand env q r'))" "n \<noteq> NUL"
        using ih[of r' q] less.prems(2) \<open>s = c # r\<close> by auto
      then show ?thesis
        using c same drop val[of "takeWhile is_identifier_char r"] char_consts(1-3)[symmetric]
        unfolding \<open>s = c # r\<close> expand.simps(2)[of env q c] Cons list.case
        by (auto simp del: dropWhile.simps takeWhile.simps split del: option.split)
    qed
  qed simp
qed

lemma take_to_nul: "NUL \<notin> set x \<Longrightarrow> takeWhile (\<lambda>c. c \<noteq> NUL) (x @ [NUL]) = x"
  by (subst takeWhile_append2) auto

lemma interpret_expand:
  assumes "NUL \<notin> set s" "no_nul_env env"
  shows "interpret_complex_string_token env s
    = (if snd (expand env False s) then None else Some (fst (expand env False s)))"
  using interpret_loop_expand[OF assms(1), of 0 env "[]" False] take_to_nul[OF expand_no_nul[OF assms(2,1)]]
  by (simp add: interpret_complex_string_token_def flip: append_assoc)

section \<open>Quoting\<close>

text \<open>The words that the lexer takes for a \<open>string\<close>: the rule of \<open>parse.l\<close>, inside quotes or not.\<close>

fun lex_string :: "bool \<Rightarrow> string \<Rightarrow> bool" where
  "lex_string q [] = (\<not> q)"
| "lex_string q (c # r) =
     (if c = BACKSLASH then (case r of [] \<Rightarrow> False | n # r' \<Rightarrow> lex_string q r')
      else if c = QUOTE then lex_string (\<not> q) r
      else (q \<or> c \<notin> {CHR '' '', CHR 0x09, CHR 0x0D, CHR 0x0A, CHR ''#'', CHR ''<'', CHR ''>'', CHR ''='',
        CHR ''&'', CHR ''|''}) \<and> lex_string q r)"

text \<open>A way to write any word: a backslash where the shell knows the escape, else quotes.\<close>

definition escape_char :: "char \<Rightarrow> string" where
  "escape_char c = (if escapable c then [BACKSLASH, c]
     else if c \<in> {CHR ''<'', CHR ''>'', CHR 0x0A, CHR 0x0D} then [QUOTE, c, QUOTE] else [c])"

definition escape :: "string \<Rightarrow> string" where
  "escape s = concat (map escape_char s)"

lemma quote_consts: "QUOTE \<noteq> BACKSLASH" "escapable BACKSLASH" "escapable QUOTE"
  by (simp_all add: BACKSLASH_def QUOTE_def escapable_def)

lemma escape_char_expand: "expand env False (escape_char c @ r) = onto [c] (expand env False r)"
proof -
  consider "escapable c" | "\<not> escapable c" "c \<in> {CHR ''<'', CHR ''>'', CHR 0x0A, CHR 0x0D}"
    | "\<not> escapable c" "c \<notin> {CHR ''<'', CHR ''>'', CHR 0x0A, CHR 0x0D}" by blast
  then show ?thesis
  proof cases
    case 1
    then show ?thesis by (simp add: escape_char_def expand.simps(2))
  next
    case 2
    then have "c \<noteq> BACKSLASH" "c \<noteq> QUOTE" "c \<noteq> CHR ''$''" using quote_consts by (auto simp: escapable_def)
    then show ?thesis using 2 quote_consts(1) by (simp add: escape_char_def expand.simps(2))
  next
    case 3
    then have "c \<noteq> BACKSLASH" "c \<noteq> QUOTE" "c \<noteq> CHR ''$''" using quote_consts by (auto simp: escapable_def)
    then show ?thesis using 3 by (simp add: escape_char_def expand.simps(2))
  qed
qed

lemma escape_expand: "expand env False (escape s) = (s, False)"
proof (induction s)
  case (Cons c s)
  have "expand env False (escape (c # s)) = onto [c] (expand env False (escape s))"
    using escape_char_expand[of env c "escape s"] by (simp add: escape_def)
  then show ?case using Cons.IH by (simp add: onto_def)
qed (simp add: escape_def)

lemma lex_escape_char: "lex_string False (escape_char c @ r) = lex_string False r"
proof -
  consider "escapable c" | "\<not> escapable c" "c \<in> {CHR ''<'', CHR ''>'', CHR 0x0A, CHR 0x0D}"
    | "\<not> escapable c" "c \<notin> {CHR ''<'', CHR ''>'', CHR 0x0A, CHR 0x0D}" by blast
  then show ?thesis
  proof cases
    case 2
    then have "c \<noteq> BACKSLASH" "c \<noteq> QUOTE" using quote_consts by auto
    then show ?thesis using 2 quote_consts(1) by (simp add: escape_char_def)
  next
    case 3
    then have "c \<noteq> BACKSLASH" "c \<noteq> QUOTE" using quote_consts by auto
    then show ?thesis using 3 by (simp add: escape_char_def escapable_def)
  qed (simp add: escape_char_def)
qed

lemma lex_escape: "lex_string False (escape s)"
proof (induction s)
  case (Cons c s)
  then show ?case using lex_escape_char[of c "escape s"] by (simp add: escape_def)
qed (simp add: escape_def)

lemma escape_no_nul: "NUL \<notin> set s \<Longrightarrow> NUL \<notin> set (escape s)"
  using char_consts by (auto simp: escape_def escape_char_def)

section \<open>The flags of a pipeline\<close>

lemma flag_push:
  "REDIRECT_IN = push_bit 0 1" "REDIRECT_OUT = push_bit 2 1" "REDIRECT_APPEND = push_bit 3 1"
  "PIPE_IN = push_bit 4 1" "PIPE_OUT = push_bit 5 1" "BACKGROUND = push_bit 6 1"
  by (simp_all add: flag_defs)

lemma has_flag_bit:
  "has_flag h REDIRECT_IN \<longleftrightarrow> bit (flags h) 0" "has_flag h REDIRECT_OUT \<longleftrightarrow> bit (flags h) 2"
  "has_flag h REDIRECT_APPEND \<longleftrightarrow> bit (flags h) 3" "has_flag h PIPE_IN \<longleftrightarrow> bit (flags h) 4"
  "has_flag h PIPE_OUT \<longleftrightarrow> bit (flags h) 5" "has_flag h BACKGROUND \<longleftrightarrow> bit (flags h) 6"
  unfolding has_flag_def flag_push bit_iff_and_push_bit_not_eq_0 by simp_all

lemma flag_bit:
  "bit REDIRECT_IN n \<longleftrightarrow> n = 0" "bit REDIRECT_OUT n \<longleftrightarrow> n = 2" "bit REDIRECT_APPEND n \<longleftrightarrow> n = 3"
  "bit PIPE_IN n \<longleftrightarrow> n = 4" "bit PIPE_OUT n \<longleftrightarrow> n = 5" "bit BACKGROUND n \<longleftrightarrow> n = 6"
  unfolding flag_push bit_push_bit_iff by (auto simp: bit_1_iff)

text \<open>The flags a command must have: whether it is the first and the last of its pipeline, and
  whether it or a later command is marked for the background.\<close>

definition flags_ok :: "bool \<Rightarrow> bool \<Rightarrow> bool \<Rightarrow> command_holder \<Rightarrow> bool" where
  "flags_ok first_cmd last_cmd back_ground h \<longleftrightarrow> has_flag h PIPE_IN = (\<not> first_cmd) \<and> has_flag h PIPE_OUT = (\<not> last_cmd)
     \<and> has_flag h REDIRECT_IN = (first_cmd \<and> redirect_in h \<noteq> None)
     \<and> has_flag h REDIRECT_OUT = (last_cmd \<and> redirect_out h \<noteq> None)
     \<and> (has_flag h REDIRECT_APPEND \<longrightarrow> has_flag h REDIRECT_OUT)
     \<and> has_flag h BACKGROUND = back_ground"

lemma redirect_append: "redirect_action E rs = Some r \<Longrightarrow> r_append r \<Longrightarrow> r_out r \<noteq> None"
  by (induction E rs arbitrary: r rule: redirect_action.induct)
    (auto simp: mk_redirect_def bind_eq_Some_conv split: mark.splits, (metis mark.exhaust)+)

lemma cmd_top_flags:
  assumes "cmd_top_action E t = Some h"
  shows "flags_ok True True (bg t) h"
  using assms redirect_append[of E "redirs t"]
  by (auto simp: cmd_top_action_def bind_eq_Some_conv Let_def mk_command_holder_def flags_ok_def
      has_flag_bit flag_bit bit_simps split: if_splits)

text \<open>In a list of holders, the one at \<open>k\<close>.\<close>

definition pipeline_ok :: "top_tree list \<Rightarrow> command_holder list \<Rightarrow> bool" where
  "pipeline_ok ts hs \<longleftrightarrow> length hs = length ts \<and> (\<forall>k<length hs.
     flags_ok (k = 0) (Suc k = length hs) (\<exists>t\<in>set (drop k ts). bg t) (hs ! k))"

lemma pipe_action_ok:
  assumes h: "flags_ok True True (bg t) h" and hs: "pipeline_ok ts hs" "hs \<noteq> []"
  shows "pipeline_ok (t # ts) (pipe_action h hs)"
proof -
  obtain prev rest where e: "hs = prev # rest" using hs(2) by (cases hs) auto
  let ?b = "has_flag prev BACKGROUND"
  have p: "flags_ok True (rest = []) ?b prev" and b: "?b = (\<exists>t\<in>set ts. bg t)"
    using hs(1) e by (auto simp: pipeline_ok_def flags_ok_def)
  define prev' where "prev' = prev\<lparr>flags := flags prev AND NOT REDIRECT_IN OR PIPE_IN\<rparr>"
  define h' where "h' = h\<lparr>flags := flags h AND NOT (REDIRECT_APPEND OR REDIRECT_OUT) OR PIPE_OUT\<rparr>"
  define h2 where "h2 = (if has_flag prev' BACKGROUND then h'\<lparr>flags := flags h' OR BACKGROUND\<rparr> else h')"
  have a: "pipe_action h hs = h2 # prev' # rest"
    by (simp add: pipe_action_def e prev'_def h'_def h2_def Let_def)
  have p': "flags_ok False (rest = []) ?b prev'"
    using p by (auto simp: flags_ok_def has_flag_bit prev'_def bit_simps flag_bit)
  have h2: "flags_ok True False (bg t \<or> ?b) h2"
    using h p' by (auto simp: flags_ok_def has_flag_bit h2_def h'_def bit_simps flag_bit)
  show ?thesis
    unfolding pipeline_ok_def a
  proof (intro conjI allI impI)
    show "length (h2 # prev' # rest) = length (t # ts)" using hs(1) e by (simp add: pipeline_ok_def)
    fix k assume k: "k < length (h2 # prev' # rest)"
    consider "k = 0" | "k = 1" | j where "k = Suc (Suc j)" by (metis One_nat_def not0_implies_Suc)
    then show "flags_ok (k = 0) (Suc k = length (h2 # prev' # rest)) (\<exists>t\<in>set (drop k (t # ts)). bg t)
        ((h2 # prev' # rest) ! k)"
    proof cases
      case 1
      then show ?thesis using h2 b by auto
    next
      case 2
      then show ?thesis using p' b by simp
    next
      case 3
      have "flags_ok (Suc j = 0) (Suc (Suc j) = length hs) (\<exists>t\<in>set (drop (Suc j) ts). bg t) (hs ! Suc j)"
        using hs(1) k e unfolding pipeline_ok_def 3 by (metis Suc_less_eq length_Cons)
      then show ?thesis using 3 e by simp
    qed
  qed
qed

lemma pipe_action_nonempty: "pipe_action h hs \<noteq> []"
  by (simp add: pipe_action_def Let_def split: list.split)

lemma cmds_action_ok: "cmds_action E t ts = Some hs \<Longrightarrow> pipeline_ok (t # ts) hs \<and> hs \<noteq> []"
proof (induction ts arbitrary: t hs)
  case Nil
  then show ?case using cmd_top_flags[of E t]
    by (auto simp: cmds_action.simps bind_eq_Some_conv pipeline_ok_def)
next
  case (Cons t' ts)
  from Cons.prems obtain h hs' where h: "cmd_top_action E t = Some h" "cmds_action E t' ts = Some hs'"
    "hs = pipe_action h hs'"
    by (subst (asm) cmds_action.simps) (auto simp: bind_eq_Some_conv)
  then show ?case using Cons.IH[OF h(2)] pipe_action_ok[OF cmd_top_flags[OF h(1)]] pipe_action_nonempty
    by simp
qed

section \<open>Joining words\<close>

lemma c_string_of_map: "NUL \<notin> set x \<Longrightarrow> c_string_of (map Some x @ Some NUL # r) = Some x"
  by (induction x) auto

text \<open>The buffer starts with the words so far, each with its blank, and has room for the others.\<close>

abbreviation joined :: "string list \<Rightarrow> string" where
  "joined ws \<equiv> concat (map (\<lambda>w. w @ '' '') ws)"

lemma condense_loop_ok:
  assumes "length rest = length (joined ws) + 1"
  shows "\<exists>b. condense_loop ws (map (\<lambda>w. length w + 1) ws) (map Some pre @ rest) (length pre)
    = Some (map Some (pre @ joined ws) @ [b], length (pre @ joined ws))"
  using assms
proof (induction ws arbitrary: pre rest)
  case Nil
  then show ?case by (cases rest) auto
next
  case (Cons w ws)
  define rest' where "rest' = drop (length w + 1) rest"
  have len: "length rest' = length (joined ws) + 1" using Cons.prems by (simp add: rest'_def)
  have cpy: "strcpy (map Some pre @ rest) (length pre) w = Some (map Some (pre @ w) @ Some NUL # rest')"
    using Cons.prems by (simp add: strcpy_def rest'_def)
  have put: "put_char (map Some (pre @ w) @ Some NUL # rest') (length (pre @ w)) CHR '' ''
      = Some (map Some (pre @ w @ '' '') @ rest')"
    by (simp add: put_char_def list_update_append)
  show ?case
    using Cons.IH[OF len, of "pre @ w @ '' ''"] cpy put by (simp add: Let_def)
qed

lemma condense_exact:
  assumes "\<forall>w\<in>set ws. NUL \<notin> set w"
  shows "condense_string_array (map Some ws @ None # rest) = Some (joined ws)"
proof -
  have words: "takeWhile (\<lambda>s. s \<noteq> None) (map Some ws @ None # rest) = map Some ws"
    by (induction ws) auto
  define ss where "ss = map (\<lambda>w. length w + 1) ws"
  have len: "sum_list ss = length (joined ws)"
    unfolding ss_def by (induction ws) auto
  obtain b where b: "condense_loop ws ss (replicate (length (joined ws) + 1) None) 0
      = Some (map Some (joined ws) @ [b], length (joined ws))"
    using condense_loop_ok[of "replicate (length (joined ws) + 1) None" ws "[]"] unfolding ss_def by auto
  have "NUL \<notin> set (joined ws)" using assms by (auto simp: NUL_def)
  then have s: "c_string_of (map Some (joined ws) @ [Some NUL]) = Some (joined ws)"
    using c_string_of_map[of "joined ws" "[]"] by simp
  have put: "put_char (map Some (joined ws) @ [b]) (length (joined ws)) NUL = Some (map Some (joined ws) @ [Some NUL])"
    by (simp add: put_char_def list_update_append)
  have "map the (takeWhile (\<lambda>s. s \<noteq> None) (map Some ws @ None # rest)) = ws"
    unfolding words by (simp add: comp_def)
  then show ?thesis
    unfolding condense_string_array_def Let_def
    by (simp only: ss_def[symmetric] len b put s Option.bind.bind_lunit prod.case)
qed

section \<open>Properties\<close>

text \<open>
  C20. The loop of \<open>interpret_complex_string_token\<close> over indices and a string builder, with its
  jumps over escapes and identifiers, computes the recursive expansion of the word; it never reads
  behind the terminator, and its assertion fails exactly when a quote stays open.\<close>

theorem interpret_is_expand:
  assumes "NUL \<notin> set s" "no_nul_env env"
  shows "interpret_complex_string_token env s
    = (if snd (expand env False s) then None else Some (fst (expand env False s)))"
  using interpret_expand[OF assms] .

theorem interpret_is_expand_witness:
  "interpret_complex_string_token [''HOME'' \<mapsto> ''/root''] ''$HOME/a'' = Some ''/root/a''"
proof -
  have "NUL \<notin> set ''$HOME/a''" "no_nul_env [''HOME'' \<mapsto> ''/root'']"
    by (auto simp: NUL_def no_nul_env_def)
  from interpret_is_expand[OF this] show ?thesis
    by (simp add: expand.simps(2) BACKSLASH_def QUOTE_def is_first_identifier_char_def
        is_identifier_char_def is_alpha_def is_digit_def onto_def)
qed



text \<open>
  A quoted word whose last character is a backslash written as two, which the lexer takes for a
  complete string, runs into the failing assertion: the shell stops. Inside quotes the lexer skips
  the character after any backslash, the expansion only a quote after it.\<close>

theorem quoted_backslash_aborts:
  "lex_string False [QUOTE, BACKSLASH, BACKSLASH, QUOTE]
    \<and> interpret_complex_string_token env [QUOTE, BACKSLASH, BACKSLASH, QUOTE] = None"
  by (simp add: BACKSLASH_def QUOTE_def interpret_complex_string_token_def interpret_loop.simps
      interpret_char_def char_at_def Let_def escapable_def update_last_def NUL_def)


definition word_line :: "string \<Rightarrow> bool \<Rightarrow> top_tree" where
  "word_line w b = \<lparr>content = CmdTree (SIM_STR w) [], redirs = [(REDIROUT, SIM_STR ''f'')], bg = b\<rparr>"


text \<open>
  C23. The string of a command line: the words of the commands up to the first \<open>NULL\<close>, each with a
  blank behind it. All writes and reads stay inside the buffer that was allocated.\<close>

theorem condense_joins:
  assumes "\<forall>w\<in>set ws. NUL \<notin> set w"
  shows "condense_string_array (map Some ws @ None # rest) = Some (concat (map (\<lambda>w. w @ '' '') ws))"
  using condense_exact[OF assms] .

theorem condense_joins_witness:
  "condense_string_array [Some ''cd'', None, Some ''&'', None] = Some ''cd ''"
  using condense_joins[of "[''cd'']" "[Some ''&'', None]"] by (simp add: NUL_def)

end
