(* ===== verification/Execute_Correct.thy ===== *)
theory Execute_Correct
  imports Execute ParseInterface_Correct "HOL-Library.Sublist"
begin

text \<open>
  What a command line does: the processes of a pipeline are connected by their pipes and no
  descriptor is left open, the job table keeps its order, and no assertion fails.
\<close>

section \<open>The loops over the jobs\<close>

definition signals :: "int \<Rightarrow> int \<Rightarrow> job list \<Rightarrow> (int \<times> int) list" where
  "signals sig n js = concat (map (\<lambda>j. if job_id j = n then map (\<lambda>pid. (pid, sig)) (pid_list j) else []) js)"

lemma kill_loop_ok:
  "bg_jobs s = xs @ ys \<Longrightarrow> kill_loop sig n (length xs) (k, s)
    = Some (k \<or> (\<exists>j\<in>set xs. job_id j = n), s\<lparr>bg_jobs := ys @ xs, signalled := signalled s @ signals sig n xs\<rparr>)"
proof (induction xs arbitrary: k s ys)
  case Nil
  then show ?case by (simp add: signals_def)
next
  case (Cons x xs)
  then show ?case
    using Cons.IH[of "s\<lparr>bg_jobs := xs @ ys @ [x], signalled := signalled s @ map (\<lambda>pid. (pid, sig)) (pid_list x)\<rparr>" "ys @ [x]" True]
      Cons.IH[of "s\<lparr>bg_jobs := xs @ ys @ [x]\<rparr>" "ys @ [x]" k]
    by (auto simp: signals_def Let_def)
qed

lemma run_kill_eq:
  "run_kill sig n s = Some ((if \<exists>j\<in>set (bg_jobs s). job_id j = n then id
     else complain (''ERR: job found with given id'' @ [CHR 0x0A]))
       (s\<lparr>signalled := signalled s @ signals sig n (bg_jobs s)\<rparr>))"
  using kill_loop_ok[of s "bg_jobs s" "[]" sig n False] by (auto simp: run_kill_def)

text \<open>A failed \<open>fork\<close> leaves -1 in the job, and \<open>kill\<close> on -1 signals every process of the user.\<close>

lemma kill_after_failed_fork:
  assumes "j \<in> set (bg_jobs s)" "- 1 \<in> set (pid_list j)" "run_kill sig (job_id j) s = Some t"
  shows "(- 1, sig) \<in> set (signalled t)"
proof -
  have "(- 1, sig) \<in> set (signals sig (job_id j) (bg_jobs s))"
    using assms(1,2) by (force simp: signals_def)
  then show ?thesis using assms(3) by (auto simp: run_kill_eq complain_def)
qed

text \<open>Waiting for a job with results that do not change, and with any results.\<close>

definition still_runs :: "(int \<Rightarrow> int) \<Rightarrow> job \<Rightarrow> bool" where
  "still_runs st j \<longleftrightarrow> (\<exists>p\<in>set (pid_list j). st p = 0)"

definition finished_message :: "job \<Rightarrow> string" where
  "finished_message j = print_job_bg_complete (job_id j) (hd (pid_list j)) (job_cmd j)"

lemma all_done_eq:
  assumes "\<And>k p. wait_result os k p = st p"
  shows "\<exists>m. all_done os ps s = (\<not> (\<exists>p\<in>set ps. st p = 0), s\<lparr>wait_calls := m\<rparr>)"
proof (induction ps arbitrary: s)
  case Nil
  show ?case by (rule exI[of _ "wait_calls s"]) simp
next
  case (Cons p ps)
  show ?case
  proof (cases "st p = 0")
    case True
    then show ?thesis using assms
      by (intro exI[of _ "Suc (wait_calls s)"]) (simp add: Let_def)
  next
    case False
    obtain m where "all_done os ps (s\<lparr>wait_calls := Suc (wait_calls s)\<rparr>)
        = (\<not> (\<exists>p\<in>set ps. st p = 0), s\<lparr>wait_calls := Suc (wait_calls s), wait_calls := m\<rparr>)"
      using Cons.IH by blast
    then show ?thesis using False assms by (intro exI[of _ m]) (simp add: Let_def)
  qed
qed

lemma check_jobs_loop_ok:
  assumes st: "\<And>k p. wait_result os k p = st p"
  shows "bg_jobs s = xs @ ys \<Longrightarrow> \<forall>j\<in>set xs. pid_list j \<noteq> [] \<Longrightarrow>
    \<exists>m. check_jobs_loop os (length xs) s = Some (s\<lparr>bg_jobs := ys @ filter (still_runs st) xs, wait_calls := m,
      out := out s @ map finished_message (filter (\<lambda>j. \<not> still_runs st j) xs)\<rparr>)"
proof (induction xs arbitrary: s ys)
  case Nil
  then have "s = s\<lparr>bg_jobs := ys, wait_calls := wait_calls s, out := out s\<rparr>" by simp
  then show ?case by (intro exI[of _ "wait_calls s"]) simp
next
  case (Cons x xs)
  obtain p ps where p: "pid_list x = p # ps" using Cons.prems(2) by (cases "pid_list x") auto
  obtain m where m: "all_done os (p # ps) (s\<lparr>bg_jobs := xs @ ys\<rparr>)
      = (\<not> still_runs st x, s\<lparr>bg_jobs := xs @ ys, wait_calls := m\<rparr>)"
    using all_done_eq[of os st "p # ps" "s\<lparr>bg_jobs := xs @ ys\<rparr>", OF st] p
    by (auto simp: still_runs_def simp del: all_done.simps)
  show ?case
  proof (cases "still_runs st x")
    case True
    then show ?thesis
      using Cons.IH[of "s\<lparr>wait_calls := m, bg_jobs := xs @ ys @ [x]\<rparr>" "ys @ [x]"] Cons.prems m p
      by (simp add: Let_def del: all_done.simps)
  next
    case False
    have "finished_message x = print_job_bg_complete (job_id x) p (job_cmd x)"
      by (simp add: finished_message_def p)
    then show ?thesis
      using False Cons.IH[of "s\<lparr>bg_jobs := xs @ ys, wait_calls := m, out := out s @ [finished_message x]\<rparr>" ys]
        Cons.prems m p
      by (simp add: Let_def emit_def del: all_done.simps)
  qed
qed

section \<open>One process\<close>

definition pwd_set :: "shell \<Rightarrow> bool" where
  "pwd_set s \<longleftrightarrow> environment s ''PWD'' \<noteq> None"

text \<open>What a builtin can change.\<close>

definition builtin_frame :: "shell \<Rightarrow> shell \<Rightarrow> bool" where
  "builtin_frame s t \<longleftrightarrow> (\<exists>e c g r. t = s\<lparr>environment := e, cwd := c, signalled := g, err := r\<rparr>)"

lemma builtin_frameI:
  "builtin_frame s (s\<lparr>environment := e, cwd := c, signalled := g, err := r\<rparr>)"
  unfolding builtin_frame_def by blast

lemma builtin_same: "builtin_frame s s"
  using builtin_frameI[where s = s and e = "environment s" and c = "cwd s" and g = "signalled s" and r = "err s"] by simp

lemma parent_run_ok:
  assumes "pwd_set s"
  shows "\<exists>t. parent_run_command os c s = Some t \<and> builtin_frame s t \<and> pwd_set t"
proof (cases c)
  case (Export v x)
  then show ?thesis using assms builtin_frameI[where s = s and e = "(environment s)(v := Some x)" and c = "cwd s" and g = "signalled s" and r = "err s"]
    by (auto simp: parent_run_command_def run_export_def pwd_set_def)
next
  case (Cd d)
  show ?thesis
  proof (cases d)
    case None
    then show ?thesis using Cd assms
        builtin_frameI[where s = s and e = "environment s" and c = "cwd s" and g = "signalled s" and r = "err s @ [''ERROR: Failed to resolve path'']"]
      by (simp add: parent_run_command_def run_cd_def complain_def pwd_set_def)
  next
    case (Some p)
    obtain w where w: "environment s ''PWD'' = Some w" using assms by (auto simp: pwd_set_def)
    then have "parent_run_command os c s = Some (s\<lparr>environment :=
        (environment s)(''OLD_PWD'' := Some w, ''PWD'' := Some p), cwd := (case chdir os (cwd s) p of Some c \<Rightarrow> c | None \<Rightarrow> cwd s),
        signalled := signalled s, err := err s\<rparr>)"
      using Cd Some by (cases "chdir os (cwd s) p") (simp_all add: parent_run_command_def run_cd_def lookup_env_def Let_def)
    then show ?thesis using builtin_frameI[where s = s and e = "(environment s)(''OLD_PWD'' := Some w, ''PWD'' := Some p)"
        and c = "case chdir os (cwd s) p of Some c \<Rightarrow> c | None \<Rightarrow> cwd s" and g = "signalled s" and r = "err s"]
      by (simp only: pwd_set_def) simp
  qed
next
  case (Kill sig n a b)
  let ?g = "signalled s @ signals sig n (bg_jobs s)"
  show ?thesis using Kill assms builtin_frameI[where s = s and e = "environment s" and c = "cwd s" and g = ?g and r = "err s"]
      builtin_frameI[where s = s and e = "environment s" and c = "cwd s" and g = ?g and r = "err s @ [''ERR: job found with given id'' @ [CHR 0x0A]]"]
    by (simp add: parent_run_command_def run_kill_eq complain_def pwd_set_def)
qed (use assms builtin_same in \<open>simp_all add: parent_run_command_def\<close>)

definition new_child :: "os \<Rightarrow> command_holder \<Rightarrow> shell \<Rightarrow> child list" where
  "new_child os h s = (let pid = fork_result os (fork_calls s) in if pid > 0 then
     [\<lparr>child_pid = pid, child_fds = child_table os h (do_pipe (cur_pipe s) s),
       child_act = child_run_command (cmd h) (do_pipe (cur_pipe s) s)\<rparr>] else [])"

lemma do_pipe_same [simp]:
  "cur_pipe (do_pipe i s) = cur_pipe s" "old_pipe (do_pipe i s) = old_pipe s"
  "current_job (do_pipe i s) = current_job s" "bg_jobs (do_pipe i s) = bg_jobs s"
  "globals_created (do_pipe i s) = globals_created s" "environment (do_pipe i s) = environment s"
  "cwd (do_pipe i s) = cwd s" "children (do_pipe i s) = children s" "fork_calls (do_pipe i s) = fork_calls s"
  "wait_calls (do_pipe i s) = wait_calls s" "waited (do_pipe i s) = waited s"
  "signalled (do_pipe i s) = signalled s" "out (do_pipe i s) = out s" "quash (do_pipe i s) = quash s"
  "length (fds (do_pipe i s)) = length (fds s)"
  by (simp_all add: do_pipe_def split: list.split)

lemma child_table_same: "fds t = fds s \<Longrightarrow> pipes t = pipes s \<Longrightarrow> old_pipe t = old_pipe s
    \<Longrightarrow> cur_pipe t = cur_pipe s \<Longrightarrow> child_table os h t = child_table os h s"
  by (simp add: child_table_def)

lemma child_run_same: "bg_jobs t = bg_jobs s \<Longrightarrow> cwd t = cwd s \<Longrightarrow> child_run_command c t = child_run_command c s"
  by (simp add: child_run_command_def run_pwd_def get_current_directory_def split: command.split)

text \<open>The state after a process was created, apart from what builtins change.\<close>

definition created_process :: "os \<Rightarrow> command_holder \<Rightarrow> shell \<Rightarrow> shell" where
  "created_process os h s = (close_pipe (old_pipe s) (do_pipe (cur_pipe s) s))
     \<lparr>fork_calls := Suc (fork_calls s), current_job := current_job s @ [fork_result os (fork_calls s)],
      children := children s @ new_child os h s, old_pipe := cur_pipe s, cur_pipe := (cur_pipe s + 1) mod 2\<rparr>"

lemma create_process_ok:
  assumes "pwd_set s"
  shows "\<exists>t. create_process os h s = Some t \<and> builtin_frame (created_process os h s) t \<and> pwd_set t"
proof -
  let ?s1 = "do_pipe (cur_pipe s) s" and ?pid = "fork_result os (fork_calls s)"
  define s2 where "s2 = ?s1\<lparr>fork_calls := Suc (fork_calls s), current_job := current_job s @ [?pid]\<rparr>"
  define s3 where "s3 = s2\<lparr>children := children s @ new_child os h s\<rparr>"
  have c: "child_table os h s2 = child_table os h ?s1" "child_run_command (cmd h) s2 = child_run_command (cmd h) ?s1"
    unfolding s2_def by (rule child_table_same, simp_all) (rule child_run_same, simp_all)
  have s3: "(if ?pid > 0 then s2\<lparr>children := children s2 @
      [\<lparr>child_pid = ?pid, child_fds = child_table os h s2, child_act = child_run_command (cmd h) s2\<rparr>]\<rparr> else s2) = s3"
    unfolding s3_def new_child_def c Let_def by (simp add: s2_def)
  have "pwd_set s3" using assms by (simp add: pwd_set_def s3_def s2_def)
  then obtain t where t: "parent_run_command os (cmd h) s3 = Some t" "builtin_frame s3 t" "pwd_set t"
    using parent_run_ok by blast
  have "create_process os h s = Some ((close_pipe (old_pipe t) t)\<lparr>old_pipe := cur_pipe t, cur_pipe := (cur_pipe t + 1) mod 2\<rparr>)"
    unfolding create_process_def Let_def do_pipe_same s2_def[symmetric] s3 t(1)
    by (simp add: close_pipe_def)
  moreover obtain e c g r where t': "t = s3\<lparr>environment := e, cwd := c, signalled := g, err := r\<rparr>"
    using t(2) unfolding builtin_frame_def by blast
  have "(close_pipe (old_pipe t) t)\<lparr>old_pipe := cur_pipe t, cur_pipe := (cur_pipe t + 1) mod 2\<rparr>
      = (created_process os h s)\<lparr>environment := e, cwd := c, signalled := g, err := r\<rparr>"
    by (rule shell.equality) (simp_all add: t' created_process_def s3_def s2_def close_pipe_def)
  then have "builtin_frame (created_process os h s)
      ((close_pipe (old_pipe t) t)\<lparr>old_pipe := cur_pipe t, cur_pipe := (cur_pipe t + 1) mod 2\<rparr>)"
    by (simp only: builtin_frameI)
  ultimately show ?thesis using t(3) by (simp add: pwd_set_def close_pipe_def)
qed

section \<open>All processes of a command line\<close>

definition pids_of :: "os \<Rightarrow> nat \<Rightarrow> nat \<Rightarrow> int list" where
  "pids_of os k n = map (fork_result os) [k..<k + n]"

lemma pids_of_Suc: "pids_of os k (Suc n) = fork_result os k # pids_of os (Suc k) n"
  by (simp add: pids_of_def upt_conv_Cons del: upt_Suc)

definition proper :: "command_holder list \<Rightarrow> bool" where
  "proper hs \<longleftrightarrow> hs \<noteq> [] \<and> (\<forall>h\<in>set hs. cmd h \<noteq> Eoc)"

lemma close_pipe_same [simp]:
  "current_job (close_pipe i s) = current_job s" "bg_jobs (close_pipe i s) = bg_jobs s"
  "globals_created (close_pipe i s) = globals_created s" "environment (close_pipe i s) = environment s"
  "children (close_pipe i s) = children s" "fork_calls (close_pipe i s) = fork_calls s"
  "wait_calls (close_pipe i s) = wait_calls s" "waited (close_pipe i s) = waited s"
  "out (close_pipe i s) = out s" "quash (close_pipe i s) = quash s" "pipes (close_pipe i s) = pipes s"
  "pipes_made (close_pipe i s) = pipes_made s" "old_pipe (close_pipe i s) = old_pipe s"
  "cur_pipe (close_pipe i s) = cur_pipe s" "length (fds (close_pipe i s)) = length (fds s)"
  by (simp_all add: close_pipe_def close_fd_def)

lemma eoc_type [simp]: "get_command_holder_type eoc_holder = EOC"
  by (simp add: get_command_holder_type_def eoc_holder_def mk_command_holder_def mk_eoc_def)

lemma eoc_cmd [simp]: "cmd eoc_holder = Eoc"
  by (simp add: eoc_holder_def mk_command_holder_def mk_eoc_def)

lemma create_processes_jobs:
  assumes "pwd_set s" "\<forall>h\<in>set hs. cmd h \<noteq> Eoc"
  shows "\<exists>t. create_processes os (hs @ [eoc_holder]) s = Some t \<and> pwd_set t \<and> bg_jobs t = bg_jobs s
    \<and> current_job t = current_job s @ pids_of os (fork_calls s) (length hs) \<and> out t = out s
    \<and> waited t = waited s \<and> quash t = quash s \<and> globals_created t = globals_created s"
  using assms
proof (induction hs arbitrary: s)
  case Nil
  then show ?case by (simp add: pids_of_def)
next
  case (Cons h hs)
  obtain u where u: "create_process os h s = Some u" "builtin_frame (created_process os h s) u" "pwd_set u"
    using create_process_ok[OF Cons.prems(1)] by blast
  have f: "bg_jobs u = bg_jobs s \<and> current_job u = current_job s @ [fork_result os (fork_calls s)] \<and> out u = out s
    \<and> waited u = waited s \<and> quash u = quash s \<and> globals_created u = globals_created s
    \<and> fork_calls u = Suc (fork_calls s)"
    using u(2) by (auto simp: builtin_frame_def created_process_def)
  have "get_command_holder_type h \<noteq> EOC" using Cons.prems(2) by (simp add: get_command_holder_type_def)
  then show ?case
    using Cons.IH[OF u(3)] Cons.prems(2) u(1) f by (simp add: pids_of_Suc)
qed

section \<open>The descriptors\<close>

abbreviation shell_fds :: "nat \<Rightarrow> fd_table" where
  "shell_fds N \<equiv> std N (Inherited 0) (Inherited 1)"

text \<open>The shell between two commands: the ends of the old pipe, whose number is \<open>n\<close>, are open.\<close>

definition slots_ok :: "shell \<Rightarrow> bool" where
  "slots_ok s \<longleftrightarrow> length (pipes s) = 2 \<and> (cur_pipe s = 0 \<and> old_pipe s = 1 \<or> cur_pipe s = 1 \<and> old_pipe s = 0)"

definition piped :: "nat \<Rightarrow> nat \<Rightarrow> shell \<Rightarrow> bool" where
  "piped N n s \<longleftrightarrow> slots_ok s \<and> pipes_made s = Suc n \<and> (\<exists>r w. pipes s ! old_pipe s = (r, w) \<and> 3 \<le> r \<and> 3 \<le> w
     \<and> r < N \<and> w < N \<and> r \<noteq> w \<and> fds s = (shell_fds N)[r := Some (PipeR n), w := Some (PipeW n)])"

lemma do_pipe_first:
  assumes "slots_ok s" "fds s = shell_fds N" "7 \<le> N"
  shows "piped N (pipes_made s) (do_pipe (old_pipe s) s)"
proof -
  have "{i. i < length (fds s) \<and> fds s ! i \<noteq> None} \<subseteq> {0, 1, 2}" using assms(2) by (auto split: if_splits)
  then obtain r w rest where f: "free_fds (fds s) = r # w # rest"
    using free_fds_two[of "{0, 1, 2}" "fds s"] assms(2,3) by (auto simp: card_insert_if)
  have "r < N \<and> w < N \<and> r \<noteq> w \<and> 3 \<le> r \<and> 3 \<le> w"
    using free_fdsD[OF f] assms(2) by (auto split: if_splits)
  then show ?thesis
    using assms f by (auto simp: piped_def do_pipe_def slots_ok_def)
qed

lemma redirect_eq:
  assumes "free_fds t \<noteq> []" "target < 3" "\<forall>i<3. t ! i \<noteq> None" "3 \<le> length t"
  shows "redirect ch target t = (case ch of None \<Rightarrow> t | Some c \<Rightarrow> t[target := Some c])"
proof (cases ch)
  case (Some c)
  obtain fd rest where f: "free_fds t = fd # rest" using assms(1) by (cases "free_fds t") auto
  then have "fd \<in> set (free_fds t)" by simp
  then have fd: "fd < length t" "t ! fd = None" by (auto simp: free_fds_def)
  then have "\<not> fd < 3" using assms(3) by auto
  then have "fd \<noteq> target" using assms(2) by simp
  moreover from fd have "t[fd := None] = t" by (simp add: list_update_same_conv)
  ultimately show ?thesis using f fd Some
    by (simp add: redirect_def close_fd_def dup2_def list_update_swap[of target fd])
qed (simp add: redirect_def)

text \<open>What the child reads and writes.\<close>

definition input_of :: "os \<Rightarrow> command_holder \<Rightarrow> nat \<Rightarrow> channel" where
  "input_of os h n = (case redirect_in h of
     Some f \<Rightarrow> if has_flag h REDIRECT_IN \<and> can_read os f then InFile f
       else if has_flag h PIPE_IN then PipeR n else Inherited 0
   | None \<Rightarrow> if has_flag h PIPE_IN then PipeR n else Inherited 0)"

definition output_of :: "os \<Rightarrow> command_holder \<Rightarrow> nat \<Rightarrow> channel" where
  "output_of os h n = (case redirect_out h of
     Some f \<Rightarrow> if has_flag h REDIRECT_OUT \<and> can_write os f then OutFile f (has_flag h REDIRECT_APPEND)
       else if has_flag h PIPE_OUT then PipeW n else Inherited 1
   | None \<Rightarrow> if has_flag h PIPE_OUT then PipeW n else Inherited 1)"

lemma redirect_std:
  assumes "4 \<le> N"
  shows "redirect ch 0 (std N i u) = std N (case ch of None \<Rightarrow> i | Some c \<Rightarrow> c) u"
    "redirect ch 1 (std N i u) = std N i (case ch of None \<Rightarrow> u | Some c \<Rightarrow> c)"
proof -
  have t: "free_fds (std N i u) \<noteq> []" "\<forall>k<3. std N i u ! k \<noteq> None" "3 \<le> length (std N i u)"
    using assms by (simp_all add: free_std)
  show "redirect ch 0 (std N i u) = std N (case ch of None \<Rightarrow> i | Some c \<Rightarrow> c) u"
    using redirect_eq[OF t(1) _ t(2,3), of 0 ch] assms by (simp add: std_update split: option.split)
  show "redirect ch 1 (std N i u) = std N i (case ch of None \<Rightarrow> u | Some c \<Rightarrow> c)"
    using redirect_eq[OF t(1) _ t(2,3), of 1 ch] assms
    by (simp add: std_update del: One_nat_def split: option.split)
qed

lemma do_pipe_second:
  assumes "piped N n s" "7 \<le> N"
  shows "\<exists>r w c d. apart N [r, w, c, d] \<and> pipes (do_pipe (cur_pipe s) s) ! old_pipe s = (r, w)
    \<and> pipes (do_pipe (cur_pipe s) s) ! cur_pipe s = (c, d) \<and> length (pipes (do_pipe (cur_pipe s) s)) = 2
    \<and> fds (do_pipe (cur_pipe s) s) = two_pipes N (Inherited 0) (Inherited 1) n r w c d
    \<and> pipes_made (do_pipe (cur_pipe s) s) = Suc (Suc n)"
proof -
  obtain r w where rw: "pipes s ! old_pipe s = (r, w)" "3 \<le> r" "3 \<le> w" "r < N" "w < N" "r \<noteq> w"
    "fds s = (shell_fds N)[r := Some (PipeR n), w := Some (PipeW n)]" and ok: "slots_ok s" "pipes_made s = Suc n"
    using assms(1) by (auto simp: piped_def)
  have len: "length (fds s) = N" by (simp add: rw(7))
  have "{i. i < length (fds s) \<and> fds s ! i \<noteq> None} \<subseteq> {0, 1, 2, r, w}"
    using rw by (auto simp: nth_list_update split: if_splits)
  moreover have "card {0, 1, 2, r, w} \<le> 5" by (auto simp: card_insert_if)
  ultimately obtain c d rest where f: "free_fds (fds s) = c # d # rest"
    using free_fds_two[of "{0, 1, 2, r, w}" "fds s"] assms(2) len by auto
  have cd: "c < N" "d < N" "c \<noteq> d" "fds s ! c = None" "fds s ! d = None"
    using free_fdsD[OF f] len by auto
  then have "apart N [r, w, c, d]"
    using rw by (auto simp: apart_def nth_list_update three_le split: if_splits)
  then show ?thesis
    using rw ok f by (intro exI[of _ r] exI[of _ w] exI[of _ c] exI[of _ d])
      (auto simp: do_pipe_def slots_ok_def two_pipes_def)
qed

lemma child_table_piped:
  assumes "piped N n s" "7 \<le> N"
  shows "child_table os h (do_pipe (cur_pipe s) s) = std N (input_of os h n) (output_of os h (Suc n))"
proof -
  obtain r w c d where p: "apart N [r, w, c, d]" "pipes (do_pipe (cur_pipe s) s) ! old_pipe s = (r, w)"
    "pipes (do_pipe (cur_pipe s) s) ! cur_pipe s = (c, d)"
    "fds (do_pipe (cur_pipe s) s) = two_pipes N (Inherited 0) (Inherited 1) n r w c d"
    using do_pipe_second[OF assms] by blast
  have N: "4 \<le> N" using assms(2) by simp
  define i u where "i = (if has_flag h PIPE_IN then PipeR n else Inherited 0)"
    and "u = (if has_flag h PIPE_OUT then PipeW (Suc n) else Inherited 1)"
  define t where "t = (if has_flag h PIPE_OUT
     then dup2 d 1 (if has_flag h PIPE_IN then dup2 r 0 (two_pipes N (Inherited 0) (Inherited 1) n r w c d)
       else two_pipes N (Inherited 0) (Inherited 1) n r w c d)
     else if has_flag h PIPE_IN then dup2 r 0 (two_pipes N (Inherited 0) (Inherited 1) n r w c d)
       else two_pipes N (Inherited 0) (Inherited 1) n r w c d)"
  have "t = two_pipes N i u n r w c d"
    unfolding t_def i_def u_def by (simp only: two_pipes_dup[OF p(1)] if_True if_False split: if_split) simp
  then have t: "close_fd w (close_fd r (close_fd d (close_fd c t))) = std N i u"
    using two_pipes_close(1)[OF p(1)] by simp
  show ?thesis
    unfolding child_table_def do_pipe_same p(2,3,4) Let_def prod.case t_def[symmetric] t
    by (simp add: redirect_std[OF N] input_of_def output_of_def i_def u_def del: One_nat_def split: option.split)
qed

lemma created_piped:
  assumes "piped N n s" "7 \<le> N"
  shows "piped N (Suc n) (created_process os h s)"
proof -
  obtain r w c d where p: "apart N [r, w, c, d]" "pipes (do_pipe (cur_pipe s) s) ! old_pipe s = (r, w)"
    "pipes (do_pipe (cur_pipe s) s) ! cur_pipe s = (c, d)" "length (pipes (do_pipe (cur_pipe s) s)) = 2"
    "fds (do_pipe (cur_pipe s) s) = two_pipes N (Inherited 0) (Inherited 1) n r w c d"
    "pipes_made (do_pipe (cur_pipe s) s) = Suc (Suc n)"
    using do_pipe_second[OF assms] by blast
  have "slots_ok s" using assms(1) by (simp add: piped_def)
  then show ?thesis
    using p two_pipes_close(2)[OF p(1)]
    by (auto simp: piped_def created_process_def slots_ok_def close_pipe_def apart_def)
qed

lemma created_frame_piped: "builtin_frame s t \<Longrightarrow> piped N n t = piped N n s"
  by (auto simp: builtin_frame_def piped_def slots_ok_def)

lemma create_processes_piped:
  assumes "pwd_set s" "piped N n s" "7 \<le> N" "\<forall>h\<in>set hs. cmd h \<noteq> Eoc"
    "create_processes os (hs @ [eoc_holder]) s = Some t"
  shows "piped N (n + length hs) t \<and> ((\<forall>k. 0 < fork_result os k) \<longrightarrow>
    (\<exists>new. children t = children s @ new \<and> map child_pid new = pids_of os (fork_calls s) (length hs)
    \<and> map child_fds new = map (\<lambda>k. std N (input_of os (hs ! k) (n + k)) (output_of os (hs ! k) (Suc (n + k)))) [0..<length hs]))"
  using assms(1,2,4,5)
proof (induction hs arbitrary: s n)
  case Nil
  then show ?case by (simp add: pids_of_def)
next
  case (Cons h hs)
  obtain u where u: "create_process os h s = Some u" "builtin_frame (created_process os h s) u" "pwd_set u"
    using create_process_ok[OF Cons.prems(1)] by blast
  have p: "piped N (Suc n) u"
    using created_piped[OF Cons.prems(2) assms(3)] created_frame_piped[OF u(2)] by simp
  have "get_command_holder_type h \<noteq> EOC" using Cons.prems(3) by (simp add: get_command_holder_type_def)
  then have t: "create_processes os (hs @ [eoc_holder]) u = Some t" using Cons.prems(4) u(1) by simp
  have c: "\<forall>h\<in>set hs. cmd h \<noteq> Eoc" using Cons.prems(3) by simp
  have k: "fork_calls u = Suc (fork_calls s)" "children u = children s @ new_child os h s"
    using u(2) by (auto simp: builtin_frame_def created_process_def)
  note ih = Cons.IH[OF u(3) p c t]
  have "\<exists>new. children t = children s @ new \<and> map child_pid new = pids_of os (fork_calls s) (length (h # hs))
      \<and> map child_fds new = map (\<lambda>k. std N (input_of os ((h # hs) ! k) (n + k))
        (output_of os ((h # hs) ! k) (Suc (n + k)))) [0..<length (h # hs)]"
    if forks: "\<forall>k. 0 < fork_result os k"
  proof -
    obtain new where new: "children t = children u @ new" "map child_pid new = pids_of os (Suc (fork_calls s)) (length hs)"
      "map child_fds new = map (\<lambda>k. std N (input_of os (hs ! k) (Suc n + k)) (output_of os (hs ! k) (Suc (Suc n + k)))) [0..<length hs]"
      using ih forks k(1) by auto
    show ?thesis
      using new k(2) forks child_table_piped[OF Cons.prems(2) assms(3), of os h]
      by (intro exI[of _ "new_child os h s @ new"])
        (simp add: new_child_def Let_def pids_of_Suc map_upt_Suc_cons del: upt_Suc)
  qed
  then show ?case using ih by simp
qed

section \<open>A whole command line\<close>

lemma all_done_total: "\<exists>b m. all_done os ps s = (b, s\<lparr>wait_calls := m\<rparr>)"
proof (induction ps arbitrary: s)
  case Nil
  show ?case by (intro exI[of _ True] exI[of _ "wait_calls s"]) simp
next
  case (Cons p ps)
  obtain b m where "all_done os ps (s\<lparr>wait_calls := Suc (wait_calls s)\<rparr>)
      = (b, s\<lparr>wait_calls := Suc (wait_calls s), wait_calls := m\<rparr>)"
    using Cons.IH by blast
  then show ?case
    by (cases "wait_result os (wait_calls s) p = 0") (auto simp: Let_def)
qed

lemma check_jobs_loop_total:
  "bg_jobs s = xs @ ys \<Longrightarrow> \<forall>j\<in>set xs. pid_list j \<noteq> [] \<Longrightarrow>
    \<exists>js m ws. check_jobs_loop os (length xs) s = Some (s\<lparr>bg_jobs := ys @ js, wait_calls := m, out := ws\<rparr>)
      \<and> subseq js xs"
proof (induction xs arbitrary: s ys)
  case Nil
  then have "s = s\<lparr>bg_jobs := ys, wait_calls := wait_calls s, out := out s\<rparr>" by simp
  then show ?case by (intro exI[of _ "[]"] exI[of _ "wait_calls s"] exI[of _ "out s"]) simp
next
  case (Cons x xs)
  obtain p ps where p: "pid_list x = p # ps" using Cons.prems(2) by (cases "pid_list x") auto
  obtain b m where m: "all_done os (p # ps) (s\<lparr>bg_jobs := xs @ ys\<rparr>) = (b, s\<lparr>bg_jobs := xs @ ys, wait_calls := m\<rparr>)"
    using all_done_total by blast
  show ?case
  proof (cases b)
    case True
    obtain js m' ws where "check_jobs_loop os (length xs)
        (s\<lparr>bg_jobs := xs @ ys, wait_calls := m, out := out s @ [print_job_bg_complete (job_id x) p (job_cmd x)]\<rparr>)
      = Some (s\<lparr>bg_jobs := ys @ js, wait_calls := m', out := ws\<rparr>)" "subseq js xs"
      using Cons.IH[of "s\<lparr>bg_jobs := xs @ ys, wait_calls := m,
        out := out s @ [print_job_bg_complete (job_id x) p (job_cmd x)]\<rparr>" ys] Cons.prems(2) by auto
    then show ?thesis using True Cons.prems(1) m p
      by (intro exI[of _ js] exI[of _ m'] exI[of _ ws]) (simp add: Let_def emit_def list_emb_Cons del: all_done.simps)
  next
    case False
    obtain js m' ws where "check_jobs_loop os (length xs) (s\<lparr>wait_calls := m, bg_jobs := xs @ ys @ [x]\<rparr>)
      = Some (s\<lparr>bg_jobs := ys @ x # js, wait_calls := m', out := ws\<rparr>)" "subseq js xs"
      using Cons.IH[of "s\<lparr>wait_calls := m, bg_jobs := xs @ ys @ [x]\<rparr>" "ys @ [x]"] Cons.prems(2) by auto
    then show ?thesis using False Cons.prems(1) m p
      by (intro exI[of _ "x # js"] exI[of _ m'] exI[of _ ws]) (simp add: Let_def del: all_done.simps)
  qed
qed

text \<open>The job table: processes in every job, and numbers that increase.\<close>

definition jobs_ok :: "job list \<Rightarrow> bool" where
  "jobs_ok js \<longleftrightarrow> (\<forall>j\<in>set js. pid_list j \<noteq> [] \<and> 0 < job_id j) \<and> sorted_wrt (\<lambda>i j. job_id i < job_id j) js"

definition next_id :: "job list \<Rightarrow> int" where
  "next_id js = (if js = [] then 1 else job_id (last js) + 1)"

definition shell_ok :: "shell \<Rightarrow> bool" where
  "shell_ok s \<longleftrightarrow> pwd_set s \<and> parsed_str (quash s) \<noteq> None \<and> current_job s = [] \<and> jobs_ok (bg_jobs s)
     \<and> (globals_created s \<or> bg_jobs s = [])"

definition fds_ok :: "nat \<Rightarrow> shell \<Rightarrow> bool" where
  "fds_ok N s \<longleftrightarrow> 7 \<le> N \<and> slots_ok s \<and> fds s = shell_fds N"

lemma sorted_subseq: "subseq xs ys \<Longrightarrow> sorted_wrt P ys \<Longrightarrow> sorted_wrt P xs"
  by (induction rule: list_emb.induct) (auto dest: list_emb_set)

lemma jobs_ok_subseq: "subseq xs ys \<Longrightarrow> jobs_ok ys \<Longrightarrow> jobs_ok xs"
  using sorted_subseq[of xs ys] by (auto simp: jobs_ok_def dest: subseq_order.order_trans list_emb_set)

lemma jobs_ok_snoc:
  assumes "jobs_ok js" "pids \<noteq> []"
  shows "jobs_ok (js @ [\<lparr>job_id = next_id js, job_cmd = w, pid_list = pids\<rparr>])"
proof -
  have "job_id j < next_id js" if "j \<in> set js" for j
  proof -
    obtain ys y where e: "js = ys @ [y]" using \<open>j \<in> set js\<close> by (cases js rule: rev_cases) auto
    then show ?thesis using assms(1) that by (auto simp: jobs_ok_def next_id_def sorted_wrt_append)
  qed
  moreover have "0 < next_id js" using assms(1) by (auto simp: jobs_ok_def next_id_def) (use last_in_set in fastforce)
  ultimately show ?thesis using assms by (auto simp: jobs_ok_def sorted_wrt_append)
qed

lemma init_globals_ok:
  assumes "shell_ok s"
  shows "init_globals s = s\<lparr>globals_created := True\<rparr>"
  using assms by (cases "globals_created s") (auto simp: shell_ok_def init_globals_def)

text \<open>Everything between the check of the jobs and the end, for a line that is not \<open>exit\<close>.\<close>

definition after_check :: "os \<Rightarrow> command_holder list \<Rightarrow> shell \<Rightarrow> shell option" where
  "after_check os hs s = Option.bind (create_processes os (hs @ [eoc_holder]) (do_pipe (old_pipe s) s)) (\<lambda>s.
     let s = close_pipe (old_pipe s) s in
     if \<not> has_flag (hd hs) BACKGROUND then Some (wait_foreground s) else start_background s)"

definition is_exit :: "command_holder list \<Rightarrow> bool" where
  "is_exit hs \<longleftrightarrow> cmd (hd hs) = Exit \<and> length hs = 1"

lemma run_script_eq:
  assumes "shell_ok s" "proper hs"
  shows "run_script os (Some (hs @ [eoc_holder])) s
    = Option.bind (check_jobs_bg_status os (s\<lparr>globals_created := True\<rparr>))
        (\<lambda>s. if is_exit hs then Some (end_main_loop s) else after_check os hs s)"
proof -
  obtain h rest where h: "hs = h # rest" using assms(2) by (cases hs) (auto simp: proper_def)
  have "get_command_holder_type (hd (rest @ [eoc_holder])) = EOC \<longleftrightarrow> rest = []"
    using assms(2) h by (cases rest) (auto simp: proper_def get_command_holder_type_def)
  then show ?thesis
    using h by (simp add: run_script_def init_globals_ok[OF assms(1)] is_exit_def after_check_def
        get_command_holder_type_def cong: if_cong)
qed

lemma after_check_ok:
  fixes os :: os
  assumes "pwd_set s" "parsed_str (quash s) = Some w" "current_job s = []" "proper hs"
  defines "new \<equiv> pids_of os (fork_calls s) (length hs)"
  defines "j \<equiv> \<lparr>job_id = next_id (bg_jobs s), job_cmd = w, pid_list = new\<rparr>"
  shows "\<exists>t. after_check os hs s = Some t \<and> pwd_set t \<and> quash t = quash s \<and> current_job t = []
    \<and> globals_created t = globals_created s
    \<and> (if has_flag (hd hs) BACKGROUND
       then bg_jobs t = bg_jobs s @ [j] \<and> waited t = waited s
         \<and> out t = out s @ [print_job_bg_start (job_id j) (hd new) w]
       else bg_jobs t = bg_jobs s \<and> waited t = waited s @ new \<and> out t = out s)"
proof -
  have hs: "\<forall>h\<in>set hs. cmd h \<noteq> Eoc" "hs \<noteq> []" using assms(4) by (auto simp: proper_def)
  have "pwd_set (do_pipe (old_pipe s) s)" using assms(1) by (simp add: pwd_set_def)
  from create_processes_jobs[OF this hs(1), of os] obtain t where
    t: "create_processes os (hs @ [eoc_holder]) (do_pipe (old_pipe s) s) = Some t" "pwd_set t"
      "bg_jobs t = bg_jobs s" "current_job t = new" "out t = out s" "waited t = waited s" "quash t = quash s"
      "globals_created t = globals_created s"
    using assms(3) by (auto simp: new_def)
  have new: "new \<noteq> []" "new = hd new # tl new"
    using hs(2) by (simp_all add: new_def pids_of_def)
  then have bk: "start_background (close_pipe (old_pipe t) t) = Some (emit (print_job_bg_start (job_id j) (hd new) w)
      ((close_pipe (old_pipe t) t)\<lparr>current_job := [], bg_jobs := bg_jobs s @ [j]\<rparr>))"
    using t assms(2) by (simp add: start_background_def create_job_def get_command_string_def get_next_job_number_def next_id_def j_def
        split: list.split)
  show ?thesis
    using t bk by (simp add: after_check_def Let_def wait_foreground_def pwd_set_def emit_def)
qed

lemma start_background_frame:
  assumes "start_background s = Some t"
  shows "fds t = fds s \<and> slots_ok t = slots_ok s \<and> children t = children s"
proof -
  obtain j where j: "(case pid_list j of [] \<Rightarrow> None | pid # _ \<Rightarrow> Some (emit (print_job_bg_start (job_id j) pid (job_cmd j))
      (s\<lparr>current_job := [], bg_jobs := bg_jobs s @ [j]\<rparr>))) = Some t"
    using assms by (auto simp: start_background_def bind_eq_Some_conv)
  then show ?thesis by (cases "pid_list j") (auto simp: emit_def slots_ok_def)
qed

lemma after_check_fds:
  assumes "pwd_set s" "proper hs" "fds_ok N s" "after_check os hs s = Some t"
  shows "fds_ok N t \<and> ((\<forall>k. 0 < fork_result os k) \<longrightarrow> (\<exists>new. children t = children s @ new
    \<and> map child_pid new = pids_of os (fork_calls s) (length hs)
    \<and> map child_fds new = map (\<lambda>k. std N (input_of os (hs ! k) (pipes_made s + k))
        (output_of os (hs ! k) (Suc (pipes_made s + k)))) [0..<length hs]))"
proof -
  have hs: "\<forall>h\<in>set hs. cmd h \<noteq> Eoc" using assms(2) by (auto simp: proper_def)
  have N: "7 \<le> N" "piped N (pipes_made s) (do_pipe (old_pipe s) s)"
    using assms(3) do_pipe_first by (auto simp: fds_ok_def)
  have pwd: "pwd_set (do_pipe (old_pipe s) s)" using assms(1) by (simp add: pwd_set_def)
  obtain u where u: "create_processes os (hs @ [eoc_holder]) (do_pipe (old_pipe s) s) = Some u"
    "(if \<not> has_flag (hd hs) BACKGROUND then Some (wait_foreground (close_pipe (old_pipe u) u))
      else start_background (close_pipe (old_pipe u) u)) = Some t"
    using assms(4) by (auto simp: after_check_def Let_def bind_eq_Some_conv)
  note p = create_processes_piped[OF pwd N(2,1) hs u(1)]
  obtain r w where rw: "pipes u ! old_pipe u = (r, w)" "3 \<le> r" "3 \<le> w" "r < N" "w < N" "r \<noteq> w"
    "slots_ok u" "fds u = (shell_fds N)[r := Some (PipeR (pipes_made s + length hs)), w := Some (PipeW (pipes_made s + length hs))]"
    using p by (auto simp: piped_def)
  then have "fds (close_pipe (old_pipe u) u) = shell_fds N"
    by (auto simp: close_pipe_def close_fd_def nth_list_update intro!: nth_equalityI)
  moreover have "fds t = fds (close_pipe (old_pipe u) u) \<and> slots_ok t = slots_ok u \<and> children t = children u"
  proof (cases "has_flag (hd hs) BACKGROUND")
    case True
    then show ?thesis using start_background_frame[of "close_pipe (old_pipe u) u" t] u(2)
      by (simp add: slots_ok_def)
  next
    case False
    then show ?thesis using u(2) by (auto simp: wait_foreground_def slots_ok_def)
  qed
  ultimately show ?thesis using p N(1) rw(7) by (simp add: fds_ok_def)
qed

lemma check_jobs_ok:
  assumes "jobs_ok (bg_jobs s)"
  shows "\<exists>js m ws. check_jobs_bg_status os s = Some (s\<lparr>bg_jobs := js, wait_calls := m, out := ws\<rparr>) \<and> jobs_ok js
    \<and> subseq js (bg_jobs s)"
  using check_jobs_loop_total[of s "bg_jobs s" "[]" os] assms jobs_ok_subseq[OF _ assms]
  unfolding check_jobs_bg_status_def by (force simp: jobs_ok_def[of "bg_jobs s"])

text \<open>Whatever the system calls return, a command line runs to its end and leaves the shell in order.\<close>

lemma run_script_keeps:
  assumes "shell_ok s" "proper hs" "fds_ok N s"
  shows "\<exists>t. run_script os (Some (hs @ [eoc_holder])) s = Some t \<and> shell_ok t \<and> fds_ok N t
    \<and> running (quash t) = (running (quash s) \<and> \<not> is_exit hs)"
proof -
  have ok: "pwd_set s" "current_job s = []" "jobs_ok (bg_jobs s)" using assms(1) by (auto simp: shell_ok_def)
  obtain w where w: "parsed_str (quash s) = Some w" using assms(1) by (auto simp: shell_ok_def)
  obtain js m ws where c: "check_jobs_bg_status os (s\<lparr>globals_created := True\<rparr>)
      = Some (s\<lparr>globals_created := True, bg_jobs := js, wait_calls := m, out := ws\<rparr>)" "jobs_ok js"
    using check_jobs_ok[of "s\<lparr>globals_created := True\<rparr>" os] ok(3) by auto
  let ?s = "s\<lparr>globals_created := True, bg_jobs := js, wait_calls := m, out := ws\<rparr>"
  show ?thesis
  proof (cases "is_exit hs")
    case True
    then show ?thesis
      using assms(3) ok w c by (simp add: run_script_eq[OF assms(1,2)] shell_ok_def end_main_loop_def pwd_set_def
          fds_ok_def slots_ok_def)
  next
    case False
    have "pwd_set ?s" "parsed_str (quash ?s) = Some w" "current_job ?s = []" "fds_ok N ?s"
      using ok w assms(3) by (simp_all add: pwd_set_def fds_ok_def slots_ok_def)
    from after_check_ok[OF this(1-3) assms(2), of os] after_check_fds[OF this(1) assms(2) this(4), of os]
    obtain t where t: "after_check os hs ?s = Some t" "pwd_set t" "quash t = quash s" "current_job t = []"
      "globals_created t" "bg_jobs t = js \<or> bg_jobs t = js @ [\<lparr>job_id = next_id js, job_cmd = w,
         pid_list = pids_of os (fork_calls s) (length hs)\<rparr>]" "fds_ok N t"
      by (auto split: if_splits)
    have "pids_of os (fork_calls s) (length hs) \<noteq> []"
      using assms(2) by (simp add: pids_of_def proper_def)
    then have "jobs_ok (bg_jobs t)" using t(6) c(2) jobs_ok_snoc by auto
    then show ?thesis
      using t False c(1) w by (simp add: run_script_eq[OF assms(1,2)] shell_ok_def)
  qed
qed

end
