(* ===== verification/Quash.thy ===== *)
theory Quash
  imports Execute_Correct
begin

text \<open>
  The shell as a whole (\<open>quash/src/quash.c\<close>): the prompt and the loop that reads, parses and runs one
  line after the other. The lines are the productions the parser recognises, one for each call of
  \<open>parse\<close>.
\<close>

section \<open>The main loop\<close>

definition initial_state :: "bool \<Rightarrow> QuashState" where
  "initial_state tty = \<lparr>running = True, is_a_tty = tty, parsed_str = None\<rparr>"

definition is_running :: "shell \<Rightarrow> bool" where
  "is_running s = running (quash s)"

definition is_tty :: "shell \<Rightarrow> bool" where
  "is_tty s = is_a_tty (quash s)"

text \<open>The scan for the last directory; a slash at the end of the path does not count.\<close>

fun last_dir_from :: "string \<Rightarrow> string \<Rightarrow> string" where
  "last_dir_from last_dir [] = last_dir"
| "last_dir_from last_dir (c # path) =
     last_dir_from (if c = CHR ''/'' \<and> path \<noteq> [] then path else last_dir) path"

text \<open>The host and the user, who may be unknown; \<open>realpath\<close> depends on the directory.\<close>

record machine =
  hostname :: string
  getlogin :: "string option"
  resolve :: "string \<Rightarrow> string \<Rightarrow> string option"

definition prompt :: "machine \<Rightarrow> string \<Rightarrow> string" where
  "prompt M path = ''[QUASH - '' @ show_str (getlogin M) @ ''@''
     @ takeWhile (\<lambda>c. c \<noteq> CHR ''.'') (hostname M) @ '' '' @ last_dir_from path path @ '']$ ''"

definition print_prompt :: "machine \<Rightarrow> shell \<Rightarrow> shell" where
  "print_prompt M s = emit (prompt M (get_current_directory s)) s"

definition greeting :: string where
  "greeting = ''Welcome to Quash!'' @ [CHR 0x0A] @ ''Type '' @ [CHR 0x22] @ ''exit'' @ [CHR 0x22] @ '' or ''
     @ [CHR 0x22] @ ''quit'' @ [CHR 0x22] @ '' to quit'' @ [CHR 0x0A]
     @ ''---------------------------------'' @ [CHR 0x0A]"

definition iteration :: "os \<Rightarrow> machine \<Rightarrow> input_line \<Rightarrow> shell \<Rightarrow> shell option" where
  "iteration os M l s =
     (let s = (if is_tty s then print_prompt M s else s) in
      Option.bind (parse \<lparr>sys_env = lookup_env s, realpath = resolve M (get_current_directory s)\<rparr> l (quash s))
        (\<lambda>(script, q). run_script os script (s\<lparr>quash := q\<rparr>)))"

text \<open>The loop ends when the shell is told to; without input it waits, which is \<open>None\<close> here.\<close>

fun main_loop :: "os \<Rightarrow> machine \<Rightarrow> input_line list \<Rightarrow> shell \<Rightarrow> shell option" where
  "main_loop os M [] s = (if is_running s then None else Some s)"
| "main_loop os M (l # ls) s =
     (if is_running s then Option.bind (iteration os M l s) (main_loop os M ls) else Some s)"

text \<open>The process at its start: three descriptors, no jobs, the environment it inherits.\<close>

definition start_shell :: "nat \<Rightarrow> bool \<Rightarrow> (string \<Rightarrow> string option) \<Rightarrow> string \<Rightarrow> shell" where
  "start_shell N tty e dir = \<lparr>fds = shell_fds N, pipes_made = 0, pipes = [(0, 0), (0, 0)], cur_pipe = 0,
     old_pipe = 1, current_job = [], bg_jobs = [], globals_created = False, environment = e, cwd = dir,
     children = [], fork_calls = 0, wait_calls = 0, waited = [], signalled = [],
     out = (if tty then [greeting] else []), err = [], quash = initial_state tty\<rparr>"

definition main :: "os \<Rightarrow> machine \<Rightarrow> input_line list \<Rightarrow> nat \<Rightarrow> bool \<Rightarrow> (string \<Rightarrow> string option) \<Rightarrow> string \<Rightarrow> shell option" where
  "main os M ls N tty e dir = main_loop os M ls (start_shell N tty e dir)"

section \<open>The lines the parser delivers\<close>

lemma content_action_command: "content_action E c = Some d \<Longrightarrow> d \<noteq> Eoc"
  by (induction E c rule: content_action.induct)
    (auto simp: mk_generic_command_def mk_echo_command_def mk_export_command_def mk_cd_command_def
      mk_pwd_command_def mk_jobs_command_def mk_exit_command_def mk_kill_command_def)

lemma cmd_top_command: "cmd_top_action E t = Some h \<Longrightarrow> cmd h \<noteq> Eoc"
  by (auto simp: cmd_top_action_def bind_eq_Some_conv Let_def mk_command_holder_def dest: content_action_command)

lemma pipe_action_commands: "cmd ` set (pipe_action h hs) = insert (cmd h) (cmd ` set hs)"
  by (auto simp: pipe_action_def Let_def split: list.split if_splits)

lemma cmds_action_proper: "cmds_action E t ts = Some hs \<Longrightarrow> proper hs"
proof (induction ts arbitrary: t hs)
  case Nil
  then show ?case using cmd_top_command by (auto simp: cmds_action.simps bind_eq_Some_conv proper_def)
next
  case (Cons t' ts)
  from Cons.prems obtain h hs' where h: "cmd_top_action E t = Some h" "cmds_action E t' ts = Some hs'"
    "hs = pipe_action h hs'"
    by (subst (asm) cmds_action.simps) (auto simp: bind_eq_Some_conv)
  have "Eoc \<notin> cmd ` set hs"
    using Cons.IH[OF h(2)] cmd_top_command[OF h(1)] by (auto simp: h(3) pipe_action_commands proper_def)
  then have "\<forall>h\<in>set hs. cmd h \<noteq> Eoc" by (metis imageI)
  then show ?case using pipe_action_nonempty by (auto simp: proper_def h(3))
qed

definition ends_input :: "input_line \<Rightarrow> bool" where
  "ends_input l = (case l of LastCommands _ _ \<Rightarrow> True | BadEnd \<Rightarrow> True | _ \<Rightarrow> False)"

lemma top_action_proper:
  assumes "top_action E l = Some (holders, go)"
  shows "(holders = None \<or> (\<exists>hs. holders = Some (hs @ [eoc_holder]) \<and> proper hs)) \<and> go = (\<not> ends_input l)"
  using assms by (cases l) (auto simp: ends_input_def dest: cmds_action_proper)

lemma parse_result:
  assumes "parse E l q = Some (script, q')"
  shows "(script = None \<and> parsed_str q' = parsed_str q
      \<or> (\<exists>hs. script = Some (hs @ [eoc_holder]) \<and> proper hs \<and> parsed_str q' \<noteq> None))
    \<and> running q' = (running q \<and> \<not> ends_input l) \<and> is_a_tty q' = is_a_tty q"
proof -
  obtain holders go where t: "top_action E l = Some (holders, go)"
    using assms by (auto simp: parse_def bind_eq_Some_conv)
  show ?thesis
    using assms t top_action_proper[OF t]
    by (auto simp: parse_def bind_eq_Some_conv Let_def split: option.splits if_splits)
qed

section \<open>The invariant of the loop\<close>

text \<open>Before the first command there is no command string yet.\<close>

definition loop_inv :: "nat \<Rightarrow> shell \<Rightarrow> bool" where
  "loop_inv N s \<longleftrightarrow> pwd_set s \<and> current_job s = [] \<and> jobs_ok (bg_jobs s)
     \<and> (globals_created s \<or> bg_jobs s = []) \<and> fds_ok N s"

lemma loop_inv_shell: "loop_inv N s \<longleftrightarrow> shell_ok (s\<lparr>quash := (quash s)\<lparr>parsed_str := Some w\<rparr>\<rparr>) \<and> fds_ok N s"
  by (auto simp: loop_inv_def shell_ok_def pwd_set_def)

lemma iteration_ok:
  assumes "loop_inv N s" "is_running s"
    and parses: "\<And>E q. parse E l q \<noteq> None"
  shows "\<exists>t. iteration os M l s = Some t \<and> loop_inv N t \<and> (ends_input l \<longrightarrow> \<not> is_running t)"
proof -
  define s1 where "s1 = (if is_tty s then print_prompt M s else s)"
  have s1: "loop_inv N s1" "quash s1 = quash s"
    using assms(1) by (auto simp: s1_def print_prompt_def emit_def loop_inv_def pwd_set_def fds_ok_def slots_ok_def)
  obtain script q where p: "parse \<lparr>sys_env = lookup_env s1, realpath = resolve M (get_current_directory s1)\<rparr> l (quash s1) = Some (script, q)"
    using parses by fastforce
  have it: "iteration os M l s = run_script os script (s1\<lparr>quash := q\<rparr>)"
    using p unfolding iteration_def s1_def[symmetric] Let_def by simp
  have run: "running q = (\<not> ends_input l)" using parse_result[OF p] s1(2) assms(2) by (simp add: is_running_def)
  have f: "fds_ok N (s1\<lparr>quash := q\<rparr>)" using s1(1) by (simp add: loop_inv_def fds_ok_def slots_ok_def)
  show ?thesis
  proof (cases script)
    case None
    then show ?thesis using it s1(1) run f
      by (simp add: run_script_def loop_inv_def pwd_set_def is_running_def)
  next
    case (Some hs')
    then obtain hs where hs: "script = Some (hs @ [eoc_holder])" "proper hs" "parsed_str q \<noteq> None"
      using parse_result[OF p] by auto
    have "shell_ok (s1\<lparr>quash := q\<rparr>)"
      using s1(1) hs(3) by (simp add: loop_inv_def shell_ok_def pwd_set_def)
    from run_script_keeps[OF this hs(2) f, of os] show ?thesis
      using it hs(1) run by (auto simp: loop_inv_def shell_ok_def is_running_def)
  qed
qed

lemma main_loop_ok:
  assumes "loop_inv N s" "is_running s" "ends_input l" "\<And>k E q. k \<in> set (ls @ [l]) \<Longrightarrow> parse E k q \<noteq> None"
  shows "\<exists>t. main_loop os M (ls @ [l]) s = Some t \<and> loop_inv N t"
  using assms(1,2,4)
proof (induction ls arbitrary: s)
  case Nil
  then show ?case using iteration_ok[OF Nil.prems(1,2), of l os M] assms(3) by auto
next
  case (Cons k ls)
  obtain t where t: "iteration os M k s = Some t" "loop_inv N t"
    using iteration_ok[OF Cons.prems(1,2), of k os M] Cons.prems(3) by auto
  show ?case
  proof (cases "is_running t")
    case True
    then show ?thesis using Cons.IH[OF t(2)] Cons.prems t(1) by simp
  next
    case False
    then have "main_loop os M (ls @ [l]) t = Some t" by (cases ls) simp_all
    then show ?thesis using Cons.prems(2) t by simp
  qed
qed

lemma start_shell_inv: "7 \<le> N \<Longrightarrow> e ''PWD'' \<noteq> None \<Longrightarrow> loop_inv N (start_shell N tty e dir)"
  by (simp add: loop_inv_def start_shell_def pwd_set_def jobs_ok_def fds_ok_def slots_ok_def)

section \<open>Properties\<close>

text \<open>
  C17. What running a command line does to the jobs, when the states of the processes do not change
  meanwhile: background jobs without a running process are reported and dropped, the others keep
  their order; in the foreground the shell waits for exactly the processes it has forked; in the
  background they become a job with the next free number. No assertion fails, and the numbers of
  the jobs stay in increasing order.\<close>

theorem run_script_jobs:
  assumes "shell_ok s" "proper hs" "\<not> is_exit hs" "\<And>k p. wait_result os k p = st p"
  defines "kept \<equiv> filter (still_runs st) (bg_jobs s)"
    and "new \<equiv> pids_of os (fork_calls s) (length hs)"
    and "gone \<equiv> map finished_message (filter (\<lambda>j. \<not> still_runs st j) (bg_jobs s))"
  shows "\<exists>t w. run_script os (Some (hs @ [eoc_holder])) s = Some t \<and> parsed_str (quash s) = Some w
    \<and> jobs_ok (bg_jobs t) \<and> current_job t = []
    \<and> (if has_flag (hd hs) BACKGROUND
       then bg_jobs t = kept @ [\<lparr>job_id = next_id kept, job_cmd = w, pid_list = new\<rparr>]
         \<and> waited t = waited s \<and> out t = out s @ gone @ [print_job_bg_start (next_id kept) (hd new) w]
       else bg_jobs t = kept \<and> waited t = waited s @ new \<and> out t = out s @ gone)"
proof -
  obtain w where w: "parsed_str (quash s) = Some w" using assms(1) by (auto simp: shell_ok_def)
  have ok: "pwd_set s" "current_job s = []" "jobs_ok (bg_jobs s)" using assms(1) by (auto simp: shell_ok_def)
  let ?s = "s\<lparr>globals_created := True\<rparr>"
  obtain m where m: "check_jobs_bg_status os ?s = Some (?s\<lparr>bg_jobs := kept, wait_calls := m, out := out s @ gone\<rparr>)"
    using check_jobs_loop_ok[of os st ?s "bg_jobs s" "[]", OF assms(4)] ok(3)
    by (auto simp: check_jobs_bg_status_def kept_def gone_def jobs_ok_def)
  have "jobs_ok kept" using jobs_ok_subseq[OF subseq_filter_left ok(3)] by (simp add: kept_def)
  moreover have "new \<noteq> []" using assms(2) by (simp add: new_def pids_of_def proper_def)
  moreover have "pwd_set (?s\<lparr>bg_jobs := kept, wait_calls := m, out := out s @ gone\<rparr>)"
    using ok(1) by (simp add: pwd_set_def)
  from after_check_ok[OF this, of w hs os] obtain t where
    "after_check os hs (?s\<lparr>bg_jobs := kept, wait_calls := m, out := out s @ gone\<rparr>) = Some t" "current_job t = []"
    "if has_flag (hd hs) BACKGROUND
     then bg_jobs t = kept @ [\<lparr>job_id = next_id kept, job_cmd = w, pid_list = new\<rparr>] \<and> waited t = waited s
       \<and> out t = (out s @ gone) @ [print_job_bg_start (next_id kept) (hd new) w]
     else bg_jobs t = kept \<and> waited t = waited s @ new \<and> out t = out s @ gone"
    using ok w assms(2) by (auto simp: new_def)
  ultimately show ?thesis
    using w m assms(3) jobs_ok_snoc[of kept new w]
    by (intro exI[of _ t] exI[of _ w]) (auto simp: run_script_eq[OF assms(1,2)] split: if_splits)
qed

definition some_os :: os where
  "some_os = \<lparr>fork_result = (\<lambda>k. 100 + int k), wait_result = (\<lambda>_ _. 0), chdir = (\<lambda>_ p. Some p),
     can_read = (\<lambda>_. True), can_write = (\<lambda>_. True)\<rparr>"

definition some_shell :: shell where
  "some_shell = (start_shell 8 False [''PWD'' \<mapsto> ''/''] ''/'')
     \<lparr>quash := \<lparr>running = True, is_a_tty = False, parsed_str = Some ''sleep ''\<rparr>\<rparr>"

lemma some_shell_ok: "shell_ok some_shell" "fds_ok 8 some_shell"
  by (simp_all add: some_shell_def start_shell_def shell_ok_def pwd_set_def jobs_ok_def fds_ok_def slots_ok_def)

theorem run_script_jobs_witness:
  "\<exists>t. run_script some_os (Some ([mk_command_holder None None BACKGROUND (Generic [''sleep''])] @ [eoc_holder])) some_shell
      = Some t \<and> bg_jobs t = [\<lparr>job_id = 1, job_cmd = ''sleep '', pid_list = [100]\<rparr>]"
proof -
  let ?hs = "[mk_command_holder None None BACKGROUND (Generic [''sleep''])]"
  have p: "proper ?hs" "\<not> is_exit ?hs" "has_flag (hd ?hs) BACKGROUND"
    by (simp_all add: proper_def is_exit_def mk_command_holder_def has_flag_def BACKGROUND_def)
  have "\<And>k p. wait_result some_os k p = 0" by (simp add: some_os_def)
  from run_script_jobs[OF some_shell_ok(1) p(1,2), of some_os "\<lambda>_. 0", OF this] p(3) show ?thesis
    by (auto simp: some_shell_def start_shell_def next_id_def pids_of_def some_os_def)
qed

text \<open>
  C18. The processes of a pipeline are connected: each but the last writes into a pipe and the next one
  reads from the same pipe, the first reads and the last writes where the redirections emit, and no
  process has any other descriptor than these and the standard error. The shell itself has no
  descriptor left open afterwards.\<close>

theorem pipeline_connected:
  assumes "cmds_action E u us = Some hs" "shell_ok s" "fds_ok N s" "\<not> is_exit hs" "\<And>k. 0 < fork_result os k"
  shows "\<exists>t new. run_script os (Some (hs @ [eoc_holder])) s = Some t \<and> fds t = fds s
    \<and> children t = children s @ new \<and> map child_pid new = pids_of os (fork_calls s) (length hs)
    \<and> map child_fds new = map (\<lambda>k. std N
        (if 0 < k then PipeR (pipes_made s + k) else input_of os (hs ! 0) (pipes_made s))
        (if Suc k < length hs then PipeW (pipes_made s + Suc k) else output_of os (hs ! k) (pipes_made s + length hs)))
      [0..<length hs]"
proof -
  have hs: "proper hs" "pipeline_ok (u # us) hs" using cmds_action_proper[OF assms(1)] cmds_action_ok[OF assms(1)] by auto
  have ok: "pwd_set s" "current_job s = []" "jobs_ok (bg_jobs s)" using assms(2) by (auto simp: shell_ok_def)
  obtain w where w: "parsed_str (quash s) = Some w" using assms(2) by (auto simp: shell_ok_def)
  obtain js m ws where c: "check_jobs_bg_status os (s\<lparr>globals_created := True\<rparr>)
      = Some (s\<lparr>globals_created := True, bg_jobs := js, wait_calls := m, out := ws\<rparr>)"
    using check_jobs_ok[of "s\<lparr>globals_created := True\<rparr>" os] ok(3) by auto
  let ?s = "s\<lparr>globals_created := True, bg_jobs := js, wait_calls := m, out := ws\<rparr>"
  have s: "pwd_set ?s" "parsed_str (quash ?s) = Some w" "current_job ?s = []" "fds_ok N ?s"
    using ok w assms(3) by (simp_all add: pwd_set_def fds_ok_def slots_ok_def)
  obtain t where t: "after_check os hs ?s = Some t" using after_check_ok[OF s(1-3) hs(1), of os] by blast
  obtain new where new: "fds_ok N t" "children t = children s @ new" "map child_pid new = pids_of os (fork_calls s) (length hs)"
    "map child_fds new = map (\<lambda>k. std N (input_of os (hs ! k) (pipes_made s + k))
        (output_of os (hs ! k) (Suc (pipes_made s + k)))) [0..<length hs]"
    using after_check_fds[OF s(1) hs(1) s(4) t] assms(5) by auto
  have io: "input_of os (hs ! k) (pipes_made s + k)
        = (if 0 < k then PipeR (pipes_made s + k) else input_of os (hs ! 0) (pipes_made s))
      \<and> output_of os (hs ! k) (Suc (pipes_made s + k))
        = (if Suc k < length hs then PipeW (pipes_made s + Suc k) else output_of os (hs ! k) (pipes_made s + length hs))"
    if k: "k < length hs" for k
  proof -
    have "flags_ok (k = 0) (Suc k = length hs) (\<exists>t\<in>set (drop k (u # us)). bg t) (hs ! k)"
      using hs(2) k unfolding pipeline_ok_def by blast
    then show ?thesis
      using k by (auto simp: flags_ok_def input_of_def output_of_def not_less_eq less_Suc_eq_le split: option.split)
  qed
  have "map child_fds new = map (\<lambda>k. std N
        (if 0 < k then PipeR (pipes_made s + k) else input_of os (hs ! 0) (pipes_made s))
        (if Suc k < length hs then PipeW (pipes_made s + Suc k) else output_of os (hs ! k) (pipes_made s + length hs)))
      [0..<length hs]"
    unfolding new(4) by (intro map_upt_cong) (simp only: conjunct1[OF io] conjunct2[OF io])
  moreover have "fds t = fds s" using new(1) assms(3) by (simp add: fds_ok_def)
  moreover have "run_script os (Some (hs @ [eoc_holder])) s = Some t"
    using t c assms(4) by (simp add: run_script_eq[OF assms(2) hs(1)])
  ultimately show ?thesis
    using new(2,3) by blast
qed

theorem pipeline_connected_witness:
  "\<exists>hs t new. cmds_action \<lparr>sys_env = Map.empty, realpath = Map.empty\<rparr> (word_line ''ls'' False)
      [word_line ''wc'' False] = Some hs
    \<and> run_script some_os (Some (hs @ [eoc_holder])) some_shell = Some t \<and> children t = new
    \<and> child_fds (new ! 0) ! 1 = Some (PipeW 1) \<and> child_fds (new ! 1) ! 0 = Some (PipeR 1)"
proof -
  obtain hs where hs: "cmds_action \<lparr>sys_env = Map.empty, realpath = Map.empty\<rparr> (word_line ''ls'' False)
      [word_line ''wc'' False] = Some hs"
    by (simp add: cmds_action.simps cmd_top_action_def word_line_def)
  have len: "length hs = 2" using cmds_action_ok[OF hs] by (simp add: pipeline_ok_def)
  have "\<not> is_exit hs" "\<And>k. 0 < fork_result some_os k" using len by (simp_all add: is_exit_def some_os_def)
  from pipeline_connected[OF hs some_shell_ok this] obtain t new where
    n: "run_script some_os (Some (hs @ [eoc_holder])) some_shell = Some t" "children t = children some_shell @ new"
      "map child_fds new = map (\<lambda>k. std 8
        (if 0 < k then PipeR (pipes_made some_shell + k) else input_of some_os (hs ! 0) (pipes_made some_shell))
        (if Suc k < length hs then PipeW (pipes_made some_shell + Suc k)
         else output_of some_os (hs ! k) (pipes_made some_shell + length hs))) [0..<length hs]"
    by blast
  have "length new = 2" using arg_cong[OF n(3), of length] len by simp
  then have "child_fds (new ! 0) = map child_fds new ! 0" "child_fds (new ! 1) = map child_fds new ! 1" by simp_all
  then have "child_fds (new ! 0) ! 1 = Some (PipeW 1)" "child_fds (new ! 1) ! 0 = Some (PipeR 1)"
    unfolding n(3) len by (simp_all add: some_shell_def start_shell_def)
  moreover have "children t = new" using n(2) by (simp add: some_shell_def start_shell_def)
  ultimately show ?thesis using hs n(1) by blast
qed



end
