(* ===== verification/Execute_Deques.thy ===== *)
theory Execute_Deques
  imports Deque_Client
begin

text \<open>
  The deques of \<open>quash/src/execute.c\<close> on the ring buffers of \<open>deque.h\<close>: copying a deque of process
  ids, which moves the original to a new array, and the clean-up of jobs. It justifies that the
  other theories of the shell treat these deques as lists.
\<close>

text \<open>The loop of \<open>duplicate_PIDDeque\<close>: every element is pushed to the original and to the copy.\<close>

fun copy_back :: "'m alloc_env \<Rightarrow> 'a cell list \<Rightarrow> ('d, 'a) deque \<Rightarrow> ('d, 'a) deque \<Rightarrow> 'm
    \<Rightarrow> stop + (('d, 'a) deque \<times> ('d, 'a) deque \<times> 'm)" where
  "copy_back E [] d r m = Inr (d, r, m)"
| "copy_back E (Uninit # cs) d r m = Inl Undefined"
| "copy_back E (Val x # cs) d r m =
     and_then (push_back E x d m) (\<lambda>(d, m).
     and_then (push_back E x r m) (\<lambda>(r, m). copy_back E cs d r m))"

definition duplicate_PIDDeque :: "'m alloc_env \<Rightarrow> ('d, 'a) deque \<Rightarrow> 'm
    \<Rightarrow> stop + (('d, 'a) deque \<times> ('d, 'a) deque \<times> 'm)" where
  "duplicate_PIDDeque E d m =
     and_then (as_array E d m) (\<lambda>((raw, len), _, m).
     and_then (new_deque E len m) (\<lambda>(d, m).
     and_then (new_deque E len m) (\<lambda>(r, m). copy_back E (take len raw) d r m)))"

text \<open>A job with its deque; \<open>None\<close> is a command string that was freed.\<close>

record raw_job =
  rj_id :: int
  rj_cmd :: "string option"
  rj_pids :: "(unit, int) deque"

definition destroy_job :: "raw_job \<Rightarrow> stop + raw_job" where
  "destroy_job j = and_then (destroy_deque (rj_pids j)) (\<lambda>(_, d).
     if rj_cmd j = None then Inl Undefined else Inr (j\<lparr>rj_pids := d, rj_cmd := None\<rparr>))"

primrec destroy_jobs :: "(unit \<times> raw_job) list \<Rightarrow> stop + raw_job list" where
  "destroy_jobs [] = Inr []"
| "destroy_jobs (c # cs) = and_then (destroy_job (snd c)) (\<lambda>j.
     and_then (destroy_jobs cs) (\<lambda>js. Inr (j # js)))"

text \<open>\<open>bg_jobs\<close> has \<open>destroy_job\<close> as its destructor, which runs on every element.\<close>

definition cleanup_globals :: "(unit, int) deque \<Rightarrow> (unit, raw_job) deque
    \<Rightarrow> stop + ((unit, int) deque \<times> (unit, raw_job) deque \<times> raw_job list)" where
  "cleanup_globals current_job bg_jobs =
     and_then (destroy_deque current_job) (\<lambda>(_, current_job).
     and_then (destroy_deque bg_jobs) (\<lambda>(calls, bg_jobs).
     and_then (destroy_jobs calls) (\<lambda>js. Inr (current_job, bg_jobs, js))))"

section \<open>The copy\<close>

text \<open>The result, or an allocation has failed.\<close>

definition or_no_memory :: "'m alloc_env \<Rightarrow> ('r \<Rightarrow> bool) \<Rightarrow> stop + 'r \<Rightarrow> bool" where
  "or_no_memory E P r \<longleftrightarrow> (case r of Inr x \<Rightarrow> P x | Inl e \<Rightarrow> \<exists>n m. alloc_mem E n m = Inl e)"

lemma or_no_memory_bind:
  assumes "ok_or_alloc E m B Q r" "\<And>x. Q x \<Longrightarrow> or_no_memory E P (f x)"
  shows "or_no_memory E P (and_then r f)"
  using assms by (cases r) (auto simp: or_no_memory_def)

lemma copy_back_ok:
  fixes d r :: "('d, 'a) deque"
  assumes E: "env_ok I E"
  shows "rep E d xs \<Longrightarrow> rep E r ys \<Longrightarrow> I m \<Longrightarrow>
    or_no_memory E (\<lambda>(d', r', m'). rep E d' (xs @ zs) \<and> rep E r' (ys @ zs) \<and> I m') (copy_back E (map Val zs) d r m)"
proof (induction zs arbitrary: d r m xs ys)
  case Nil
  then show ?case by (simp add: or_no_memory_def)
next
  case (Cons z zs)
  show ?case
    unfolding list.map copy_back.simps
  proof (rule or_no_memory_bind[OF push_back_rep[OF Cons.prems(1) E Cons.prems(3)]], clarify)
    fix d1 :: "('d, 'a) deque" and m1
    assume d1: "rep E d1 (xs @ [z])" and m1: "I m1"
    show "or_no_memory E (\<lambda>(d', r', m'). rep E d' (xs @ z # zs) \<and> rep E r' (ys @ z # zs) \<and> I m')
        (and_then (push_back E z r m1) (\<lambda>(r, m). copy_back E (map Val zs) d1 r m))"
      by (rule or_no_memory_bind[OF push_back_rep[OF Cons.prems(2) E m1]], clarify)
        (use Cons.IH[OF d1] in force)
  qed
qed

lemma duplicate_rep:
  fixes d :: "('d, 'a) deque" and E :: "'m alloc_env"
  assumes rep: "rep E d xs" and E: "env_ok I E" and I: "I m"
  shows "or_no_memory E (\<lambda>(d', r, m'). rep E d' xs \<and> rep E r xs \<and> I m') (duplicate_PIDDeque E d m)"
proof -
  have size: "max (length xs) 1 * elem_size E < SIZE_T div 2"
  proof -
    have "length xs < dq_cap d" using rep by (auto simp: rep_def)
    then have "max (length xs) 1 \<le> dq_cap d" by simp
    then have "max (length xs) 1 * elem_size E \<le> dq_cap d * elem_size E" by (rule mult_le_mono1)
    also have "\<dots> < SIZE_T div 4" using rep by (auto simp: rep_def)
    also have "\<dots> < SIZE_T div 2" by (simp add: SIZE_T_def)
    finally show ?thesis .
  qed
  have two: "or_no_memory E (\<lambda>(d', r, m'). rep E d' xs \<and> rep E r xs \<and> I m')
      (and_then (new_deque E (length xs) m1) (\<lambda>(r, m). copy_back E (take (length xs) raw) d1 r m))"
    if "take (length xs) raw = map Val xs" "rep E d1 []" "I m1" for raw and d1 :: "('d, 'a) deque" and m1
    by (rule or_no_memory_bind[OF new_rep[OF E that(3) size]])
      (use copy_back_ok[OF E that(2), of _ "[]" _ xs] in \<open>auto simp: that(1)\<close>)
  have one: "or_no_memory E (\<lambda>(d', r, m'). rep E d' xs \<and> rep E r xs \<and> I m')
      (and_then (new_deque E (length xs) m0) (\<lambda>(d :: ('d, 'a) deque, m).
       and_then (new_deque E (length xs) m) (\<lambda>(r, m). copy_back E (take (length xs) raw) d r m)))"
    if "take (length xs) raw = map Val xs" "I m0" for raw m0
    by (rule or_no_memory_bind[OF new_rep[OF E that(2) size]]) (use two[OF that(1)] in auto)
  show ?thesis
    unfolding duplicate_PIDDeque_def
    by (rule or_no_memory_bind[OF as_array_rep[OF rep E I]]) (use one in auto)
qed

section \<open>The clean-up\<close>

definition job_alive :: "nat alloc_env \<Rightarrow> raw_job \<Rightarrow> bool" where
  "job_alive E j \<longleftrightarrow> rj_cmd j \<noteq> None \<and> (\<exists>ps. rep E (rj_pids j) ps)"

definition job_destroyed :: "raw_job \<Rightarrow> raw_job" where
  "job_destroyed j = j\<lparr>rj_pids := clear_deque (rj_pids j), rj_cmd := None\<rparr>"

lemma destroy_job_ok:
  assumes "job_alive E j" "env_ok I E"
  shows "destroy_job j = Inr (job_destroyed j)"
  using assms destroy_rep[of E "rj_pids j" _ I]
  by (auto simp: job_alive_def destroy_job_def job_destroyed_def)

lemma destroy_jobs_ok:
  assumes "env_ok I E" "\<forall>j\<in>set js. job_alive E j"
  shows "destroy_jobs (map (Pair ()) js) = Inr (map job_destroyed js)"
  using assms(2) destroy_job_ok[OF _ assms(1)] by (induction js) auto

text \<open>At exit every job is destroyed once, in order, and both deques are released.\<close>

lemma cleanup_ok:
  assumes "rep Ei cur ps" "env_ok Ii Ei" "rep Ej bg js" "env_ok Ij Ej" "dq_destructor bg = Some ()"
    "\<forall>j\<in>set js. job_alive E j" "env_ok I E"
  shows "cleanup_globals cur bg = Inr (clear_deque cur, clear_deque bg, map job_destroyed js)"
  using destroy_rep[OF assms(1,2)] destroy_rep[OF assms(3,4)] destroy_jobs_ok[OF assms(7,6)] assms(5)
  by (simp add: cleanup_globals_def)

end
