(* ===== verification/SchedSim.thy ===== *)
theory SchedSim
  imports Scheduler
begin

text \<open>
  The simulator of the scheduler laboratory (\<open>scheduler/src/simulator.c\<close>): options, the job file and
  the loop over the time units that calls the scheduler. The array of jobs is the list of its first
  \<open>active_jobs\<close> elements. A result is \<^term>\<open>None\<close> for undefined behaviour, a failed assertion or a
  run that never ends; otherwise it is \<^term>\<open>Inl\<close> of the final state for the exits with code 3 and
  \<^term>\<open>Inr\<close> of a state that goes on. Allocations succeed.
\<close>

section \<open>State\<close>

record sim_job =
  sj_id :: int
  sj_arrival :: int
  sj_run :: int
  sj_priority :: int
  sj_core :: int
  sj_arrived :: bool

record simulation =
  sched_of :: sched
  sim_jobs :: "sim_job list"
  jobs_alive :: int
  clock :: int
  quantum_clock :: "int list"
  core_timing_diagram :: "string list"
  printed :: "string list"

type_synonym 'a step_result = "(simulation + 'a) option"

definition go_on :: "'a step_result \<Rightarrow> ('a \<Rightarrow> 'b step_result) \<Rightarrow> 'b step_result" where
  "go_on r f = Option.bind r (\<lambda>x. case x of Inl s \<Rightarrow> Some (Inl s) | Inr y \<Rightarrow> f y)"

definition print :: "string \<Rightarrow> simulation \<Rightarrow> simulation" where
  "print w s = s\<lparr>printed := printed s @ [w]\<rparr>"

abbreviation nl :: string where "nl \<equiv> [CHR 0x0A]"

section \<open>Helpers\<close>

fun set_active_job :: "int \<Rightarrow> int \<Rightarrow> sim_job list \<Rightarrow> sim_job list option" where
  "set_active_job jid core [] = None"
| "set_active_job jid core (j # js) =
     (if sj_id j = jid \<and> sj_arrived j then Some (j\<lparr>sj_core := core\<rparr> # js)
      else map_option ((#) j) (set_active_job jid core js))"

fun commas :: "string list \<Rightarrow> string" where
  "commas [] = []"
| "commas [w] = w"
| "commas (w # ws) = w @ '', '' @ commas ws"

definition print_available_jobs :: "sim_job list \<Rightarrow> string" where
  "print_available_jobs js = (let ids = map (\<lambda>j. show_int (sj_id j)) (filter sj_arrived js)
     in ''Active jobs are: '' @ commas ids @ (if ids \<noteq> [] then nl else []))"

definition print_available_cores :: "nat \<Rightarrow> string" where
  "print_available_cores cores = ''Active cores are: '' @ commas (map show_nat [0..<cores])
     @ (if 0 < cores then nl else [])"

text \<open>The queue is printed by \<open>scheduler_show_queue\<close>, which writes nothing.\<close>

definition queue_line :: string where
  "queue_line = ''  Queue: '' @ nl @ nl"

definition set_clock :: "int \<Rightarrow> int \<Rightarrow> simulation \<Rightarrow> simulation option" where
  "set_clock core v s = guard (0 \<le> core \<and> core < int (length (quantum_clock s)))
     (Some (s\<lparr>quantum_clock := (quantum_clock s)[nat core := v]\<rparr>))"

text \<open>
  The end of the steps 1 and 2: the job the scheduler chose is put on the core. \<open>who\<close> names the
  function for the message, \<open>what\<close> tells what happened to the old job.
\<close>

definition set_new_job :: "string \<Rightarrow> string \<Rightarrow> int \<Rightarrow> int \<Rightarrow> int \<Rightarrow> simulation \<Rightarrow> simulation step_result" where
  "set_new_job who what old core new s =
     (let set = set_active_job new core (sim_jobs s) in
      if new \<noteq> - 1 \<and> set = None then
        Some (Inl (print (print_available_jobs (sim_jobs s))
          (print (''The '' @ who @ '' selected an invalid job (job_id == '' @ show_int new @ '').'' @ nl) s)))
      else
        let s = (if new \<noteq> - 1 then s\<lparr>sim_jobs := the set\<rparr> else s) in
        Some (Inr (print (''Job '' @ show_int old @ '', running on core '' @ show_int core @ what @ ''. Core ''
          @ show_int core @ '' is now running job '' @ show_int new @ ''.'' @ nl @ queue_line) s)))"

section \<open>One time unit\<close>

text \<open>Step 1. \<open>n\<close> jobs are left, from index \<open>i\<close> on; a finished one is replaced by the last.\<close>

definition drop_job :: "nat \<Rightarrow> sim_job list \<Rightarrow> sim_job list" where
  "drop_job i js = (if i \<noteq> length js - 1 then butlast (js[i := last js]) else butlast js)"

definition finish_job :: "scheme_t \<Rightarrow> int \<Rightarrow> nat \<Rightarrow> simulation \<Rightarrow> simulation step_result" where
  "finish_job scheme quantum i s =
     (let j = sim_jobs s ! i in
      Option.bind (scheduler_job_finished (sj_core j) (sj_id j) (clock s) (sched_of s)) (\<lambda>(new, sch).
      Option.bind (if scheme = RR then set_clock (sj_core j) quantum (s\<lparr>sched_of := sch\<rparr>)
                   else Some (s\<lparr>sched_of := sch\<rparr>)) (\<lambda>s.
      set_new_job ''scheduler_job_finished()'' '', finished'' (sj_id j) (sj_core j) new
        (s\<lparr>sim_jobs := drop_job i (sim_jobs s), jobs_alive := jobs_alive s - 1\<rparr>))))"

primrec finish_jobs :: "scheme_t \<Rightarrow> int \<Rightarrow> nat \<Rightarrow> nat \<Rightarrow> simulation \<Rightarrow> simulation step_result" where
  "finish_jobs scheme quantum 0 i s = Some (Inr s)"
| "finish_jobs scheme quantum (Suc n) i s = (if sj_run (sim_jobs s ! i) = 0
     then go_on (finish_job scheme quantum i s) (finish_jobs scheme quantum n i)
     else finish_jobs scheme quantum n (Suc i) s)"

text \<open>Step 2, for the first job on a core whose quantum is over.\<close>

primrec job_on_core :: "int \<Rightarrow> nat \<Rightarrow> sim_job list \<Rightarrow> nat option" where
  "job_on_core core i [] = None"
| "job_on_core core i (j # js) = (if sj_core j = core then Some i else job_on_core core (Suc i) js)"

definition expire_core :: "int \<Rightarrow> nat \<Rightarrow> simulation \<Rightarrow> simulation step_result" where
  "expire_core quantum i s = (if quantum_clock s ! i \<noteq> 0 then Some (Inr s)
     else case job_on_core (int i) 0 (sim_jobs s) of None \<Rightarrow> Some (Inr s)
     | Some k \<Rightarrow>
       (let j = sim_jobs s ! k in
        Option.bind (scheduler_quantum_expired (sj_core j) (clock s) (sched_of s)) (\<lambda>(new, sch).
        Option.bind (set_clock (sj_core j) quantum
            (s\<lparr>sched_of := sch, sim_jobs := (sim_jobs s)[k := j\<lparr>sj_core := - 1\<rparr>]\<rparr>))
          (set_new_job ''scheduler_quantum_expired()'' '', had its quantum expire'' (sj_id j) (sj_core j) new))))"

primrec expire_cores :: "int \<Rightarrow> nat \<Rightarrow> nat \<Rightarrow> simulation \<Rightarrow> simulation step_result" where
  "expire_cores quantum 0 i s = Some (Inr s)"
| "expire_cores quantum (Suc n) i s = go_on (expire_core quantum i s) (expire_cores quantum n (Suc i))"

text \<open>Step 3.\<close>

definition arrival_message :: "sim_job \<Rightarrow> string \<Rightarrow> string" where
  "arrival_message j end = ''A new job, job '' @ show_int (sj_id j) @ '' (running time='' @ show_int (sj_run j)
     @ '', priority='' @ show_int (sj_priority j) @ ''), arrived. Job '' @ show_int (sj_id j) @ end @ nl @ queue_line"

definition arrive :: "scheme_t \<Rightarrow> int \<Rightarrow> nat \<Rightarrow> nat \<Rightarrow> simulation \<Rightarrow> simulation step_result" where
  "arrive scheme quantum cores i s =
     (let j = sim_jobs s ! i in
      Option.bind (scheduler_new_job (sj_id j) (clock s) (sj_run j) (sj_priority j) (sched_of s)) (\<lambda>(core, sch).
      let s = s\<lparr>sched_of := sch, sim_jobs := (sim_jobs s)[i := j\<lparr>sj_arrived := True\<rparr>],
            jobs_alive := jobs_alive s + 1\<rparr> in
      if 0 \<le> core \<and> core < int cores then
        (let s = print (arrival_message j ('' is now running on core '' @ show_int core @ ''.'')) s;
             js = map (\<lambda>j. if sj_core j = core then j\<lparr>sj_core := - 1\<rparr> else j) (sim_jobs s);
             s = s\<lparr>sim_jobs := js[i := (js ! i)\<lparr>sj_core := core\<rparr>]\<rparr>
         in if scheme = RR then map_option Inr (set_clock core quantum s) else Some (Inr s))
      else if core = - 1 then Some (Inr (print (arrival_message j '' is set to idle (-1).'') s))
      else Some (Inl (print (print_available_cores cores)
        (print (''The scheduler_new_job() selected an invalid core (core_id == '' @ show_int core @ '').'' @ nl) s)))))"

primrec arrivals :: "scheme_t \<Rightarrow> int \<Rightarrow> nat \<Rightarrow> nat \<Rightarrow> nat \<Rightarrow> simulation \<Rightarrow> simulation step_result" where
  "arrivals scheme quantum cores 0 i s = Some (Inr s)"
| "arrivals scheme quantum cores (Suc n) i s =
     go_on (if sj_arrival (sim_jobs s ! i) = clock s then arrive scheme quantum cores i s else Some (Inr s))
       (arrivals scheme quantum cores n (Suc i))"

text \<open>Step 4: every job on a core runs, and its letter is written into the row of the core.\<close>

definition job_label :: "int \<Rightarrow> string" where
  "job_label jid = (if jid < 10 then show_int jid
     else if jid < 10 + 26 then [char_of (jid - 10 + 97)]
     else if jid < 10 + 26 + 26 then [char_of (jid - 10 - 26 + 65)]
     else take 9 (''('' @ show_int jid @ '')''))"

definition run_job :: "nat \<Rightarrow> nat \<times> string list \<times> simulation \<Rightarrow> (nat \<times> string list \<times> simulation) option" where
  "run_job i = (\<lambda>(cores_working, time_string, s).
     let j = sim_jobs s ! i; core = sj_core j in
     if core = - 1 then Some (cores_working, time_string, s)
     else guard (0 \<le> core \<and> core < int (length time_string) \<and> core < int (length (quantum_clock s)))
       (guard (time_string ! nat core = [])
        (Some (Suc cores_working, time_string[nat core := job_label (sj_id j)],
          s\<lparr>sim_jobs := (sim_jobs s)[i := j\<lparr>sj_run := sj_run j - 1\<rparr>],
            quantum_clock := (quantum_clock s)[nat core := quantum_clock s ! nat core - 1]\<rparr>))))"

primrec run_jobs_unit ::
  "nat \<Rightarrow> nat \<Rightarrow> nat \<times> string list \<times> simulation \<Rightarrow> (nat \<times> string list \<times> simulation) option" where
  "run_jobs_unit 0 i r = Some r"
| "run_jobs_unit (Suc n) i r = Option.bind (run_job i r) (run_jobs_unit n (Suc i))"

definition extend_diagram :: "string list \<Rightarrow> string list \<Rightarrow> string list" where
  "extend_diagram = map2 (\<lambda>row t. row @ (if t = [] then ''-'' else t))"

text \<open>Step 5, and the final diagram: \<open>"  Core %2d: %s\n"\<close> for each core.\<close>

definition diagram_lines :: "string list \<Rightarrow> string" where
  "diagram_lines rows = concat (map (\<lambda>i. ''  Core '' @ (if i < 10 then '' '' else []) @ show_nat i @ '': ''
     @ rows ! i @ nl) [0..<length rows])"

definition run_unit :: "nat \<Rightarrow> simulation \<Rightarrow> simulation step_result" where
  "run_unit cores s =
     Option.bind (run_jobs_unit (length (sim_jobs s)) 0 (0, replicate cores [], s)) (\<lambda>(working, ts, s).
     let s = s\<lparr>core_timing_diagram := extend_diagram (core_timing_diagram s) ts\<rparr>;
         s = print (''At the end of time unit '' @ show_int (clock s) @ ''...'' @ nl
           @ diagram_lines (core_timing_diagram s) @ nl @ queue_line) s
     in if jobs_alive s > 0 \<and> working = 0 then
          Some (Inl (print (print_available_jobs (sim_jobs s))
            (print (''All cores are idle and at least one job remains unscheduled.'' @ nl) s)))
        else Some (Inr (s\<lparr>clock := clock s + 1\<rparr>)))"

section \<open>The loop\<close>

text \<open>The round of one time unit; the steps 2 to 7 are left out when the last job has finished.\<close>

definition time_unit :: "scheme_t \<Rightarrow> int \<Rightarrow> nat \<Rightarrow> simulation \<Rightarrow> simulation step_result" where
  "time_unit scheme quantum cores s =
     (let s = print (''=== [TIME '' @ show_int (clock s) @ ''] ==='' @ nl) s in
      go_on (finish_jobs scheme quantum (length (sim_jobs s)) 0 s) (\<lambda>s.
      if sim_jobs s = [] then Some (Inr s)
      else
        go_on (if scheme = RR then expire_cores quantum cores 0 s else Some (Inr s)) (\<lambda>s.
        go_on (arrivals scheme quantum cores (length (sim_jobs s)) 0 s) (run_unit cores))))"

partial_function (option) simulate :: "scheme_t \<Rightarrow> int \<Rightarrow> nat \<Rightarrow> simulation \<Rightarrow> simulation step_result" where
  "simulate scheme quantum cores s = (if sim_jobs s \<noteq> []
     then Option.bind (time_unit scheme quantum cores s) (\<lambda>r. case r of Inl s \<Rightarrow> Some (Inl s)
       | Inr s \<Rightarrow> simulate scheme quantum cores s)
     else Some (Inr s))"

definition start_simulation :: "scheme_t \<Rightarrow> nat \<Rightarrow> sim_job list \<Rightarrow> string list \<Rightarrow> simulation option" where
  "start_simulation scheme cores js w = map_option (\<lambda>sch.
     \<lparr>sched_of = sch, sim_jobs = js, jobs_alive = 0, clock = 0, quantum_clock = replicate cores (- 1),
      core_timing_diagram = replicate cores [], printed = w\<rparr>) (scheduler_start_up cores scheme)"

text \<open>What is written at the end; \<open>show_2f\<close> is the conversion of an average by \<open>%.2f\<close>.\<close>

definition final_report :: "(rat option \<Rightarrow> string) \<Rightarrow> simulation \<Rightarrow> string" where
  "final_report show_2f s = ''FINAL TIMING DIAGRAM:'' @ nl @ diagram_lines (core_timing_diagram s) @ nl
     @ ''Average Waiting Time: '' @ show_2f (scheduler_average_waiting_time (sched_of s)) @ nl
     @ ''Average Turnaround Time: '' @ show_2f (scheduler_average_turnaround_time (sched_of s)) @ nl
     @ ''Average Response Time: '' @ show_2f (scheduler_average_response_time (sched_of s)) @ nl"

section \<open>Options and the job file\<close>

definition lower :: "char \<Rightarrow> char" where
  "lower c = (if 65 \<le> (of_char c :: nat) \<and> (of_char c :: nat) \<le> 90 then char_of (of_char c + 32 :: nat) else c)"

definition strcasecmp_eq :: "string \<Rightarrow> string \<Rightarrow> bool" where
  "strcasecmp_eq a b \<longleftrightarrow> map lower a = map lower b"

text \<open>What \<open>getopt\<close> returns for the options: the letter and the argument.\<close>

datatype opt = OptC string | OptS string | OptUnknown

record config =
  cf_cores :: int
  cf_scheme :: "scheme_t option"
  cf_quantum :: int

definition scheme_option :: "string \<Rightarrow> config \<Rightarrow> string + config" where
  "scheme_option w c =
     (if strcasecmp_eq w ''FCFS'' then Inr (c\<lparr>cf_scheme := Some FCFS\<rparr>)
      else if strcasecmp_eq w ''SJF'' then Inr (c\<lparr>cf_scheme := Some SJF\<rparr>)
      else if strcasecmp_eq w ''PSJF'' then Inr (c\<lparr>cf_scheme := Some PSJF\<rparr>)
      else if strcasecmp_eq w ''PRI'' then Inr (c\<lparr>cf_scheme := Some PRI\<rparr>)
      else if strcasecmp_eq w ''PPRI'' then Inr (c\<lparr>cf_scheme := Some PPRI\<rparr>)
      else if strcasecmp_eq (take 2 w) ''RR'' then
        (let q = strtol_int (drop 2 w) in if q \<le> 0
         then Inl (''Option -s <scheme> requires a positive number for the quantum of RR. (Eg: -s RR2)'' @ nl)
         else Inr (c\<lparr>cf_scheme := Some RR, cf_quantum := q\<rparr>))
      else Inr c)"

fun process_options :: "opt list \<Rightarrow> config \<Rightarrow> string + config" where
  "process_options [] c = Inr c"
| "process_options (OptC w # os) c = (let n = strtol_int w in
     if n \<le> 0 then Inl (''Option -c <cores> require a positive number.'' @ nl)
     else process_options os (c\<lparr>cf_cores := n\<rparr>))"
| "process_options (OptS w # os) c = and_then (scheme_option w c) (process_options os)"
| "process_options (OptUnknown # os) c = Inl []"

definition print_usage :: "string \<Rightarrow> string" where
  "print_usage program_name = ''Usage: '' @ program_name @ '' -c <cores> -s <scheme> <input file>'' @ nl
     @ ''       '' @ program_name @ '' -c 2 -s fcfs examples/proc1.csv'' @ nl @ nl
     @ ''Acceptable schemes are: fcfs, sjf, psjf, pri, ppri, rr#'' @ nl"

text \<open>\<open>fgets(line, 1024, file)\<close>: at most 1023 characters, up to and with the end of the line.\<close>

definition fgets :: "string \<Rightarrow> (string \<times> string) option" where
  "fgets file = (if file = [] then None else
     let l = takeWhile (\<lambda>c. c \<noteq> CHR 0x0A) (take 1023 file);
         n = (if length l < 1023 \<and> length l < length file then length l + 1 else length l)
     in Some (take n file, drop n file))"

text \<open>\<open>strtok\<close> with a comma: the token and what is left.\<close>

definition strtok :: "string \<Rightarrow> (string \<times> string) option" where
  "strtok s = (let s = dropWhile (\<lambda>c. c = CHR '','') s in
     if s = [] then None else Some (takeWhile (\<lambda>c. c \<noteq> CHR '','') s, tl (dropWhile (\<lambda>c. c \<noteq> CHR '','') s)))"

definition parse_job :: "int \<Rightarrow> string \<Rightarrow> sim_job option" where
  "parse_job jid line =
     Option.bind (strtok (takeWhile (\<lambda>c. c \<noteq> CHR 0x00) line)) (\<lambda>(arrival_time, r).
     Option.bind (strtok r) (\<lambda>(run_time, r).
     map_option (\<lambda>(priority, _). \<lparr>sj_id = jid, sj_arrival = strtol_int arrival_time, sj_run = strtol_int run_time,
       sj_priority = strtol_int priority, sj_core = - 1, sj_arrived = False\<rparr>) (strtok r)))"

lemma fgets_shorter: "fgets file = Some (line, rest) \<Longrightarrow> length rest < length file"
  by (cases "take 1023 file") (auto simp: fgets_def Let_def split: if_splits)

function parse_jobs :: "int \<Rightarrow> string \<Rightarrow> sim_job list option" where
  "parse_jobs jid file = (case fgets file of None \<Rightarrow> Some []
     | Some (line, rest) \<Rightarrow> Option.bind (parse_job jid line) (\<lambda>j. map_option ((#) j) (parse_jobs (jid + 1) rest)))"
  by pat_completeness auto
termination
  by (relation "measure (\<lambda>(jid, file). length file)") (auto dest: fgets_shorter)

declare parse_jobs.simps [simp del]

definition parse_job_file :: "string \<Rightarrow> sim_job list option" where
  "parse_job_file file = parse_jobs 0 (case fgets file of None \<Rightarrow> [] | Some (_, rest) \<Rightarrow> rest)"

definition loaded_line :: "nat \<Rightarrow> nat \<Rightarrow> scheme_t \<Rightarrow> int \<Rightarrow> string" where
  "loaded_line cores n scheme quantum = ''Loaded '' @ show_nat cores @ '' core(s) and '' @ show_nat n @ '' job(s) using ''
     @ (case scheme of FCFS \<Rightarrow> ''First Come First Served (FCFS)'' | SJF \<Rightarrow> ''Non-preemptive Shortest Job First (SJF)''
        | PSJF \<Rightarrow> ''Preemptive Shortest Job First (PSJF)'' | PRI \<Rightarrow> ''Non-preemptive Priority (PRI)''
        | PPRI \<Rightarrow> ''Preemptive Priority (PPRI)''
        | RR \<Rightarrow> ''Round Robin (RR) with a quantum of '' @ show_int quantum)
     @ '' scheduling...'' @ nl @ nl"

section \<open>The program\<close>

text \<open>The exit code with what was written to the two streams.\<close>

definition run_simulator :: "(rat option \<Rightarrow> string) \<Rightarrow> scheme_t \<Rightarrow> int \<Rightarrow> nat \<Rightarrow> sim_job list
    \<Rightarrow> (int \<times> string list \<times> string) option" where
  "run_simulator show_2f scheme quantum cores js =
     Option.bind (start_simulation scheme cores js [loaded_line cores (length js) scheme quantum]) (\<lambda>s.
     map_option (\<lambda>r. case r of Inl s \<Rightarrow> (3, printed s, [])
       | Inr s \<Rightarrow> (0, printed s @ [final_report show_2f s], [])) (simulate scheme quantum cores s))"

definition sched_simulator_main :: "(rat option \<Rightarrow> string) \<Rightarrow> (string \<Rightarrow> string option) \<Rightarrow> string \<Rightarrow> opt list \<Rightarrow> string list
    \<Rightarrow> (int \<times> string list \<times> string) option" where
  "sched_simulator_main show_2f read_file program_name os args =
     (case process_options os \<lparr>cf_cores = 0, cf_scheme = None, cf_quantum = 0\<rparr> of
       Inl msg \<Rightarrow> Some (1, [], msg @ print_usage program_name)
     | Inr c \<Rightarrow>
       if cf_cores c = 0 then Some (1, [], ''Required option -c <cores> is not present.'' @ nl @ print_usage program_name)
       else (case cf_scheme c of
         None \<Rightarrow> Some (1, [], ''Required option -s <scheme> is not present.'' @ nl @ print_usage program_name)
       | Some scheme \<Rightarrow> (case args of
           [file_name] \<Rightarrow> (case read_file file_name of
               None \<Rightarrow> Some (2, [], ''Unable to open file '' @ [CHR 0x22] @ file_name @ [CHR 0x22] @ ''.'' @ nl)
             | Some file \<Rightarrow> (case parse_job_file file of
                 None \<Rightarrow> Some (2, [], ''Illegal file format.'' @ nl)
               | Some js \<Rightarrow> run_simulator show_2f scheme (cf_quantum c) (nat (cf_cores c)) js))
         | _ \<Rightarrow> Some (1, [], ''A single input file is required.'' @ nl @ print_usage program_name))))"

end
