(* ===== verification/SchedSim_Steps.thy ===== *)
theory SchedSim_Steps
  imports SchedSim Scheduler_Runs
begin

text \<open>
  The steps of the scheduling simulator. \<open>agree\<close> relates the cores and states of the simulator's jobs
  to what the scheduler runs and keeps waiting, as tags (number, arrival and running time); every call
  of the scheduler has a lemma on tags, and every step of a time unit one that it keeps the agreement.
\<close>

section \<open>The scheduler in terms of tags\<close>

type_synonym tag = "int \<times> int \<times> int"

definition tag_of :: "job_t \<Rightarrow> tag" where
  "tag_of j = (job_id j, arrival_time j, running_time j)"

definition run_tags :: "spec \<Rightarrow> nat \<Rightarrow> tag option" where
  "run_tags sp c = map_option tag_of (sp_running sp c)"

definition wait_tags :: "spec \<Rightarrow> tag multiset" where
  "wait_tags sp = image_mset tag_of (mset (sp_waiting sp))"

lemma tag_steps [simp]:
  "tag_of (started T j) = tag_of j" "tag_of (refreshed T j) = tag_of j" "tag_of (queued T j) = tag_of j"
  "tag_of (preempted T j) = tag_of j" "tag_of (fresh_job i p a r) = (i, a, r)"
  by (simp_all add: tag_of_def started_def refreshed_def queued_def preempted_def fresh_job_def)

lemma fst_tag [simp]: "fst (tag_of j) = job_id j"
  by (simp add: tag_of_def)

lemma mset_insert_job: "mset (insert_job scheme j w) = add_mset j (mset w)"
proof -
  let ?P = "\<lambda>x. job_key scheme x \<le> job_key scheme j"
  have "mset w = mset (takeWhile ?P w @ dropWhile ?P w)" by simp
  then show ?thesis unfolding insert_job_def mset_append by simp
qed

text \<open>The choice of the next job for a core.\<close>

lemma next_tags:
  "(wait_tags sp = {#} \<and> fst (spec_next c T sp) = - 1 \<and> run_tags (snd (spec_next c T sp)) = (run_tags sp)(c := None)
      \<and> wait_tags (snd (spec_next c T sp)) = {#})
   \<or> (\<exists>t w. wait_tags sp = add_mset t w \<and> fst (spec_next c T sp) = fst t
      \<and> run_tags (snd (spec_next c T sp)) = (run_tags sp)(c \<mapsto> t) \<and> wait_tags (snd (spec_next c T sp)) = w)"
  by (cases "sp_waiting sp") (auto simp: spec_next_def run_tags_def wait_tags_def fun_eq_iff)

lemma accounted_tags [simp]: "run_tags (accounted c T sp) = run_tags sp" "wait_tags (accounted c T sp) = wait_tags sp"
  by (simp_all add: run_tags_def wait_tags_def fun_eq_iff)

lemma expire_tags:
  assumes "run_tags sp c = Some u"
  shows "\<exists>t w. add_mset u (wait_tags sp) = add_mset t w \<and> fst (spec_expire scheme c T sp) = fst t
    \<and> run_tags (snd (spec_expire scheme c T sp)) = (run_tags sp)(c \<mapsto> t)
    \<and> wait_tags (snd (spec_expire scheme c T sp)) = w"
proof -
  obtain j where j: "sp_running sp c = Some j" "u = tag_of j" using assms by (auto simp: run_tags_def)
  let ?sp = "sp\<lparr>sp_waiting := insert_job scheme (queued T j) (sp_waiting sp)\<rparr>"
  have e: "spec_expire scheme c T sp = spec_next c T ?sp" using j(1) by (simp add: spec_expire_def)
  have w: "wait_tags ?sp = add_mset u (wait_tags sp)" "run_tags ?sp = run_tags sp"
    by (simp_all add: wait_tags_def run_tags_def mset_insert_job j(2) fun_eq_iff)
  show ?thesis using next_tags[of ?sp c T] unfolding e w by auto
qed

definition old_tag :: "tag option \<Rightarrow> tag multiset" where
  "old_tag t = (case t of None \<Rightarrow> {#} | Some t \<Rightarrow> {#t#})"

lemma enqueue_tags:
  "run_tags (snd (spec_enqueue scheme j T sp)) = run_tags sp"
  "wait_tags (snd (spec_enqueue scheme j T sp)) = add_mset (tag_of j) (wait_tags sp)"
  "fst (spec_enqueue scheme j T sp) = - 1"
  by (simp_all add: spec_enqueue_def run_tags_def wait_tags_def mset_insert_job fun_eq_iff)

lemma refresh_tags [simp]: "run_tags (refresh_all T sp) = run_tags sp" "wait_tags (refresh_all T sp) = wait_tags sp"
  by (simp_all add: run_tags_def wait_tags_def fun_eq_iff option.map_comp o_def)

lemma arrive_tags:
  assumes "0 < n"
  shows "(\<exists>c<n. fst (spec_arrive scheme n j T sp) = int c
      \<and> run_tags (snd (spec_arrive scheme n j T sp)) = (run_tags sp)(c \<mapsto> tag_of j)
      \<and> wait_tags (snd (spec_arrive scheme n j T sp)) = wait_tags sp + old_tag (run_tags sp c))
    \<or> (fst (spec_arrive scheme n j T sp) = - 1 \<and> run_tags (snd (spec_arrive scheme n j T sp)) = run_tags sp
      \<and> wait_tags (snd (spec_arrive scheme n j T sp)) = add_mset (tag_of j) (wait_tags sp))"
proof (cases "idle_cores n sp = {}")
  case False
  let ?c = "Min (idle_cores n sp)"
  have c: "?c < n" "?c \<in> idle_cores n sp" using idle_Min[OF False] Min_in[OF _ False] by (auto simp: idle_cores_eq)
  then have "run_tags sp ?c = None" by (simp add: idle_cores_eq run_tags_def)
  then show ?thesis using False c(1)
    by (auto simp: spec_arrive_def Let_def run_tags_def wait_tags_def old_tag_def fun_eq_iff)
next
  case True
  show ?thesis
  proof (cases "scheme = PSJF \<or> scheme = PPRI")
    case False
    then show ?thesis using True by (simp add: spec_arrive_def enqueue_tags)
  next
    case p: True
    then have a: "spec_arrive scheme n j T sp = spec_preempt scheme n j T sp"
      using True by (simp add: spec_arrive_def)
    show ?thesis
    proof (rule spec_preempt_cases[of T sp scheme n j])
      fix w v
      assume v: "sp_running (refresh_all T sp) w = v" "w = worst_core scheme (sp_running (refresh_all T sp)) (n - 1)"
        and eq: "spec_preempt scheme n j T sp = (int w, (refresh_all T sp)
          \<lparr>sp_running := (sp_running (refresh_all T sp))(w \<mapsto> started T j),
           sp_waiting := insert_job scheme (preempted T (the v)) (sp_waiting sp)\<rparr>)"
      obtain v' where v': "v = Some v'" using worst_running[OF True assms, of T scheme] v by metis
      then have r: "run_tags sp w = Some (tag_of v')"
        using v(1) by (auto simp: run_tags_def)
      have "w < n" unfolding v(2) using worst_core_le[of scheme _ "n - 1"] assms
        by (meson diff_less le_less_trans zero_less_one)
      moreover have "run_tags (snd (spec_arrive scheme n j T sp)) = (run_tags sp)(w \<mapsto> tag_of j)"
        unfolding a eq by (simp add: run_tags_def fun_eq_iff option.map_comp o_def)
      moreover have "wait_tags (snd (spec_arrive scheme n j T sp)) = wait_tags sp + old_tag (run_tags sp w)"
        unfolding a eq r by (simp add: wait_tags_def mset_insert_job old_tag_def v')
      ultimately show ?thesis unfolding a eq by auto
    qed (simp add: a enqueue_tags)
  qed
qed

section \<open>Jobs of the simulator and of the scheduler\<close>

definition sim_tag :: "(int \<Rightarrow> int) \<Rightarrow> sim_job \<Rightarrow> tag" where
  "sim_tag rt j = (sj_id j, sj_arrival j, rt (sj_id j))"

abbreviation on_core :: "sim_job \<Rightarrow> bool" where
  "on_core j \<equiv> sj_core j \<noteq> - 1"

fun run_of :: "(int \<Rightarrow> int) \<Rightarrow> sim_job list \<Rightarrow> nat \<Rightarrow> tag option" where
  "run_of rt [] = Map.empty"
| "run_of rt (j # js) = (if on_core j then (run_of rt js)(nat (sj_core j) \<mapsto> sim_tag rt j) else run_of rt js)"

fun wait_of :: "(int \<Rightarrow> int) \<Rightarrow> sim_job list \<Rightarrow> tag multiset" where
  "wait_of rt [] = {#}"
| "wait_of rt (j # js) = (if sj_arrived j \<and> \<not> on_core j then add_mset (sim_tag rt j) (wait_of rt js) else wait_of rt js)"

fun valid :: "(int \<Rightarrow> int) \<Rightarrow> sim_job list \<Rightarrow> bool" where
  "valid rt [] \<longleftrightarrow> True"
| "valid rt (j # js) \<longleftrightarrow> sj_id j \<notin> sj_id ` set js \<and> valid rt js
     \<and> (on_core j \<longrightarrow> 0 \<le> sj_core j \<and> sj_arrived j \<and> run_of rt js (nat (sj_core j)) = None)"

text \<open>Lists with the same jobs in another order.\<close>

definition same :: "(int \<Rightarrow> int) \<Rightarrow> sim_job list \<Rightarrow> sim_job list \<Rightarrow> bool" where
  "same rt js js' \<longleftrightarrow> (valid rt js \<longleftrightarrow> valid rt js') \<and> (valid rt js \<longrightarrow> run_of rt js = run_of rt js')
     \<and> wait_of rt js = wait_of rt js' \<and> sj_id ` set js = sj_id ` set js'"

lemma same_refl: "same rt js js"
  by (simp add: same_def)

lemma same_sym: "same rt a b \<Longrightarrow> same rt b a"
  by (auto simp: same_def)

lemma same_trans: "same rt a b \<Longrightarrow> same rt b c \<Longrightarrow> same rt a c"
  by (simp add: same_def)

lemma same_Cons: "same rt js js' \<Longrightarrow> same rt (x # js) (x # js')"
  by (auto simp: same_def)

lemma run_of_swap:
  assumes "valid rt (a # b # js)"
  shows "run_of rt (a # b # js) = run_of rt (b # a # js)"
  using assms fun_upd_twist[of "nat (sj_core a)" "nat (sj_core b)" "run_of rt js"] by (auto split: if_splits)

lemma valid_swap: "valid rt (a # b # js) \<Longrightarrow> valid rt (b # a # js)"
  by (auto split: if_splits)

lemma same_swap: "same rt (a # b # js) (b # a # js)"
proof -
  have "valid rt (a # b # js) \<longleftrightarrow> valid rt (b # a # js)" using valid_swap by blast
  moreover have "wait_of rt (a # b # js) = wait_of rt (b # a # js)" by simp
  moreover have "sj_id ` set (a # b # js) = sj_id ` set (b # a # js)" by auto
  ultimately show ?thesis using run_of_swap unfolding same_def by metis
qed

lemma same_front: "same rt (xs @ j # ys) (j # xs @ ys)"
proof (induction xs)
  case Nil
  then show ?case by (simp add: same_refl)
next
  case (Cons x xs)
  then show ?case using same_trans[OF same_Cons same_swap] by auto
qed

lemma wait_of_tag:
  assumes "t \<in># wait_of rt js"
  shows "\<exists>j\<in>set js. sim_tag rt j = t"
  using assms by (induction js) (auto split: if_splits)

text \<open>One job of the array and the others.\<close>

definition others :: "nat \<Rightarrow> sim_job list \<Rightarrow> sim_job list" where
  "others i js = take i js @ drop (Suc i) js"

lemma same_nth: "i < length js \<Longrightarrow> same rt js (js ! i # others i js)"
  using same_front[of rt "take i js" "js ! i" "drop (Suc i) js"] by (simp add: others_def id_take_nth_drop[symmetric])

lemma same_update: "i < length js \<Longrightarrow> same rt (js[i := x]) (x # others i js)"
  using same_front[of rt "take i js" x "drop (Suc i) js"] by (simp add: others_def upd_conv_take_nth_drop)

lemma same_drop:
  assumes "i < length js"
  shows "same rt (drop_job i js) (others i js)"
proof (cases "i = length js - 1")
  case True
  then have "others i js = butlast js" using assms by (simp add: others_def butlast_conv_take)
  then show ?thesis using True by (simp add: drop_job_def same_refl)
next
  case False
  then obtain ys l where ys: "drop (Suc i) js = ys @ [l]" using assms by (cases "drop (Suc i) js" rule: rev_cases) auto
  then have "last js = l" using assms last_drop[of "Suc i" js] False by simp
  then have "js[i := last js] = (take i js @ l # ys) @ [l]"
    using assms ys by (simp add: upd_conv_take_nth_drop)
  then have "drop_job i js = take i js @ l # ys" using False by (simp only: drop_job_def butlast_snoc if_True not_False_eq_True)
  moreover have "same rt (take i js @ l # ys) (take i js @ ys @ [l])"
    using same_trans[OF same_front[of rt "take i js" l ys] same_sym[OF same_front[of rt "take i js @ ys" l "[]", simplified]]] .
  ultimately show ?thesis by (simp add: others_def ys)
qed

text \<open>What the other steps keep of a job when they move it to a core.\<close>

definition strip :: "sim_job \<Rightarrow> sim_job" where
  "strip j = j\<lparr>sj_core := - 1\<rparr>"

lemma strip_fields:
  assumes "strip j = strip j'"
  shows "sj_id j = sj_id j'" "sj_arrival j = sj_arrival j'" "sj_run j = sj_run j'" "sj_priority j = sj_priority j'"
    "sj_arrived j = sj_arrived j'"
proof -
  show "sj_id j = sj_id j'" using arg_cong[OF assms, of sj_id] by (simp add: strip_def)
  show "sj_arrival j = sj_arrival j'" using arg_cong[OF assms, of sj_arrival] by (simp add: strip_def)
  show "sj_run j = sj_run j'" using arg_cong[OF assms, of sj_run] by (simp add: strip_def)
  show "sj_priority j = sj_priority j'" using arg_cong[OF assms, of sj_priority] by (simp add: strip_def)
  show "sj_arrived j = sj_arrived j'" using arg_cong[OF assms, of sj_arrived] by (simp add: strip_def)
qed

lemma sim_tag_strip: "strip j = strip j' \<Longrightarrow> sim_tag rt j = sim_tag rt j'"
  using strip_fields(1,2)[of j j'] by (simp add: sim_tag_def)

lemma sim_tag_core [simp]: "sim_tag rt (j\<lparr>sj_core := c\<rparr>) = sim_tag rt j"
  by (simp add: sim_tag_def)

lemma ids_strip: "map strip js = map strip js' \<Longrightarrow> sj_id ` set js = sj_id ` set js'"
proof -
  assume "map strip js = map strip js'"
  then have "map (sj_id \<circ> strip) js = map (sj_id \<circ> strip) js'" by (metis list.map_comp)
  then have "map sj_id js = map sj_id js'" by (simp add: strip_def o_def)
  then show ?thesis by (metis list.set_map)
qed

lemma set_active_ok:
  assumes "valid rt js" "t \<in># wait_of rt js" "run_of rt js c = None"
  shows "\<exists>js'. set_active_job (fst t) (int c) js = Some js' \<and> valid rt js' \<and> run_of rt js' = (run_of rt js)(c \<mapsto> t)
    \<and> wait_of rt js = add_mset t (wait_of rt js') \<and> map strip js' = map strip js"
  using assms
proof (induction js)
  case Nil
  then show ?case by simp
next
  case (Cons j js)
  show ?case
  proof (cases "sj_id j = fst t \<and> sj_arrived j")
    case True
    have "t \<notin># wait_of rt js"
      using wait_of_tag[of t rt js] Cons.prems(1) True by (auto simp: sim_tag_def)
    then have j: "\<not> on_core j" "t = sim_tag rt j" using Cons.prems(2) by (auto split: if_splits)
    let ?js = "j\<lparr>sj_core := int c\<rparr> # js"
    have "run_of rt ?js = (run_of rt (j # js))(c \<mapsto> t)" "valid rt ?js" "map strip ?js = map strip (j # js)"
      "wait_of rt (j # js) = add_mset t (wait_of rt ?js)"
      using j Cons.prems True by (simp_all add: strip_def)
    then show ?thesis using True by (intro exI[of _ ?js]) simp
  next
    case False
    then have t: "t \<in># wait_of rt js" using Cons.prems(2) by (auto simp: sim_tag_def split: if_splits)
    have v: "valid rt js" using Cons.prems(1) by simp
    have c: "run_of rt js c = None" "on_core j \<longrightarrow> nat (sj_core j) \<noteq> c" using Cons.prems(3) by (auto split: if_splits)
    obtain js' where js': "set_active_job (fst t) (int c) js = Some js'" "valid rt js'"
      "run_of rt js' = (run_of rt js)(c \<mapsto> t)" "wait_of rt js = add_mset t (wait_of rt js')" "map strip js' = map strip js"
      using Cons.IH[OF v t c(1)] by blast
    have "sj_id ` set js' = sj_id ` set js" using ids_strip[OF js'(5)] .
    then have "valid rt (j # js')" using js'(2,3) c(2) Cons.prems(1) by simp
    moreover have "run_of rt (j # js') = (run_of rt (j # js))(c \<mapsto> t)"
      using c(2) by (simp add: js'(3) fun_upd_twist)
    moreover have "wait_of rt (j # js) = add_mset t (wait_of rt (j # js'))"
      using js'(4) by (simp add: add_mset_commute)
    moreover have "set_active_job (fst t) (int c) (j # js) = Some (j # js')" using js'(1) False by auto
    ultimately show ?thesis using js'(5) by (intro exI[of _ "j # js'"]) simp
  qed
qed

text \<open>Taking the job off a core.\<close>

definition clear_core :: "int \<Rightarrow> sim_job \<Rightarrow> sim_job" where
  "clear_core c j = (if sj_core j = c then j\<lparr>sj_core := - 1\<rparr> else j)"

lemma clear_core_strip [simp]: "strip (clear_core c j) = strip j"
  by (simp add: clear_core_def strip_def)

lemma clear_core_ok:
  assumes "valid rt js"
  shows "valid rt (map (clear_core (int c)) js) \<and> run_of rt (map (clear_core (int c)) js) = (run_of rt js)(c := None)
    \<and> wait_of rt (map (clear_core (int c)) js) = wait_of rt js + old_tag (run_of rt js c)"
  using assms
proof (induction js)
  case Nil
  then show ?case by (simp add: old_tag_def)
next
  case (Cons j js)
  have ids: "sj_id ` set (map (clear_core (int c)) js) = sj_id ` set js"
    by (rule ids_strip) (simp add: o_def)
  have f: "sj_id (clear_core (int c) j) = sj_id j" "sj_arrived (clear_core (int c) j) = sj_arrived j"
    "sim_tag rt (clear_core (int c) j) = sim_tag rt j"
    by (simp_all add: clear_core_def)
  have v: "valid rt js" using Cons.prems by simp
  have IH: "valid rt (map (clear_core (int c)) js)" "run_of rt (map (clear_core (int c)) js) = (run_of rt js)(c := None)"
    "wait_of rt (map (clear_core (int c)) js) = wait_of rt js + old_tag (run_of rt js c)"
    using Cons.IH[OF v] by blast+
  show ?case
  proof (cases "on_core j")
    case False
    then have "clear_core (int c) j = j" by (simp add: clear_core_def)
    then show ?thesis using IH Cons.prems False ids by simp
  next
    case True
    then have p: "0 \<le> sj_core j" "sj_arrived j" "run_of rt js (nat (sj_core j)) = None" using Cons.prems by simp_all
    show ?thesis
    proof (cases "sj_core j = int c")
      case eq: True
      let ?j = "clear_core (int c) j"
      have j: "\<not> on_core ?j" using eq by (simp add: clear_core_def)
      have r: "run_of rt js c = None" "run_of rt (j # js) c = Some (sim_tag rt j)" using p(3) eq True by simp_all
      have "run_of rt (j # js) = (run_of rt js)(c \<mapsto> sim_tag rt j)" using eq True by simp
      then have "run_of rt (map (clear_core (int c)) (j # js)) = (run_of rt (j # js))(c := None)"
        using j IH(2) by simp
      moreover have "wait_of rt (map (clear_core (int c)) (j # js)) = wait_of rt (j # js) + old_tag (run_of rt (j # js) c)"
        unfolding r(2) using j IH(3) r(1) f p(2) True by (simp add: old_tag_def)
      moreover have "valid rt (map (clear_core (int c)) (j # js))"
        using j IH(1) f(1) ids Cons.prems by simp
      ultimately show ?thesis by blast
    next
      case ne: False
      then have c: "nat (sj_core j) \<noteq> c" "clear_core (int c) j = j" using p(1) by (auto simp: clear_core_def)
      have "run_of rt (map (clear_core (int c)) (j # js)) = (run_of rt (j # js))(c := None)"
        using True by (simp add: c(2) IH(2) fun_upd_twist[OF c(1)])
      moreover have "valid rt (map (clear_core (int c)) (j # js))"
        using IH(1,2) Cons.prems True ids p by (simp add: c(2))
      moreover have "run_of rt (j # js) c = run_of rt js c" using c(1) True by simp
      then have "wait_of rt (map (clear_core (int c)) (j # js)) = wait_of rt (j # js) + old_tag (run_of rt (j # js) c)"
        using IH(3) True by (simp only: list.map c(2) wait_of.simps simp_thms if_False)
      ultimately show ?thesis by blast
    qed
  qed
qed

lemma mset_others:
  assumes "i < length js"
  shows "mset js = add_mset (js ! i) (mset (others i js))" "mset (drop_job i js) = mset (others i js)"
proof -
  have "mset js = mset (take i js @ js ! i # drop (Suc i) js)" using assms by (simp add: id_take_nth_drop[symmetric])
  then show eq: "mset js = add_mset (js ! i) (mset (others i js))" by (simp add: others_def)
  show "mset (drop_job i js) = mset (others i js)"
  proof (cases "i = length js - 1")
    case True
    then have "others i js = butlast js" using assms by (simp add: others_def butlast_conv_take)
    then show ?thesis using True by (simp add: drop_job_def)
  next
    case False
    let ?js = "js[i := last js]"
    have "js \<noteq> []" using assms by auto
    then have ne: "?js \<noteq> []" "last ?js = last js" using False by (auto simp: last_list_update)
    then have "?js = butlast ?js @ [last js]" by (metis append_butlast_last_id)
    then have "mset ?js = mset (butlast ?js @ [last js])" by (rule arg_cong[of _ _ mset])
    then have "mset ?js = add_mset (last js) (mset (butlast ?js))" unfolding mset_append by simp
    moreover have "last js \<in># mset (others i js)"
    proof -
      have "last js = last (drop (Suc i) js)" "drop (Suc i) js \<noteq> []" using assms False by (auto simp: last_drop)
      then show ?thesis by (metis UnCI last_in_set others_def set_append set_mset_mset)
    qed
    then have "mset ?js = add_mset (last js) (mset (others i js))"
      using mset_update[OF assms, of "last js"] eq by simp
    ultimately show ?thesis using False by (simp add: drop_job_def)
  qed
qed

section \<open>Calls of the scheduler\<close>

definition sched_ok :: "scheme_t \<Rightarrow> nat \<Rightarrow> int \<Rightarrow> sched \<Rightarrow> bool" where
  "sched_ok scheme n T sch \<longleftrightarrow> 0 < n \<and> sched_inv {} {} sch \<and> g_scheme sch = scheme \<and> g_total_cores sch = n
     \<and> schedule_inv scheme n T (sched_abs sch)"

lemma sched_ok_mono: "sched_ok scheme n T sch \<Longrightarrow> T \<le> T' \<Longrightarrow> sched_ok scheme n T' sch"
  using clocked_mono by (auto simp: sched_ok_def schedule_inv_def)

lemma call_ok:
  assumes "sched_ok scheme n T sch" "enabled scheme e (sched_abs sch)" "event_time e = T"
  shows "\<exists>sch'. sched_step e sch = Some (fst (spec_step scheme n e (sched_abs sch)), sch') \<and> sched_ok scheme n T sch'
    \<and> sched_abs sch' = snd (spec_step scheme n e (sched_abs sch))"
proof -
  have a: "0 < n" "sched_inv {} {} sch" "g_scheme sch = scheme" "g_total_cores sch = n"
    "schedule_inv scheme n T (sched_abs sch)"
    using assms(1) by (simp_all add: sched_ok_def)
  have "enabled (g_scheme sch) e (sched_abs sch)" using assms(2) a(3) by simp
  from step_ok[OF a(2) this] obtain sch' where
    s: "sched_step e sch = Some (fst (spec_step scheme n e (sched_abs sch)), sch')" "sched_inv {} {} sch'"
      "sched_abs sch' = snd (spec_step scheme n e (sched_abs sch))" "same_conf sch sch'"
    unfolding a(3,4) by blast
  have "schedule_inv scheme n T (sched_abs sch')"
    using step_schedule_inv[OF a(5) assms(2) _ a(1)] assms(3) s(3) by simp
  then show ?thesis using s a by (auto simp: sched_ok_def same_conf_def)
qed

definition totals :: "spec \<Rightarrow> int \<times> int \<times> int" where
  "totals sp = (sp_jobs sp, sp_turnaround_time sp, sp_waiting_time sp)"

definition add_job :: "int \<Rightarrow> tag \<Rightarrow> int \<times> int \<times> int \<Rightarrow> int \<times> int \<times> int" where
  "add_job T = (\<lambda>(i, a, r) (k, t, w). (k + 1, t + (T - a), w + (T - a - r)))"

text \<open>What the jobs of the simulator say about the state of the scheduler.\<close>

definition agree :: "(int \<Rightarrow> int) \<Rightarrow> sim_job list \<Rightarrow> spec \<Rightarrow> bool" where
  "agree rt js sp \<longleftrightarrow> valid rt js \<and> run_of rt js = run_tags sp \<and> wait_of rt js = wait_tags sp"

lemma finish_call:
  assumes "sched_ok scheme n T sch" "run_tags (sched_abs sch) c = Some t"
  shows "\<exists>r sch'. scheduler_job_finished (int c) i T sch = Some (r, sch') \<and> sched_ok scheme n T sch'
    \<and> totals (sched_abs sch') = add_job T t (totals (sched_abs sch))
    \<and> ((wait_tags (sched_abs sch) = {#} \<and> r = - 1 \<and> run_tags (sched_abs sch') = (run_tags (sched_abs sch))(c := None)
        \<and> wait_tags (sched_abs sch') = {#})
      \<or> (\<exists>u w. wait_tags (sched_abs sch) = add_mset u w \<and> r = fst u
        \<and> run_tags (sched_abs sch') = (run_tags (sched_abs sch))(c \<mapsto> u) \<and> wait_tags (sched_abs sch') = w))"
proof -
  let ?sp = "sched_abs sch"
  obtain j where j: "sp_running ?sp c = Some j" "t = tag_of j" using assms(2) by (auto simp: run_tags_def)
  have "enabled scheme (Finish c i T) ?sp" using j by (simp add: enabled_def)
  from call_ok[OF assms(1) this] obtain sch' where
    s: "scheduler_job_finished (int c) i T sch = Some (fst (spec_finish c T ?sp), sch')" "sched_ok scheme n T sch'"
      "sched_abs sch' = snd (spec_finish c T ?sp)"
    by (auto simp: event_time_def sched_step_def spec_step_def)
  have "totals (sched_abs sch') = add_job T t (totals ?sp)"
    unfolding s(3) spec_finish_accounted by (simp add: totals_def add_job_def accounted_def j tag_of_def Let_def)
  then show ?thesis
    using s next_tags[of "accounted c T ?sp" c T] by (auto simp: spec_finish_accounted)
qed

lemma expire_call:
  assumes "sched_ok RR n T sch" "run_tags (sched_abs sch) c = Some t"
  shows "\<exists>sch' u w. scheduler_quantum_expired (int c) T sch = Some (fst u, sch') \<and> sched_ok RR n T sch'
    \<and> totals (sched_abs sch') = totals (sched_abs sch) \<and> add_mset t (wait_tags (sched_abs sch)) = add_mset u w
    \<and> run_tags (sched_abs sch') = (run_tags (sched_abs sch))(c \<mapsto> u) \<and> wait_tags (sched_abs sch') = w"
proof -
  let ?sp = "sched_abs sch"
  obtain j where j: "sp_running ?sp c = Some j" "t = tag_of j" using assms(2) by (auto simp: run_tags_def)
  have "enabled RR (Expire c T) ?sp" using j by (simp add: enabled_def)
  from call_ok[OF assms(1) this] obtain sch' where
    s: "scheduler_quantum_expired (int c) T sch = Some (fst (spec_expire RR c T ?sp), sch')" "sched_ok RR n T sch'"
      "sched_abs sch' = snd (spec_expire RR c T ?sp)"
    by (auto simp: event_time_def sched_step_def spec_step_def)
  have "totals (sched_abs sch') = totals ?sp" unfolding s(3) spec_expire_def by (simp add: totals_def)
  then show ?thesis using s expire_tags[OF assms(2), of RR T] by auto
qed

lemma arrive_call:
  assumes "sched_ok scheme n T sch"
  shows "\<exists>r sch'. scheduler_new_job i T run pri sch = Some (r, sch') \<and> sched_ok scheme n T sch'
    \<and> totals (sched_abs sch') = totals (sched_abs sch)
    \<and> ((\<exists>c<n. r = int c \<and> run_tags (sched_abs sch') = (run_tags (sched_abs sch))(c \<mapsto> (i, T, run))
        \<and> wait_tags (sched_abs sch') = wait_tags (sched_abs sch) + old_tag (run_tags (sched_abs sch) c))
      \<or> (r = - 1 \<and> run_tags (sched_abs sch') = run_tags (sched_abs sch)
        \<and> wait_tags (sched_abs sch') = add_mset (i, T, run) (wait_tags (sched_abs sch))))"
proof -
  let ?sp = "sched_abs sch" and ?j = "fresh_job i pri T run"
  have n: "0 < n" using assms by (simp add: sched_ok_def)
  have "enabled scheme (Arrive i T run pri) ?sp" by (simp add: enabled_def)
  from call_ok[OF assms this] obtain sch' where
    s: "scheduler_new_job i T run pri sch = Some (fst (spec_arrive scheme n ?j T ?sp), sch')" "sched_ok scheme n T sch'"
      "sched_abs sch' = snd (spec_arrive scheme n ?j T ?sp)"
    by (auto simp: event_time_def sched_step_def spec_step_def)
  have "totals (sched_abs sch') = totals ?sp" unfolding s(3) by (simp add: totals_def)
  then show ?thesis using s arrive_tags[OF n, of scheme ?j T ?sp] by auto
qed

section \<open>The steps of a time unit\<close>

definition consistent :: "scheme_t \<Rightarrow> nat \<Rightarrow> (int \<Rightarrow> int) \<Rightarrow> simulation \<Rightarrow> bool" where
  "consistent scheme n rt s \<longleftrightarrow> sched_ok scheme n (clock s) (sched_of s)
     \<and> agree rt (sim_jobs s) (sched_abs (sched_of s)) \<and> (\<forall>j\<in>set (sim_jobs s). 0 \<le> sj_id j)
     \<and> length (quantum_clock s) = n \<and> length (core_timing_diagram s) = n
     \<and> jobs_alive s = int (size (filter_mset sj_arrived (mset (sim_jobs s))))"

abbreviation totals_of :: "simulation \<Rightarrow> int \<times> int \<times> int" where
  "totals_of s \<equiv> totals (sched_abs (sched_of s))"

text \<open>The cores the scheduler uses exist, and a job on a core is what the scheduler runs there.\<close>

lemma consistent_bound:
  assumes "consistent scheme n rt s" "run_tags (sched_abs (sched_of s)) c \<noteq> None"
  shows "c < n"
  using assms by (auto simp: consistent_def sched_ok_def schedule_inv_def run_tags_def)

lemma valid_on_core:
  assumes "valid rt js" "j \<in> set js" "on_core j"
  shows "0 \<le> sj_core j \<and> sj_arrived j \<and> run_of rt js (nat (sj_core j)) = Some (sim_tag rt j)"
  using assms by (induction js) auto

lemma agree_same: "same rt js js' \<Longrightarrow> agree rt js sp \<longleftrightarrow> agree rt js' sp"
  by (auto simp: agree_def same_def)

lemma set_new_idle: "\<exists>w. set_new_job who what old core (- 1) s = Some (Inr (s\<lparr>printed := w\<rparr>))"
  by (auto simp: set_new_job_def print_def Let_def)

lemma set_new_ok:
  assumes "valid rt (sim_jobs s)" "run_of rt (sim_jobs s) c = None" "t \<in># wait_of rt (sim_jobs s)"
    "\<forall>j\<in>set (sim_jobs s). 0 \<le> sj_id j"
  shows "\<exists>js w. set_new_job who what old (int c) (fst t) s = Some (Inr (s\<lparr>sim_jobs := js, printed := w\<rparr>))
    \<and> valid rt js \<and> run_of rt js = (run_of rt (sim_jobs s))(c \<mapsto> t)
    \<and> wait_of rt (sim_jobs s) = add_mset t (wait_of rt js) \<and> map strip js = map strip (sim_jobs s)"
proof -
  obtain js where js: "set_active_job (fst t) (int c) (sim_jobs s) = Some js" "valid rt js"
    "run_of rt js = (run_of rt (sim_jobs s))(c \<mapsto> t)" "wait_of rt (sim_jobs s) = add_mset t (wait_of rt js)"
    "map strip js = map strip (sim_jobs s)"
    using set_active_ok[OF assms(1,3,2)] by blast
  obtain j where "j \<in> set (sim_jobs s)" "sim_tag rt j = t" using wait_of_tag[OF assms(3)] by blast
  then have "fst t \<noteq> - 1" using assms(4) by (auto simp: sim_tag_def)
  then have "set_new_job who what old (int c) (fst t) s = Some (Inr (print (''Job '' @ show_int old
      @ '', running on core '' @ show_int (int c) @ what @ ''. Core '' @ show_int (int c)
      @ '' is now running job '' @ show_int (fst t) @ ''.'' @ nl @ queue_line) (s\<lparr>sim_jobs := js\<rparr>)))"
    using js(1) by (simp add: set_new_job_def Let_def)
  then show ?thesis using js(2-) unfolding print_def by auto
qed

lemma strip_arrived:
  assumes "map strip js = map strip js'"
  shows "size (filter_mset sj_arrived (mset js)) = size (filter_mset sj_arrived (mset js'))"
    "(\<forall>j\<in>set js. 0 \<le> sj_id j) \<longleftrightarrow> (\<forall>j\<in>set js'. 0 \<le> sj_id j)"
proof -
  have "map sj_arrived (map strip js) = map sj_arrived (map strip js')" using assms by simp
  then have a: "map sj_arrived js = map sj_arrived js'" by (simp add: strip_def o_def)
  have f: "size (filter_mset sj_arrived (mset xs)) = length (filter id (map sj_arrived xs))" for xs
    by (induction xs) auto
  show "size (filter_mset sj_arrived (mset js)) = size (filter_mset sj_arrived (mset js'))" unfolding f a ..
  have g: "(\<forall>j\<in>set xs. 0 \<le> sj_id j) \<longleftrightarrow> (\<forall>i\<in>sj_id ` set xs. 0 \<le> i)" for xs by simp
  show "(\<forall>j\<in>set js. 0 \<le> sj_id j) \<longleftrightarrow> (\<forall>j\<in>set js'. 0 \<le> sj_id j)"
    unfolding g ids_strip[OF assms] ..
qed

text \<open>One job leaves its core, and the core goes to the job the scheduler chose.\<close>

lemma agree_next:
  assumes old: "valid rt (sim_jobs s)" "run_of rt (sim_jobs s) = r(c := None)" "wait_of rt (sim_jobs s) = w"
    and ids: "\<forall>j\<in>set (sim_jobs s). 0 \<le> sj_id j"
    and nxt: "(w = {#} \<and> new = - 1 \<and> run_tags sp = r(c := None) \<and> wait_tags sp = {#})
      \<or> (\<exists>u v. w = add_mset u v \<and> new = fst u \<and> run_tags sp = r(c \<mapsto> u) \<and> wait_tags sp = v)"
  shows "\<exists>js p. set_new_job who what i (int c) new s = Some (Inr (s\<lparr>sim_jobs := js, printed := p\<rparr>))
    \<and> agree rt js sp \<and> map strip js = map strip (sim_jobs s)"
  using nxt
proof (elim disjE exE conjE)
  assume a: "w = {#}" "new = - 1" "run_tags sp = r(c := None)" "wait_tags sp = {#}"
  obtain p where "set_new_job who what i (int c) new s = Some (Inr (s\<lparr>printed := p\<rparr>))"
    using set_new_idle a(2) by blast
  then show ?thesis using old a by (intro exI[of _ "sim_jobs s"] exI[of _ p]) (simp add: agree_def)
next
  fix u v
  assume a: "w = add_mset u v" "new = fst u" "run_tags sp = r(c \<mapsto> u)" "wait_tags sp = v"
  have "run_of rt (sim_jobs s) c = None" "u \<in># wait_of rt (sim_jobs s)" using old a by simp_all
  from set_new_ok[OF old(1) this ids, of who what i] obtain js p where
    "set_new_job who what i (int c) (fst u) s = Some (Inr (s\<lparr>sim_jobs := js, printed := p\<rparr>))" "valid rt js"
    "run_of rt js = (run_of rt (sim_jobs s))(c \<mapsto> u)" "wait_of rt (sim_jobs s) = add_mset u (wait_of rt js)"
    "map strip js = map strip (sim_jobs s)" by blast
  then show ?thesis using a old by (intro exI[of _ js] exI[of _ p]) (simp add: agree_def)
qed

lemma set_clock_ok:
  assumes "c < length (quantum_clock s)"
  shows "set_clock (int c) v s = Some (s\<lparr>quantum_clock := (quantum_clock s)[c := v]\<rparr>)"
  using assms by (simp add: set_clock_def)

lemma leave_core:
  assumes "valid rt js" "i < length js" "on_core (js ! i)" "c = nat (sj_core (js ! i))"
  shows "sj_core (js ! i) = int c" "run_of rt js c = Some (sim_tag rt (js ! i))" "valid rt (others i js)"
    "run_of rt (others i js) = (run_of rt js)(c := None)" "wait_of rt (others i js) = wait_of rt js"
    "sj_arrived (js ! i)" "sj_id (js ! i) \<notin> sj_id ` set (others i js)"
proof -
  have s: "same rt js (js ! i # others i js)" by (rule same_nth[OF assms(2)])
  then have v: "valid rt (js ! i # others i js)" "run_of rt js = run_of rt (js ! i # others i js)"
    "wait_of rt js = wait_of rt (js ! i # others i js)" using assms(1) by (simp_all add: same_def)
  show "sj_core (js ! i) = int c" "valid rt (others i js)" "sj_arrived (js ! i)" "wait_of rt (others i js) = wait_of rt js"
    "sj_id (js ! i) \<notin> sj_id ` set (others i js)"
    using v(1,3) assms(3,4) by auto
  have r: "run_of rt (others i js) c = None" "run_of rt js = (run_of rt (others i js))(c \<mapsto> sim_tag rt (js ! i))"
    using v(1,2) assms(3,4) by auto
  then show "run_of rt js c = Some (sim_tag rt (js ! i))" by simp
  show "run_of rt (others i js) = (run_of rt js)(c := None)"
    using r(1) fun_upd_triv[of "run_of rt (others i js)" c] unfolding r(2) by simp
qed

lemma finish_job_ok:
  assumes con: "consistent scheme n rt s" and i: "i < length (sim_jobs s)" and on: "on_core (sim_jobs s ! i)"
  shows "\<exists>s'. finish_job scheme q i s = Some (Inr s') \<and> consistent scheme n rt s' \<and> clock s' = clock s
    \<and> core_timing_diagram s' = core_timing_diagram s \<and> map strip (sim_jobs s') = map strip (drop_job i (sim_jobs s))
    \<and> totals_of s' = add_job (clock s) (sim_tag rt (sim_jobs s ! i)) (totals_of s)
    \<and> ran (run_tags (sched_abs (sched_of s))) - {sim_tag rt (sim_jobs s ! i)}
      \<subseteq> ran (run_tags (sched_abs (sched_of s')))"
proof -
  let ?js = "sim_jobs s" and ?j = "sim_jobs s ! i" and ?sp = "sched_abs (sched_of s)"
  define c where "c = nat (sj_core ?j)"
  have C: "sched_ok scheme n (clock s) (sched_of s)" "agree rt ?js ?sp" "\<forall>j\<in>set ?js. 0 \<le> sj_id j"
    "length (quantum_clock s) = n" "length (core_timing_diagram s) = n"
    "jobs_alive s = int (size (filter_mset sj_arrived (mset ?js)))" using con by (simp_all add: consistent_def)
  have A: "valid rt ?js" "run_of rt ?js = run_tags ?sp" "wait_of rt ?js = wait_tags ?sp"
    using C(2) by (simp_all add: agree_def)
  note L = leave_core[OF A(1) i on c_def]
  have run: "run_tags ?sp c = Some (sim_tag rt ?j)" using L(2) A(2) by simp
  then have cn: "c < n" using consistent_bound[OF con, of c] by simp
  obtain r sch' where f: "scheduler_job_finished (int c) (sj_id ?j) (clock s) (sched_of s) = Some (r, sch')"
    "sched_ok scheme n (clock s) sch'" "totals (sched_abs sch') = add_job (clock s) (sim_tag rt ?j) (totals ?sp)"
    "(wait_tags ?sp = {#} \<and> r = - 1 \<and> run_tags (sched_abs sch') = (run_tags ?sp)(c := None)
        \<and> wait_tags (sched_abs sch') = {#})
      \<or> (\<exists>u w. wait_tags ?sp = add_mset u w \<and> r = fst u
        \<and> run_tags (sched_abs sch') = (run_tags ?sp)(c \<mapsto> u) \<and> wait_tags (sched_abs sch') = w)"
    using finish_call[OF C(1) run, of "sj_id ?j"] by blast
  define s1 where "s1 = s\<lparr>sched_of := sch', quantum_clock := (if scheme = RR then (quantum_clock s)[c := q] else quantum_clock s),
    sim_jobs := drop_job i ?js, jobs_alive := jobs_alive s - 1\<rparr>"
  have eq: "finish_job scheme q i s = set_new_job ''scheduler_job_finished()'' '', finished'' (sj_id ?j) (int c) r s1"
    using f(1) L(1) cn C(4) set_clock_ok[of c "s\<lparr>sched_of := sch'\<rparr>" q]
    by (simp add: finish_job_def Let_def s1_def)
  have sd: "same rt (drop_job i ?js) (others i ?js)" by (rule same_drop[OF i])
  have old: "valid rt (sim_jobs s1)" "run_of rt (sim_jobs s1) = (run_tags ?sp)(c := None)" "wait_of rt (sim_jobs s1) = wait_tags ?sp"
    using sd L(3-5) A(2,3) by (simp_all add: same_def s1_def)
  have ms: "mset ?js = add_mset ?j (mset (sim_jobs s1))" using mset_others[OF i] by (simp add: s1_def)
  then have "set (sim_jobs s1) \<subseteq> set ?js" by (metis set_mset_add_mset_insert set_mset_mset subset_insertI)
  then have ids: "\<forall>j\<in>set (sim_jobs s1). 0 \<le> sj_id j" using C(3) by blast
  obtain js p where n: "set_new_job ''scheduler_job_finished()'' '', finished'' (sj_id ?j) (int c) r s1
      = Some (Inr (s1\<lparr>sim_jobs := js, printed := p\<rparr>))" "agree rt js (sched_abs sch')" "map strip js = map strip (sim_jobs s1)"
    using agree_next[OF old ids f(4)] by blast
  have "jobs_alive s1 = int (size (filter_mset sj_arrived (mset (sim_jobs s1))))"
    using C(6) ms L(6) by (simp add: s1_def)
  then have "consistent scheme n rt (s1\<lparr>sim_jobs := js, printed := p\<rparr>)"
    using f(2) n(2) C(4,5) strip_arrived[OF n(3)] ids by (simp add: consistent_def s1_def)
  moreover have "ran (run_tags ?sp) - {sim_tag rt ?j} \<subseteq> ran (run_tags (sched_abs sch'))"
  proof
    fix t
    assume "t \<in> ran (run_tags ?sp) - {sim_tag rt ?j}"
    then obtain d where d: "run_tags ?sp d = Some t" "t \<noteq> sim_tag rt ?j" by (auto simp: ran_def)
    then have "d \<noteq> c" using run by auto
    then have "run_tags (sched_abs sch') d = Some t" using f(4) d(1) by auto
    then show "t \<in> ran (run_tags (sched_abs sch'))" by (rule ranI)
  qed
  ultimately show ?thesis unfolding eq n(1) using n(3) f(3) by (auto simp: s1_def)
qed

text \<open>Step 1: exactly the jobs whose time is over leave.\<close>

lemma same_id_eq: "valid rt js \<Longrightarrow> j \<in> set js \<Longrightarrow> j' \<in> set js \<Longrightarrow> sj_id j = sj_id j' \<Longrightarrow> j = j'"
  by (induction js) (auto, metis imageI, metis imageI)

lemma run_of_job:
  assumes "run_of rt js c = Some t"
  shows "\<exists>j\<in>set js. on_core j \<and> sim_tag rt j = t"
  using assms by (induction js) (auto split: if_splits)

lemma on_core_ran:
  assumes "valid rt js" "j \<in> set js"
  shows "on_core j \<longleftrightarrow> sim_tag rt j \<in> ran (run_of rt js)"
proof
  assume "on_core j"
  then show "sim_tag rt j \<in> ran (run_of rt js)" using valid_on_core[OF assms] by (auto intro: ranI)
next
  assume "sim_tag rt j \<in> ran (run_of rt js)"
  then obtain c where "run_of rt js c = Some (sim_tag rt j)" by (auto simp: ran_def)
  then obtain j' where "j' \<in> set js" "on_core j'" "sim_tag rt j' = sim_tag rt j"
    using run_of_job by blast
  then show "on_core j" using same_id_eq[OF assms(1), of j' j] assms(2) by (simp add: sim_tag_def)
qed

definition due_on_cores :: "(int \<Rightarrow> int) \<Rightarrow> simulation \<Rightarrow> bool" where
  "due_on_cores rt s \<longleftrightarrow> (\<forall>j\<in>set (sim_jobs s). 0 \<le> sj_run j
     \<and> (sj_run j = 0 \<longrightarrow> sim_tag rt j \<in> ran (run_tags (sched_abs (sched_of s)))))"

lemma strip_in:
  assumes "map strip js = map strip js'" "j \<in> set js"
  shows "\<exists>j'\<in>set js'. strip j = strip j'"
proof -
  have "strip j \<in> set (map strip js')" using assms by (metis image_eqI list.set_map)
  then show ?thesis by auto
qed

lemma drop_job_nth: "k < i \<Longrightarrow> i < length js \<Longrightarrow> drop_job i js ! k = js ! k"
  by (auto simp: drop_job_def nth_butlast)

lemma strip_nth: "map strip js = map strip js' \<Longrightarrow> k < length js \<Longrightarrow> strip (js ! k) = strip (js' ! k)"
  by (metis length_map nth_map)

lemma finish_jobs_ok:
  assumes "consistent scheme n rt s" "due_on_cores rt s" "length (sim_jobs s) = i + m" "\<forall>k<i. 0 < sj_run (sim_jobs s ! k)"
  shows "\<exists>s' fin. finish_jobs scheme q m i s = Some (Inr s') \<and> consistent scheme n rt s' \<and> clock s' = clock s
    \<and> core_timing_diagram s' = core_timing_diagram s \<and> (\<forall>j\<in>set (sim_jobs s'). 0 < sj_run j)
    \<and> mset (map strip (sim_jobs s)) = mset (map strip (sim_jobs s')) + mset (map strip fin) \<and> (\<forall>j\<in>set fin. sj_run j = 0)
    \<and> totals_of s' = fold (add_job (clock s)) (map (sim_tag rt) fin) (totals_of s)"
  using assms
proof (induction m arbitrary: i s)
  case 0
  then have "\<forall>j\<in>set (sim_jobs s). 0 < sj_run j" by (auto simp: in_set_conv_nth)
  then show ?case using 0 by (intro exI[of _ s] exI[of _ "[]"]) simp
next
  case (Suc m)
  let ?js = "sim_jobs s"
  have i: "i < length ?js" "?js ! i \<in> set ?js" using Suc.prems(3) by simp_all
  show ?case
  proof (cases "sj_run (?js ! i) = 0")
    case False
    then have "0 < sj_run (?js ! i)" using Suc.prems(2) i(2) by (force simp: due_on_cores_def)
    then have "\<forall>k<Suc i. 0 < sj_run (?js ! k)" using Suc.prems(4) less_Suc_eq by auto
    then show ?thesis using Suc.IH[of s "Suc i"] Suc.prems False by simp
  next
    case True
    have v: "valid rt ?js" "run_of rt ?js = run_tags (sched_abs (sched_of s))"
      using Suc.prems(1) by (simp_all add: consistent_def agree_def)
    have "sim_tag rt (?js ! i) \<in> ran (run_of rt ?js)"
      using Suc.prems(2) i(2) True unfolding v(2) due_on_cores_def by blast
    then have on: "on_core (?js ! i)" using on_core_ran[OF v(1) i(2)] by simp
    obtain s1 where s1: "finish_job scheme q i s = Some (Inr s1)" "consistent scheme n rt s1" "clock s1 = clock s"
      "core_timing_diagram s1 = core_timing_diagram s" "map strip (sim_jobs s1) = map strip (drop_job i ?js)"
      "totals_of s1 = add_job (clock s) (sim_tag rt (?js ! i)) (totals_of s)"
      "ran (run_tags (sched_abs (sched_of s))) - {sim_tag rt (?js ! i)} \<subseteq> ran (run_tags (sched_abs (sched_of s1)))"
      using finish_job_ok[OF Suc.prems(1) i(1) on, of q] by blast
    have len: "length (drop_job i ?js) = i + m" using i(1) Suc.prems(3) by (simp add: drop_job_def)
    then have len1: "length (sim_jobs s1) = i + m" using arg_cong[OF s1(5), of length] by simp
    have dr: "set (drop_job i ?js) \<subseteq> set ?js" "sj_id (?js ! i) \<notin> sj_id ` set (drop_job i ?js)"
      using mset_others[OF i(1)] leave_core(7)[OF v(1) i(1) on refl]
      by (metis set_mset_add_mset_insert set_mset_mset subset_insertI, metis set_mset_mset)
    have due: "due_on_cores rt s1"
      unfolding due_on_cores_def
    proof
      fix j
      assume "j \<in> set (sim_jobs s1)"
      then obtain j' where j': "j' \<in> set (drop_job i ?js)" "strip j = strip j'" using strip_in[OF s1(5)] by blast
      then have f: "sj_run j = sj_run j'" "sim_tag rt j = sim_tag rt j'" using strip_fields sim_tag_strip by blast+
      have "sj_id j' \<noteq> sj_id (?js ! i)" using j'(1) dr(2) by (metis imageI)
      then have "sim_tag rt j' \<noteq> sim_tag rt (?js ! i)" by (simp add: sim_tag_def)
      then show "0 \<le> sj_run j \<and> (sj_run j = 0 \<longrightarrow> sim_tag rt j \<in> ran (run_tags (sched_abs (sched_of s1))))"
        using Suc.prems(2) j'(1) dr(1) s1(7) unfolding f due_on_cores_def by blast
    qed
    have before: "\<forall>k<i. 0 < sj_run (sim_jobs s1 ! k)"
    proof (intro allI impI)
      fix k
      assume k: "k < i"
      have "strip (sim_jobs s1 ! k) = strip (drop_job i ?js ! k)" using strip_nth[OF s1(5)] len1 k by simp
      then show "0 < sj_run (sim_jobs s1 ! k)" using strip_fields(3) drop_job_nth[OF k i(1)] Suc.prems(4) k by metis
    qed
    from Suc.IH[OF s1(2) due len1 before] obtain s2 fin where
      s2: "finish_jobs scheme q m i s1 = Some (Inr s2)" "consistent scheme n rt s2" "clock s2 = clock s1"
        "core_timing_diagram s2 = core_timing_diagram s1" "\<forall>j\<in>set (sim_jobs s2). 0 < sj_run j"
        "mset (map strip (sim_jobs s1)) = mset (map strip (sim_jobs s2)) + mset (map strip fin)" "\<forall>j\<in>set fin. sj_run j = 0"
        "totals_of s2 = fold (add_job (clock s1)) (map (sim_tag rt) fin) (totals_of s1)" by blast
    have "mset (map strip ?js) = add_mset (strip (?js ! i)) (mset (map strip (drop_job i ?js)))"
      using mset_others[OF i(1)] by simp
    also have "\<dots> = mset (map strip (sim_jobs s2)) + mset (map strip (?js ! i # fin))"
      using s2(6) unfolding s1(5) by simp
    finally show ?thesis
      using s1 s2 True by (intro exI[of _ s2] exI[of _ "?js ! i # fin"]) (simp add: go_on_def)
  qed
qed

text \<open>Step 2.\<close>

lemma job_on_core_Some:
  "job_on_core core b js = Some k \<Longrightarrow> b \<le> k \<and> k - b < length js \<and> sj_core (js ! (k - b)) = core"
proof (induction js arbitrary: b)
  case Nil
  then show ?case by simp
next
  case (Cons j js)
  show ?case
  proof (cases "sj_core j = core")
    case True
    then show ?thesis using Cons.prems by simp
  next
    case False
    then have "Suc b \<le> k \<and> k - Suc b < length js \<and> sj_core (js ! (k - Suc b)) = core" using Cons by simp
    then show ?thesis by (auto simp: nth_Cons' Suc_diff_le)
  qed
qed

lemma others_update: "others i (js[i := x]) = others i js"
  by (simp add: others_def)

lemma expire_core_ok:
  assumes con: "consistent RR n rt s" and i: "i < n"
  shows "\<exists>s'. expire_core q i s = Some (Inr s') \<and> consistent RR n rt s' \<and> clock s' = clock s
    \<and> core_timing_diagram s' = core_timing_diagram s \<and> map strip (sim_jobs s') = map strip (sim_jobs s)
    \<and> totals_of s' = totals_of s"
proof (cases "quantum_clock s ! i \<noteq> 0 \<or> job_on_core (int i) 0 (sim_jobs s) = None")
  case True
  then show ?thesis using con by (auto simp: expire_core_def)
next
  case False
  let ?js = "sim_jobs s" and ?sp = "sched_abs (sched_of s)"
  obtain k where jk: "job_on_core (int i) 0 ?js = Some k" using False by auto
  let ?j = "?js ! k"
  have k: "k < length ?js" "sj_core ?j = int i" using job_on_core_Some[OF jk] by simp_all
  have C: "sched_ok RR n (clock s) (sched_of s)" "agree rt ?js ?sp" "\<forall>j\<in>set ?js. 0 \<le> sj_id j"
    "length (quantum_clock s) = n" "length (core_timing_diagram s) = n"
    "jobs_alive s = int (size (filter_mset sj_arrived (mset ?js)))" using con by (simp_all add: consistent_def)
  have A: "valid rt ?js" "run_of rt ?js = run_tags ?sp" "wait_of rt ?js = wait_tags ?sp"
    using C(2) by (simp_all add: agree_def)
  have on: "on_core ?j" "i = nat (sj_core ?j)" using k(2) by simp_all
  note L = leave_core[OF A(1) k(1) on]
  have run: "run_tags ?sp i = Some (sim_tag rt ?j)" using L(2) A(2) by simp
  obtain sch' u w where f: "scheduler_quantum_expired (int i) (clock s) (sched_of s) = Some (fst u, sch')"
    "sched_ok RR n (clock s) sch'" "totals (sched_abs sch') = totals ?sp"
    "add_mset (sim_tag rt ?j) (wait_tags ?sp) = add_mset u w" "run_tags (sched_abs sch') = (run_tags ?sp)(i \<mapsto> u)"
    "wait_tags (sched_abs sch') = w" using expire_call[OF C(1) run] by blast
  let ?js1 = "?js[k := ?j\<lparr>sj_core := - 1\<rparr>]"
  define s1 where "s1 = s\<lparr>sched_of := sch', sim_jobs := ?js1, quantum_clock := (quantum_clock s)[i := q]\<rparr>"
  have eq: "expire_core q i s = set_new_job ''scheduler_quantum_expired()'' '', had its quantum expire'' (sj_id ?j) (int i) (fst u) s1"
    using f(1) k(2) i C(4) False jk set_clock_ok[of i "s\<lparr>sched_of := sch', sim_jobs := ?js1\<rparr>" q]
    by (simp add: expire_core_def Let_def s1_def)
  have "same rt ?js1 (?j\<lparr>sj_core := - 1\<rparr> # others k ?js)" by (rule same_update[OF k(1)])
  moreover have "valid rt (?j\<lparr>sj_core := - 1\<rparr> # others k ?js)" using L(3,7) by simp
  ultimately have old: "valid rt (sim_jobs s1)" "run_of rt (sim_jobs s1) = (run_tags ?sp)(i := None)"
    "wait_of rt (sim_jobs s1) = add_mset (sim_tag rt ?j) (wait_tags ?sp)"
    using L(4-6) A(2,3) by (simp_all add: same_def s1_def)
  have st: "map strip ?js1 = map strip ?js"
    using k(1) by (simp add: map_update strip_def list_update_same_conv)
  have ids: "\<forall>j\<in>set (sim_jobs s1). 0 \<le> sj_id j" using C(3) strip_arrived(2)[OF st] by (simp add: s1_def)
  obtain js p where n: "set_new_job ''scheduler_quantum_expired()'' '', had its quantum expire'' (sj_id ?j) (int i) (fst u) s1
      = Some (Inr (s1\<lparr>sim_jobs := js, printed := p\<rparr>))" "agree rt js (sched_abs sch')" "map strip js = map strip (sim_jobs s1)"
    using agree_next[OF old ids, of "fst u" "sched_abs sch'"] f(4-6) by blast
  have st': "map strip js = map strip ?js" using n(3) st by (simp add: s1_def)
  have "consistent RR n rt (s1\<lparr>sim_jobs := js, printed := p\<rparr>)"
    using f(2) n(2) C strip_arrived[OF st'] by (simp add: consistent_def s1_def)
  then show ?thesis unfolding eq n(1) using st' f(3) by (auto simp: s1_def)
qed

lemma expire_cores_ok:
  assumes "consistent RR n rt s" "i + m \<le> n"
  shows "\<exists>s'. expire_cores q m i s = Some (Inr s') \<and> consistent RR n rt s' \<and> clock s' = clock s
    \<and> core_timing_diagram s' = core_timing_diagram s \<and> map strip (sim_jobs s') = map strip (sim_jobs s)
    \<and> totals_of s' = totals_of s"
  using assms
proof (induction m arbitrary: i s)
  case 0
  then show ?case by simp
next
  case (Suc m)
  have "i < n" using Suc.prems(2) by simp
  from expire_core_ok[OF Suc.prems(1) this, of q] obtain s1 where
    s1: "expire_core q i s = Some (Inr s1)" "consistent RR n rt s1" "clock s1 = clock s"
      "core_timing_diagram s1 = core_timing_diagram s" "map strip (sim_jobs s1) = map strip (sim_jobs s)"
      "totals_of s1 = totals_of s" by blast
  have "Suc i + m \<le> n" using Suc.prems(2) by simp
  from Suc.IH[OF s1(2) this] s1 show ?case by (auto simp: go_on_def)
qed

text \<open>Step 3.\<close>

lemma mset_update_others:
  assumes "i < length js"
  shows "mset (js[i := x]) = add_mset x (mset (others i js))"
  using mset_others(1)[of i "js[i := x]"] assms by (simp add: others_update)

lemma arrive_ok:
  assumes con: "consistent scheme n rt s" and i: "i < length (sim_jobs s)"
    and j: "sj_arrival (sim_jobs s ! i) = clock s" "\<not> sj_arrived (sim_jobs s ! i)"
      "sj_run (sim_jobs s ! i) = rt (sj_id (sim_jobs s ! i))"
  shows "\<exists>s'. arrive scheme q n i s = Some (Inr s') \<and> consistent scheme n rt s' \<and> clock s' = clock s
    \<and> core_timing_diagram s' = core_timing_diagram s
    \<and> map strip (sim_jobs s') = map strip ((sim_jobs s)[i := (sim_jobs s ! i)\<lparr>sj_arrived := True\<rparr>])
    \<and> totals_of s' = totals_of s"
proof -
  let ?js = "sim_jobs s" and ?j = "sim_jobs s ! i" and ?sp = "sched_abs (sched_of s)"
  let ?ja = "?j\<lparr>sj_arrived := True\<rparr>" and ?o = "others i (sim_jobs s)"
  have C: "sched_ok scheme n (clock s) (sched_of s)" "agree rt ?js ?sp" "\<forall>j\<in>set ?js. 0 \<le> sj_id j"
    "length (quantum_clock s) = n" "length (core_timing_diagram s) = n"
    "jobs_alive s = int (size (filter_mset sj_arrived (mset ?js)))" using con by (simp_all add: consistent_def)
  have A: "valid rt ?js" "run_of rt ?js = run_tags ?sp" "wait_of rt ?js = wait_tags ?sp"
    using C(2) by (simp_all add: agree_def)
  have core: "sj_core ?j = - 1" using valid_on_core[OF A(1), of ?j] i j(2) by fastforce
  have "same rt ?js (?j # ?o)" by (rule same_nth[OF i])
  then have O: "valid rt ?o" "sj_id ?j \<notin> sj_id ` set ?o" "run_of rt ?o = run_tags ?sp" "wait_of rt ?o = wait_tags ?sp"
    using A core j(2) by (auto simp: same_def)
  have tag: "(sj_id ?j, clock s, sj_run ?j) = sim_tag rt ?j" using j by (simp add: sim_tag_def)
  obtain r sch' where f: "scheduler_new_job (sj_id ?j) (clock s) (sj_run ?j) (sj_priority ?j) (sched_of s) = Some (r, sch')"
    "sched_ok scheme n (clock s) sch'" "totals (sched_abs sch') = totals ?sp"
    "(\<exists>c<n. r = int c \<and> run_tags (sched_abs sch') = (run_tags ?sp)(c \<mapsto> sim_tag rt ?j)
        \<and> wait_tags (sched_abs sch') = wait_tags ?sp + old_tag (run_tags ?sp c))
      \<or> (r = - 1 \<and> run_tags (sched_abs sch') = run_tags ?sp
        \<and> wait_tags (sched_abs sch') = add_mset (sim_tag rt ?j) (wait_tags ?sp))"
    using arrive_call[OF C(1), of "sj_id ?j" "sj_run ?j" "sj_priority ?j"] unfolding tag by blast
  have alive: "size (filter_mset sj_arrived (mset (?js[i := ?ja]))) = Suc (size (filter_mset sj_arrived (mset ?js)))"
    using mset_others(1)[OF i] mset_update_others[OF i, of ?ja] j(2) by simp
  have ids: "\<forall>j\<in>set (?js[i := ?ja]). 0 \<le> sj_id j"
    using C(3) i by (auto dest!: set_update_subset_insert[THEN subsetD])
  have finish: "\<exists>s'. arrive scheme q n i s = Some (Inr s') \<and> consistent scheme n rt s' \<and> clock s' = clock s
      \<and> core_timing_diagram s' = core_timing_diagram s \<and> map strip (sim_jobs s') = map strip (?js[i := ?ja])
      \<and> totals_of s' = totals_of s"
    if res: "\<exists>s'. arrive scheme q n i s = Some (Inr s') \<and> sched_of s' = sch' \<and> sim_jobs s' = js
        \<and> jobs_alive s' = jobs_alive s + 1 \<and> length (quantum_clock s') = n \<and> clock s' = clock s
        \<and> core_timing_diagram s' = core_timing_diagram s"
      and ag: "agree rt js (sched_abs sch')" and st: "map strip js = map strip (?js[i := ?ja])" for js
  proof -
    obtain s' where s': "arrive scheme q n i s = Some (Inr s')" "sched_of s' = sch'" "sim_jobs s' = js"
      "jobs_alive s' = jobs_alive s + 1" "length (quantum_clock s') = n" "clock s' = clock s"
      "core_timing_diagram s' = core_timing_diagram s" using res by blast
    then have "consistent scheme n rt s'"
      using f(2) ag st C(5,6) strip_arrived[OF st] alive ids by (simp add: consistent_def)
    then show ?thesis using s' st f(3) by auto
  qed
  from f(4) show ?thesis
  proof (elim disjE exE conjE)
    fix c
    assume c: "c < n" "r = int c" "run_tags (sched_abs sch') = (run_tags ?sp)(c \<mapsto> sim_tag rt ?j)"
      "wait_tags (sched_abs sch') = wait_tags ?sp + old_tag (run_tags ?sp c)"
    let ?cl = "map (clear_core (int c)) (?js[i := ?ja])"
    let ?js3 = "?cl[i := ?ja\<lparr>sj_core := int c\<rparr>]"
    have ci: "?cl ! i = ?ja" using i core by (simp add: clear_core_def)
    have cc: "map (\<lambda>j. if sj_core j = int c then j\<lparr>sj_core := - 1\<rparr> else j) (?js[i := ?ja]) = ?cl"
      by (simp add: clear_core_def)
    have arr: "\<exists>s'. arrive scheme q n i s = Some (Inr s') \<and> sched_of s' = sch' \<and> sim_jobs s' = ?js3
        \<and> jobs_alive s' = jobs_alive s + 1 \<and> length (quantum_clock s') = n \<and> clock s' = clock s
        \<and> core_timing_diagram s' = core_timing_diagram s"
      using f(1) c(1,2) C(4) ci
      by (cases "scheme = RR") (simp_all add: arrive_def Let_def print_def cc set_clock_def)
    have oc: "others i ?cl = map (clear_core (int c)) ?o"
      by (simp add: others_def take_map drop_map)
    note K = clear_core_ok[OF O(1), of c]
    have "sj_id ` set (map (clear_core (int c)) ?o) = sj_id ` set ?o" by (rule ids_strip) simp
    then have "valid rt (?ja\<lparr>sj_core := int c\<rparr> # others i ?cl)" using K O(2) oc by simp
    moreover have "same rt ?js3 (?ja\<lparr>sj_core := int c\<rparr> # others i ?cl)" using i by (intro same_update) simp
    moreover have "sim_tag rt ?ja = sim_tag rt ?j" by (simp add: sim_tag_def)
    ultimately have "agree rt ?js3 (sched_abs sch')"
      using K O(3,4) c(3,4) oc by (simp add: agree_def same_def)
    moreover have cs: "strip (?ja\<lparr>sj_core := int c\<rparr>) = strip ?ja" "strip \<circ> clear_core (int c) = strip"
      by (simp add: strip_def, simp add: fun_eq_iff)
    have "map strip ?js3 = map strip (?js[i := ?ja])"
      using i cs by (simp add: map_update)
    ultimately show ?thesis by (rule finish[OF arr])
  next
    assume r: "r = - 1" "run_tags (sched_abs sch') = run_tags ?sp"
      "wait_tags (sched_abs sch') = add_mset (sim_tag rt ?j) (wait_tags ?sp)"
    have arr: "\<exists>s'. arrive scheme q n i s = Some (Inr s') \<and> sched_of s' = sch' \<and> sim_jobs s' = ?js[i := ?ja]
        \<and> jobs_alive s' = jobs_alive s + 1 \<and> length (quantum_clock s') = n \<and> clock s' = clock s
        \<and> core_timing_diagram s' = core_timing_diagram s"
      using f(1) r(1) C(4) by (simp add: arrive_def Let_def print_def)
    have "same rt (?js[i := ?ja]) (?ja # ?o)" by (rule same_update[OF i])
    moreover have "sim_tag rt ?ja = sim_tag rt ?j" by (simp add: sim_tag_def)
    ultimately have "agree rt (?js[i := ?ja]) (sched_abs sch')"
      using O r(2,3) core by (simp add: agree_def same_def)
    then show ?thesis by (rule finish[OF arr _ refl])
  qed
qed

definition base :: "sim_job \<Rightarrow> sim_job" where
  "base j = j\<lparr>sj_core := - 1, sj_arrived := False\<rparr>"

lemma base_strip:
  assumes "map strip js = map strip js'"
  shows "map base js = map base js'"
proof -
  have "map base xs = map (\<lambda>j. j\<lparr>sj_arrived := False\<rparr>) (map strip xs)" for xs
    by (simp add: base_def strip_def)
  then show ?thesis using assms by (simp only:)
qed

text \<open>Before and after the arrivals of the time unit, from the first \<open>i\<close> jobs on.\<close>

definition arrived_ok :: "(int \<Rightarrow> int) \<Rightarrow> nat \<Rightarrow> int \<Rightarrow> sim_job list \<Rightarrow> bool" where
  "arrived_ok rt i T js \<longleftrightarrow> (\<forall>k<length js. sj_arrived (js ! k)
      = (if k < i then sj_arrival (js ! k) \<le> T else sj_arrival (js ! k) < T)
     \<and> (\<not> sj_arrived (js ! k) \<longrightarrow> sj_run (js ! k) = rt (sj_id (js ! k))))"

lemma arrived_ok_strip:
  assumes "map strip js = map strip js'"
  shows "arrived_ok rt i T js \<longleftrightarrow> arrived_ok rt i T js'"
proof -
  have "length js = length js'" using assms by (metis length_map)
  then show ?thesis
    unfolding arrived_ok_def using strip_fields(1,2,3,5)[OF strip_nth[OF assms]] by simp
qed

lemma arrivals_ok:
  assumes "consistent scheme n rt s" "length (sim_jobs s) = i + m" "arrived_ok rt i (clock s) (sim_jobs s)"
  shows "\<exists>s'. arrivals scheme q n m i s = Some (Inr s') \<and> consistent scheme n rt s' \<and> clock s' = clock s
    \<and> core_timing_diagram s' = core_timing_diagram s \<and> map base (sim_jobs s') = map base (sim_jobs s)
    \<and> arrived_ok rt (i + m) (clock s) (sim_jobs s') \<and> totals_of s' = totals_of s"
  using assms
proof (induction m arbitrary: i s)
  case 0
  then show ?case by simp
next
  case (Suc m)
  let ?js = "sim_jobs s"
  have i: "i < length ?js" using Suc.prems(2) by simp
  have ji: "sj_arrived (?js ! i) = (sj_arrival (?js ! i) < clock s)" "\<not> sj_arrived (?js ! i) \<longrightarrow> sj_run (?js ! i) = rt (sj_id (?js ! i))"
    using Suc.prems(3) i by (simp_all add: arrived_ok_def)
  obtain s1 where s1: "(if sj_arrival (?js ! i) = clock s then arrive scheme q n i s else Some (Inr s)) = Some (Inr s1)"
    "consistent scheme n rt s1" "clock s1 = clock s" "core_timing_diagram s1 = core_timing_diagram s"
    "map base (sim_jobs s1) = map base ?js" "arrived_ok rt (Suc i) (clock s) (sim_jobs s1)" "totals_of s1 = totals_of s"
  proof (cases "sj_arrival (?js ! i) = clock s")
    case True
    let ?js' = "?js[i := (?js ! i)\<lparr>sj_arrived := True\<rparr>]"
    obtain s1 where s1: "arrive scheme q n i s = Some (Inr s1)" "consistent scheme n rt s1" "clock s1 = clock s"
      "core_timing_diagram s1 = core_timing_diagram s" "map strip (sim_jobs s1) = map strip ?js'" "totals_of s1 = totals_of s"
      using arrive_ok[OF Suc.prems(1) i True] ji True by auto
    have "map base ?js' = map base ?js" using i by (simp add: map_update base_def list_update_same_conv)
    moreover have "arrived_ok rt (Suc i) (clock s) ?js'"
      unfolding arrived_ok_def
    proof (intro allI impI)
      fix k
      assume "k < length ?js'"
      then show "sj_arrived (?js' ! k) = (if k < Suc i then sj_arrival (?js' ! k) \<le> clock s else sj_arrival (?js' ! k) < clock s)
          \<and> (\<not> sj_arrived (?js' ! k) \<longrightarrow> sj_run (?js' ! k) = rt (sj_id (?js' ! k)))"
        using Suc.prems(3) True by (cases "k = i") (simp_all add: arrived_ok_def less_Suc_eq)
    qed
    ultimately show thesis
      using that[OF _ s1(2-4)] s1(1,6) base_strip[OF s1(5)] arrived_ok_strip[OF s1(5)] True by simp
  next
    case False
    have "arrived_ok rt (Suc i) (clock s) ?js"
      using Suc.prems(3) False unfolding arrived_ok_def by (auto simp: less_Suc_eq)
    then show thesis using that[of s] Suc.prems(1) False by simp
  qed
  have "length (sim_jobs s1) = Suc i + m" using arg_cong[OF s1(5), of length] Suc.prems(2) by simp
  from Suc.IH[OF s1(2) this] s1 show ?case by (auto simp: go_on_def)
qed

text \<open>Step 4.\<close>

definition worked :: "sim_job \<Rightarrow> sim_job" where
  "worked j = (if on_core j then j\<lparr>sj_run := sj_run j - 1\<rparr> else j)"

lemma worked_fields [simp]:
  "sj_id (worked j) = sj_id j" "sj_arrival (worked j) = sj_arrival j" "sj_core (worked j) = sj_core j"
  "sj_arrived (worked j) = sj_arrived j" "sim_tag rt (worked j) = sim_tag rt j" "on_core (worked j) = on_core j"
  by (simp_all add: worked_def sim_tag_def)

lemma worked_list [simp]:
  "valid rt (map worked js) = valid rt js" "run_of rt (map worked js) = run_of rt js"
  "wait_of rt (map worked js) = wait_of rt js"
proof -
  have r: "run_of rt (map worked js) = run_of rt js" for js
  proof (induction js)
    case (Cons j js)
    then show ?case by (simp only: list.map run_of.simps worked_fields)
  qed simp
  show "run_of rt (map worked js) = run_of rt js" by (rule r)
  show "wait_of rt (map worked js) = wait_of rt js" by (induction js) simp_all
  show "valid rt (map worked js) = valid rt js" by (induction js) (simp_all add: r image_image)
qed

lemma job_label_nonempty [simp]: "job_label i \<noteq> []"
  by (simp add: job_label_def show_int_def)

lemma valid_append: "valid rt (xs @ ys) \<Longrightarrow> valid rt ys"
  by (induction xs) auto

lemma run_jobs_unit_ok:
  assumes "length (sim_jobs s) = i + m" "valid rt (drop i (sim_jobs s))" "length ts = n" "length (quantum_clock s) = n"
    "\<And>c t. run_of rt (drop i (sim_jobs s)) c = Some t \<Longrightarrow> c < n \<and> ts ! c = []"
  shows "\<exists>ts' qc. run_jobs_unit m i (w, ts, s) = Some (w + length (filter on_core (drop i (sim_jobs s))), ts',
      s\<lparr>sim_jobs := take i (sim_jobs s) @ map worked (drop i (sim_jobs s)), quantum_clock := qc\<rparr>)
    \<and> length qc = n \<and> ts' = map (\<lambda>c. case run_of rt (drop i (sim_jobs s)) c of None \<Rightarrow> ts ! c | Some t \<Rightarrow> job_label (fst t)) [0..<n]"
  using assms
proof (induction m arbitrary: i s w ts)
  case 0
  have "map (\<lambda>c. ts ! c) [0..<n] = ts" using 0(3) map_nth by metis
  then show ?case using 0 by (intro exI[of _ ts] exI[of _ "quantum_clock s"]) simp
next
  case (Suc m)
  let ?js = "sim_jobs s" and ?j = "sim_jobs s ! i"
  have d: "drop i ?js = ?j # drop (Suc i) ?js" "i < length ?js" using Suc.prems(1) by (simp_all add: Cons_nth_drop_Suc)
  have tk: "take (Suc i) (?js[i := x]) = take i ?js @ [x]" for x
    using d(2) by (simp add: take_Suc_conv_app_nth)
  have v: "valid rt (drop (Suc i) ?js)" using Suc.prems(2) d(1) by simp
  show ?case
  proof (cases "on_core ?j")
    case False
    have "run_of rt (drop i ?js) = run_of rt (drop (Suc i) ?js)" using d(1) False by simp
    then obtain ts' qc where ih: "run_jobs_unit m (Suc i) (w, ts, s)
        = Some (w + length (filter on_core (drop (Suc i) ?js)), ts',
          s\<lparr>sim_jobs := take (Suc i) ?js @ map worked (drop (Suc i) ?js), quantum_clock := qc\<rparr>)"
      "length qc = n" "ts' = map (\<lambda>c. case run_of rt (drop i ?js) c of None \<Rightarrow> ts ! c | Some t \<Rightarrow> job_label (fst t)) [0..<n]"
      using Suc.IH[of s "Suc i" ts w] Suc.prems v by auto
    have "take (Suc i) ?js = take i ?js @ [?j]" using d(2) by (simp add: take_Suc_conv_app_nth)
    then show ?thesis
      using ih False unfolding d(1) by (intro exI[of _ ts'] exI[of _ qc]) (simp add: run_job_def Let_def worked_def)
  next
    case True
    define c where "c = nat (sj_core ?j)"
    have p: "sj_core ?j = int c" "run_of rt (drop (Suc i) ?js) c = None"
      using Suc.prems(2) True unfolding d(1) c_def by simp_all
    have rd: "run_of rt (drop i ?js) = (run_of rt (drop (Suc i) ?js))(c \<mapsto> sim_tag rt ?j)"
      unfolding d(1) using True by (simp add: c_def)
    have c: "c < n" "ts ! c = []" using Suc.prems(5)[of c] unfolding rd by simp_all
    let ?s = "s\<lparr>sim_jobs := ?js[i := worked ?j], quantum_clock := (quantum_clock s)[c := quantum_clock s ! c - 1]\<rparr>"
    let ?ts = "ts[c := job_label (sj_id ?j)]"
    have step: "run_job i (w, ts, s) = Some (Suc w, ?ts, ?s)"
      using p(1) c Suc.prems(3,4) by (simp add: run_job_def Let_def worked_def)
    have dd: "drop (Suc i) (sim_jobs ?s) = drop (Suc i) ?js" by simp
    have pre: "c' < n \<and> ?ts ! c' = []" if "run_of rt (drop (Suc i) (sim_jobs ?s)) c' = Some t" for c' t
    proof -
      have "c' \<noteq> c" using that p(2) unfolding dd by auto
      then show ?thesis using that Suc.prems(5)[of c' t] unfolding dd rd by simp
    qed
    obtain ts' qc where ih: "run_jobs_unit m (Suc i) (Suc w, ?ts, ?s)
        = Some (Suc w + length (filter on_core (drop (Suc i) ?js)), ts',
          ?s\<lparr>sim_jobs := take (Suc i) (?js[i := worked ?j]) @ map worked (drop (Suc i) ?js), quantum_clock := qc\<rparr>)"
      "length qc = n"
      "ts' = map (\<lambda>c. case run_of rt (drop (Suc i) ?js) c of None \<Rightarrow> ?ts ! c | Some t \<Rightarrow> job_label (fst t)) [0..<n]"
      using Suc.IH[of ?s "Suc i" ?ts "Suc w", unfolded dd] Suc.prems(1,3,4) v pre[unfolded dd] by auto
    have "ts' = map (\<lambda>c. case run_of rt (drop i ?js) c of None \<Rightarrow> ts ! c | Some t \<Rightarrow> job_label (fst t)) [0..<n]"
      unfolding ih(3) rd using p(2) c(1) Suc.prems(3) by (auto simp: sim_tag_def nth_list_update split: option.split)
    then show ?thesis
      using ih(1,2) True step unfolding d(1) tk
      by (intro exI[of _ ts'] exI[of _ qc]) (simp add: rd[symmetric])
  qed
qed

text \<open>The column of the diagram for the time unit: the job on each core.\<close>

definition column :: "nat \<Rightarrow> (nat \<Rightarrow> tag option) \<Rightarrow> int option list" where
  "column n run = map (\<lambda>c. map_option fst (run c)) [0..<n]"

definition cell :: "int option \<Rightarrow> string" where
  "cell x = (case x of None \<Rightarrow> ''-'' | Some i \<Rightarrow> job_label i)"

lemma some_core_works:
  assumes con: "consistent scheme n rt s" and "jobs_alive s > 0"
  shows "filter on_core (sim_jobs s) \<noteq> []"
proof
  assume none: "filter on_core (sim_jobs s) = []"
  let ?js = "sim_jobs s" and ?sp = "sched_abs (sched_of s)"
  have A: "valid rt ?js" "run_of rt ?js = run_tags ?sp" "wait_of rt ?js = wait_tags ?sp" "0 < n"
    "conserving n ?sp" "jobs_alive s = int (size (filter_mset sj_arrived (mset ?js)))"
    using con by (simp_all add: consistent_def agree_def sched_ok_def schedule_inv_def)
  have off: "\<forall>j\<in>set ?js. \<not> on_core j" using none by (simp add: filter_empty_conv)
  have w: "size (wait_of rt js) = size (filter_mset sj_arrived (mset js))" if "\<forall>j\<in>set js. \<not> on_core j" for js
    using that by (induction js) auto
  have "size (wait_tags ?sp) \<noteq> 0" using w[OF off] A(6) assms(2) unfolding A(3)[symmetric] by linarith
  then have "wait_tags ?sp \<noteq> {#}" by auto
  then have "sp_waiting ?sp \<noteq> []" by (auto simp: wait_tags_def)
  then have "idle_cores n ?sp = {}" using A(5) by (simp add: conserving_def)
  then have "run_tags ?sp 0 \<noteq> None" using A(4) by (auto simp: idle_cores_eq run_tags_def)
  then obtain t where "run_of rt ?js 0 = Some t" using A(2) by auto
  from run_of_job[OF this] off show False by blast
qed

lemma run_unit_ok:
  assumes con: "consistent scheme n rt s"
  shows "\<exists>s'. run_unit n s = Some (Inr s') \<and> consistent scheme n rt s' \<and> clock s' = clock s + 1
    \<and> sim_jobs s' = map worked (sim_jobs s) \<and> sched_of s' = sched_of s
    \<and> core_timing_diagram s' = map2 (\<lambda>row x. row @ cell x) (core_timing_diagram s)
        (column n (run_tags (sched_abs (sched_of s))))"
proof -
  let ?js = "sim_jobs s" and ?run = "run_tags (sched_abs (sched_of s))"
  have C: "sched_ok scheme n (clock s) (sched_of s)" "agree rt ?js (sched_abs (sched_of s))" "\<forall>j\<in>set ?js. 0 \<le> sj_id j"
    "length (quantum_clock s) = n" "length (core_timing_diagram s) = n"
    "jobs_alive s = int (size (filter_mset sj_arrived (mset ?js)))" using con by (simp_all add: consistent_def)
  have A: "valid rt ?js" "run_of rt ?js = ?run" using C(2) by (simp_all add: agree_def)
  have pre: "c < n \<and> replicate n [] ! c = []" if "run_of rt (drop 0 ?js) c = Some t" for c t
  proof -
    have "?run c \<noteq> None" using that A(2) by simp
    then have "c < n" by (rule consistent_bound[OF con])
    then show ?thesis by simp
  qed
  obtain ts qc where r: "run_jobs_unit (length ?js) 0 (0, replicate n [], s)
      = Some (length (filter on_core ?js), ts, s\<lparr>sim_jobs := map worked ?js, quantum_clock := qc\<rparr>)"
    "length qc = n" "ts = map (\<lambda>c. case ?run c of None \<Rightarrow> replicate n [] ! c | Some t \<Rightarrow> job_label (fst t)) [0..<n]"
    using run_jobs_unit_ok[of s 0 "length ?js" rt "replicate n []" n 0] pre A C(4) by auto
  have ext: "extend_diagram (core_timing_diagram s) ts
      = map2 (\<lambda>row x. row @ cell x) (core_timing_diagram s) (column n ?run)"
    unfolding extend_diagram_def column_def r(3)
    by (rule nth_equalityI) (auto simp: C(5) cell_def split: option.split)
  obtain s' where s': "run_unit n s = Some (Inr s')" "sched_of s' = sched_of s" "sim_jobs s' = map worked ?js"
    "jobs_alive s' = jobs_alive s" "clock s' = clock s + 1" "quantum_clock s' = qc"
    "core_timing_diagram s' = extend_diagram (core_timing_diagram s) ts"
    using some_core_works[OF con] by (auto simp: run_unit_def r(1) Let_def print_def)
  have "size (filter_mset sj_arrived (mset (map worked js))) = size (filter_mset sj_arrived (mset js))" for js
    by (induction js) auto
  then have "consistent scheme n rt s'"
    using C s' r(2) sched_ok_mono[OF C(1), of "clock s + 1"]
    by (simp add: consistent_def agree_def ext column_def)
  then show ?thesis using s' ext by auto
qed

end
