(* ===== verification/SchedSim_Correct.thy ===== *)
theory SchedSim_Correct
  imports SchedSim_Steps
begin

text \<open>
  Correctness of the scheduling simulator. The history of a run is the list of columns of its timing
  diagram; the invariant of the loop ties the jobs, the totals of the scheduler and the diagram to the
  columns, and a measure of the work and the arrivals that are left makes the loop end.
\<close>

section \<open>The history of a run\<close>

definition received :: "int option list list \<Rightarrow> int \<Rightarrow> nat" where
  "received cols i = length (filter (\<lambda>col. Some i \<in> set col) cols)"

text \<open>The end of the last time unit in which the job ran.\<close>

definition finish_time :: "int option list list \<Rightarrow> int \<Rightarrow> int" where
  "finish_time cols i = int (length cols - length (takeWhile (\<lambda>col. Some i \<notin> set col) (rev cols)))"

lemma received_snoc: "received (cols @ [col]) i = received cols i + (if Some i \<in> set col then 1 else 0)"
  by (simp add: received_def)

lemma finish_time_snoc:
  "finish_time (cols @ [col]) i = (if Some i \<in> set col then int (length cols) + 1 else finish_time cols i)"
  by (simp add: finish_time_def)

text \<open>
  A column is good when no job runs on two cores, the jobs in it have arrived and still have time to
  run, and an idle core means that every job with time left that has arrived runs.
\<close>

definition good_column :: "sim_job list \<Rightarrow> int option list list \<Rightarrow> int option list \<Rightarrow> bool" where
  "good_column js past col \<longleftrightarrow> distinct (filter (\<lambda>x. x \<noteq> None) col)
     \<and> (\<forall>x\<in>set col. case x of None \<Rightarrow> True | Some i \<Rightarrow> \<exists>j\<in>set js. sj_id j = i
          \<and> sj_arrival j \<le> int (length past) \<and> int (received past i) < sj_run j)
     \<and> (None \<in> set col \<longrightarrow> (\<forall>j\<in>set js. sj_arrival j \<le> int (length past)
          \<and> int (received past (sj_id j)) < sj_run j \<longrightarrow> Some (sj_id j) \<in> set col))"

definition good_schedule :: "sim_job list \<Rightarrow> nat \<Rightarrow> int option list list \<Rightarrow> bool" where
  "good_schedule js n cols \<longleftrightarrow> (\<forall>t<length cols. length (cols ! t) = n \<and> good_column js (take t cols) (cols ! t))"

lemma good_schedule_snoc:
  "good_schedule js n cols \<Longrightarrow> length col = n \<Longrightarrow> good_column js cols col \<Longrightarrow> good_schedule js n (cols @ [col])"
  by (auto simp: good_schedule_def nth_append less_Suc_eq)

definition diagram_of :: "nat \<Rightarrow> int option list list \<Rightarrow> string list" where
  "diagram_of n cols = map (\<lambda>c. concat (map (\<lambda>col. cell (col ! c)) cols)) [0..<n]"

definition account :: "int option list list \<Rightarrow> tag list \<Rightarrow> int \<times> int \<times> int" where
  "account cols ts = (int (length ts), sum_list (map (\<lambda>(i, a, r). finish_time cols i - a) ts),
     sum_list (map (\<lambda>(i, a, r). finish_time cols i - a - r) ts))"

lemma account_fold:
  assumes "\<forall>(i, a, r)\<in>set new. finish_time cols i = T"
  shows "account cols (ts @ new) = fold (add_job T) new (account cols ts)"
  using assms
proof (induction new arbitrary: ts)
  case Nil
  then show ?case by simp
next
  case (Cons t new)
  obtain i a r where t: "t = (i, a, r)" by (cases t)
  have "account cols (ts @ [t]) = add_job T t (account cols ts)"
    using Cons.prems by (simp add: account_def add_job_def t)
  then show ?case using Cons.IH[of "ts @ [t]"] Cons.prems by simp
qed

lemma account_snoc:
  assumes "\<forall>(i, a, r)\<in>set ts. Some i \<notin> set col"
  shows "account (cols @ [col]) ts = account cols ts"
proof -
  have "map (\<lambda>(i, a, r). finish_time (cols @ [col]) i - a) ts = map (\<lambda>(i, a, r). finish_time cols i - a) ts"
    "map (\<lambda>(i, a, r). finish_time (cols @ [col]) i - a - r) ts = map (\<lambda>(i, a, r). finish_time cols i - a - r) ts"
    using assms by (auto simp: finish_time_snoc)
  then show ?thesis unfolding account_def by (simp only:)
qed

text \<open>The jobs as they are read: numbered, with a positive running time.\<close>

definition fresh_jobs :: "(int \<Rightarrow> int) \<Rightarrow> sim_job list \<Rightarrow> bool" where
  "fresh_jobs rt js \<longleftrightarrow> distinct (map sj_id js) \<and> (\<forall>j\<in>set js. 0 \<le> sj_id j \<and> 0 \<le> sj_arrival j \<and> 0 < sj_run j
     \<and> sj_run j = rt (sj_id j) \<and> sj_core j = - 1 \<and> \<not> sj_arrived j)"

definition history :: "sim_job list \<Rightarrow> nat \<Rightarrow> (int \<Rightarrow> int) \<Rightarrow> int option list list \<Rightarrow> tag list \<Rightarrow> simulation \<Rightarrow> bool" where
  "history js0 n rt cols fin s \<longleftrightarrow> clock s = int (length cols) \<and> good_schedule js0 n cols
     \<and> core_timing_diagram s = diagram_of n cols
     \<and> mset (map (sim_tag rt) js0) = mset fin + mset (map (sim_tag rt) (sim_jobs s))
     \<and> (\<forall>(i, a, r)\<in>set fin. int (received cols i) = r)
     \<and> (\<forall>j\<in>set (sim_jobs s). sj_run j = rt (sj_id j) - int (received cols (sj_id j)))
     \<and> totals_of s = account cols fin"

text \<open>Between two time units.\<close>

definition between :: "(int \<Rightarrow> int) \<Rightarrow> int option list list \<Rightarrow> simulation \<Rightarrow> bool" where
  "between rt cols s \<longleftrightarrow> arrived_ok rt 0 (clock s) (sim_jobs s) \<and> due_on_cores rt s
     \<and> (\<forall>j\<in>set (sim_jobs s). sj_run j = 0 \<longrightarrow> finish_time cols (sj_id j) = int (length cols))"

lemma tags_of_strip:
  assumes "mset (map strip js) = mset (map strip js')"
  shows "mset (map (sim_tag rt) js) = mset (map (sim_tag rt) js')"
proof -
  have "map (sim_tag rt) xs = map (sim_tag rt) (map strip xs)" for xs by (simp add: strip_def)
  then show ?thesis using assms by (metis mset_map)
qed

lemma finish_phase:
  assumes con: "consistent scheme n rt s" and hist: "history js0 n rt cols fin s" and btw: "between rt cols s"
  shows "\<exists>s' fin'. finish_jobs scheme q (length (sim_jobs s)) 0 s = Some (Inr s') \<and> consistent scheme n rt s'
    \<and> history js0 n rt cols fin' s' \<and> arrived_ok rt 0 (clock s') (sim_jobs s')
    \<and> (\<forall>j\<in>set (sim_jobs s'). 0 < sj_run j)
    \<and> sum_list (map sj_run (sim_jobs s')) = sum_list (map sj_run (sim_jobs s))"
proof -
  have due: "due_on_cores rt s" using btw by (simp add: between_def)
  obtain s' out where s': "finish_jobs scheme q (length (sim_jobs s)) 0 s = Some (Inr s')" "consistent scheme n rt s'"
    "clock s' = clock s" "core_timing_diagram s' = core_timing_diagram s" "\<forall>j\<in>set (sim_jobs s'). 0 < sj_run j"
    "mset (map strip (sim_jobs s)) = mset (map strip (sim_jobs s')) + mset (map strip out)" "\<forall>j\<in>set out. sj_run j = 0"
    "totals_of s' = fold (add_job (clock s)) (map (sim_tag rt) out) (totals_of s)"
    using finish_jobs_ok[OF con due, of 0 "length (sim_jobs s)" q] by auto
  have sub: "\<exists>j\<in>set (sim_jobs s). strip j' = strip j" if "j' \<in> set (sim_jobs s') \<union> set out" for j'
  proof -
    have "strip j' \<in># mset (map strip (sim_jobs s))" using that unfolding s'(6) by auto
    then show ?thesis by auto
  qed
  have H: "clock s = int (length cols)" "good_schedule js0 n cols" "core_timing_diagram s = diagram_of n cols"
    "mset (map (sim_tag rt) js0) = mset fin + mset (map (sim_tag rt) (sim_jobs s))"
    "\<forall>(i, a, r)\<in>set fin. int (received cols i) = r"
    "\<forall>j\<in>set (sim_jobs s). sj_run j = rt (sj_id j) - int (received cols (sj_id j))" "totals_of s = account cols fin"
    using hist by (simp_all add: history_def)
  let ?fin = "fin @ map (sim_tag rt) out"
  have out: "int (received cols (sj_id j)) = rt (sj_id j) \<and> finish_time cols (sj_id j) = int (length cols)"
    if j: "j \<in> set out" for j
  proof -
    obtain j' where j': "j' \<in> set (sim_jobs s)" "strip j = strip j'" using sub j by blast
    then have "sj_run j' = 0" "sj_id j' = sj_id j" using strip_fields[OF j'(2)] s'(7) j by auto
    then show ?thesis using H(6) btw j'(1) by (force simp: between_def)
  qed
  have "mset (map (sim_tag rt) (sim_jobs s)) = mset (map (sim_tag rt) (sim_jobs s' @ out))"
    by (rule tags_of_strip) (use s'(6) in simp)
  moreover have "\<forall>(i, a, r)\<in>set ?fin. int (received cols i) = r"
    using H(5) out by (auto simp: sim_tag_def)
  moreover have "totals_of s' = account cols ?fin"
    unfolding s'(8) H(1,7) using out by (subst account_fold) (auto simp: sim_tag_def)
  moreover have "\<forall>j\<in>set (sim_jobs s'). sj_run j = rt (sj_id j) - int (received cols (sj_id j))"
  proof
    fix j
    assume "j \<in> set (sim_jobs s')"
    then obtain j' where j': "j' \<in> set (sim_jobs s)" "strip j = strip j'" using sub by blast
    then show "sj_run j = rt (sj_id j) - int (received cols (sj_id j))"
      using strip_fields[OF j'(2)] H(6) by simp
  qed
  ultimately have "history js0 n rt cols ?fin s'" using H(1-4) s'(3,4) by (simp add: history_def)
  moreover have "arrived_ok rt 0 (clock s') (sim_jobs s')"
    unfolding arrived_ok_def
  proof (intro allI impI)
    fix k
    assume k: "k < length (sim_jobs s')"
    then have "sim_jobs s' ! k \<in> set (sim_jobs s') \<union> set out" by simp
    from sub[OF this] obtain j where j: "j \<in> set (sim_jobs s)" "strip (sim_jobs s' ! k) = strip j" by blast
    obtain k' where "k' < length (sim_jobs s)" "sim_jobs s ! k' = j" using j(1) by (auto simp: in_set_conv_nth)
    then show "sj_arrived (sim_jobs s' ! k) = (if k < 0 then sj_arrival (sim_jobs s' ! k) \<le> clock s'
        else sj_arrival (sim_jobs s' ! k) < clock s')
        \<and> (\<not> sj_arrived (sim_jobs s' ! k) \<longrightarrow> sj_run (sim_jobs s' ! k) = rt (sj_id (sim_jobs s' ! k)))"
      using btw strip_fields[OF j(2)] s'(3) by (auto simp: between_def arrived_ok_def)
  qed
  moreover have "sum_list (map sj_run (sim_jobs s')) = sum_list (map sj_run (sim_jobs s))"
  proof -
    have r: "sum_list (map sj_run js) = sum_mset (image_mset sj_run (mset (map strip js)))" for js
      by (simp add: sum_mset_sum_list[symmetric] strip_def image_mset.compositionality o_def)
    have "sum_mset (image_mset sj_run (mset (map strip out))) = 0" using s'(7) r[of out] by (simp add: sum_list_0 cong: map_cong)
    then show ?thesis unfolding r s'(6) by simp
  qed
  ultimately show ?thesis using s'(1,2,5) by blast
qed

lemma run_of_core:
  assumes "valid rt js" "run_of rt js c = Some t"
  shows "\<exists>j\<in>set js. sj_core j = int c \<and> sim_tag rt j = t"
  using assms by (induction js) (auto split: if_splits)

lemma tag_unique:
  assumes "distinct (map sj_id js0)" "mset (map (sim_tag rt) js0) = mset fin + mset (map (sim_tag rt) js)"
  shows "\<forall>j\<in>set js. \<exists>j0\<in>set js0. sim_tag rt j0 = sim_tag rt j"
    "\<forall>j0\<in>set js0. sim_tag rt j0 \<in> set fin \<or> (\<exists>j\<in>set js. sim_tag rt j = sim_tag rt j0)"
    "\<forall>t\<in>set fin. fst t \<notin> sj_id ` set js"
proof -
  have s: "sim_tag rt ` set js0 = set fin \<union> sim_tag rt ` set js"
    using arg_cong[OF assms(2), of set_mset] by simp
  show "\<forall>j\<in>set js. \<exists>j0\<in>set js0. sim_tag rt j0 = sim_tag rt j"
  proof
    fix j
    assume "j \<in> set js"
    then have "sim_tag rt j \<in> sim_tag rt ` set js0" using s by blast
    then show "\<exists>j0\<in>set js0. sim_tag rt j0 = sim_tag rt j" by auto
  qed
  show "\<forall>j0\<in>set js0. sim_tag rt j0 \<in> set fin \<or> (\<exists>j\<in>set js. sim_tag rt j = sim_tag rt j0)"
  proof
    fix j0
    assume "j0 \<in> set js0"
    then have "sim_tag rt j0 \<in> set fin \<union> sim_tag rt ` set js" using s by blast
    then show "sim_tag rt j0 \<in> set fin \<or> (\<exists>j\<in>set js. sim_tag rt j = sim_tag rt j0)" by auto
  qed
  have "mset (map fst (map (sim_tag rt) js0)) = mset (map fst (fin @ map (sim_tag rt) js))"
    using arg_cong[OF assms(2), of "image_mset fst"] by (simp only: mset_map mset_append image_mset_union)
  moreover have "map fst (map (sim_tag rt) js0) = map sj_id js0" by (simp add: sim_tag_def)
  ultimately have "distinct (map fst (fin @ map (sim_tag rt) js))" using assms(1) mset_eq_imp_distinct_iff by metis
  then show "\<forall>t\<in>set fin. fst t \<notin> sj_id ` set js" by (auto simp: sim_tag_def; force)
qed

lemma column_jobs:
  assumes "valid rt js" "\<forall>c. run_of rt js c \<noteq> None \<longrightarrow> c < n"
  shows "j \<in> set js \<Longrightarrow> Some (sj_id j) \<in> set (column n (run_of rt js)) \<longleftrightarrow> on_core j"
    "Some i \<in> set (column n (run_of rt js)) \<Longrightarrow> \<exists>j\<in>set js. sj_id j = i \<and> on_core j"
    "distinct (filter (\<lambda>x. x \<noteq> None) (column n (run_of rt js)))"
proof -
  have found: "\<exists>j\<in>set js. sj_id j = i \<and> sj_core j = int c" if r: "map_option fst (run_of rt js c) = Some i" for c i
  proof -
    obtain t where "run_of rt js c = Some t" "fst t = i" using r by (cases "run_of rt js c") auto
    then show ?thesis using run_of_core[OF assms(1)] by (fastforce simp: sim_tag_def)
  qed
  show ex: "\<exists>j\<in>set js. sj_id j = i \<and> on_core j" if i: "Some i \<in> set (column n (run_of rt js))" for i
  proof -
    obtain c where "Some i = map_option fst (run_of rt js c)" using i unfolding column_def set_map by blast
    from found[OF this[symmetric]] show ?thesis by force
  qed
  show "Some (sj_id j) \<in> set (column n (run_of rt js)) \<longleftrightarrow> on_core j" if j: "j \<in> set js"
  proof
    assume "Some (sj_id j) \<in> set (column n (run_of rt js))"
    then show "on_core j" using ex same_id_eq[OF assms(1) _ j] by metis
  next
    assume "on_core j"
    then have r: "run_of rt js (nat (sj_core j)) = Some (sim_tag rt j)" using valid_on_core[OF assms(1) j] by simp
    then have "nat (sj_core j) < n" using assms(2) by (metis option.distinct(1))
    then show "Some (sj_id j) \<in> set (column n (run_of rt js))"
      using r by (force simp: column_def sim_tag_def)
  qed
  have "inj_on (\<lambda>c. map_option fst (run_of rt js c)) {c. run_of rt js c \<noteq> None}"
  proof (rule inj_onI)
    fix c d
    assume a: "c \<in> {c. run_of rt js c \<noteq> None}" "map_option fst (run_of rt js c) = map_option fst (run_of rt js d)"
    then obtain t where "run_of rt js c = Some t" by blast
    then have i: "map_option fst (run_of rt js c) = Some (fst t)" "map_option fst (run_of rt js d) = Some (fst t)"
      using a(2) by simp_all
    obtain j j' where "j \<in> set js" "sj_id j = fst t" "sj_core j = int c" "j' \<in> set js" "sj_id j' = fst t" "sj_core j' = int d"
      using found[OF i(1)] found[OF i(2)] by blast
    then show "c = d" using same_id_eq[OF assms(1), of j j'] by simp
  qed
  moreover have "filter (\<lambda>x. x \<noteq> None) (column n (run_of rt js))
      = map (\<lambda>c. map_option fst (run_of rt js c)) (filter (\<lambda>c. run_of rt js c \<noteq> None) [0..<n])"
    by (simp add: column_def filter_map o_def)
  ultimately show "distinct (filter (\<lambda>x. x \<noteq> None) (column n (run_of rt js)))"
    by (auto simp: distinct_map intro: inj_on_subset)
qed

lemma unit_column_good:
  assumes con: "consistent scheme n rt s" and fresh: "fresh_jobs rt js0" and hist: "history js0 n rt cols fin s"
    and arr: "\<forall>j\<in>set (sim_jobs s). sj_arrived j = (sj_arrival j \<le> clock s)" and pos: "\<forall>j\<in>set (sim_jobs s). 0 < sj_run j"
  shows "good_column js0 cols (column n (run_tags (sched_abs (sched_of s))))"
proof -
  let ?js = "sim_jobs s" and ?sp = "sched_abs (sched_of s)"
  have A: "valid rt ?js" "run_of rt ?js = run_tags ?sp" "wait_of rt ?js = wait_tags ?sp" "conserving n ?sp"
    using con by (simp_all add: consistent_def agree_def sched_ok_def schedule_inv_def)
  have bound: "\<forall>c. run_of rt ?js c \<noteq> None \<longrightarrow> c < n" using consistent_bound[OF con] A(2) by simp
  note col = column_jobs[OF A(1) bound, unfolded A(2)]
  have H: "clock s = int (length cols)" "mset (map (sim_tag rt) js0) = mset fin + mset (map (sim_tag rt) ?js)"
    "\<forall>(i, a, r)\<in>set fin. int (received cols i) = r"
    "\<forall>j\<in>set ?js. sj_run j = rt (sj_id j) - int (received cols (sj_id j))" using hist by (simp_all add: history_def)
  have F: "distinct (map sj_id js0)" "\<forall>j\<in>set js0. sj_run j = rt (sj_id j)" using fresh by (auto simp: fresh_jobs_def)
  note U = tag_unique[OF F(1) H(2)]
  have "\<exists>j0\<in>set js0. sj_id j0 = i \<and> sj_arrival j0 \<le> int (length cols) \<and> int (received cols i) < sj_run j0"
    if some: "Some i \<in> set (column n (run_tags ?sp))" for i
  proof -
    obtain j where j: "j \<in> set ?js" "sj_id j = i" "on_core j" using col(2)[OF some] by blast
    then obtain j0 where j0: "j0 \<in> set js0" "sim_tag rt j0 = sim_tag rt j" using U(1) by blast
    have "sj_arrived j" using valid_on_core[OF A(1) j(1,3)] by simp
    then show ?thesis using j j0 arr pos H(1,4) F(2) by (intro bexI[of _ j0]) (auto simp: sim_tag_def)
  qed
  moreover have "Some (sj_id j0) \<in> set (column n (run_tags ?sp))"
    if none: "None \<in> set (column n (run_tags ?sp))" and j0: "j0 \<in> set js0" "sj_arrival j0 \<le> int (length cols)"
      "int (received cols (sj_id j0)) < sj_run j0" for j0
  proof -
    obtain c where "c < n" "sp_running ?sp c = None" using none by (auto simp: column_def run_tags_def)
    then have "idle_cores n ?sp \<noteq> {}" by (auto simp: idle_cores_eq)
    then have "wait_of rt ?js = {#}" using A(3,4) by (auto simp: conserving_def wait_tags_def)
    then have nowait: "on_core j" if "j \<in> set js" "sj_arrived j" "wait_of rt js = {#}" for j js
      using that by (induction js) (auto split: if_splits)
    have "sim_tag rt j0 \<notin> set fin" using H(3) F(2) j0(1,3) by (auto simp: sim_tag_def)
    then obtain j where j: "j \<in> set ?js" "sim_tag rt j = sim_tag rt j0" using U(2) j0(1) by blast
    then have "sj_arrived j" "sj_id j = sj_id j0" using arr j0(2) H(1) by (auto simp: sim_tag_def)
    then show ?thesis using col(1)[OF j(1)] nowait[OF j(1)] \<open>wait_of rt ?js = {#}\<close> by simp
  qed
  ultimately show ?thesis
    using col(3) unfolding good_column_def by (auto split: option.split)
qed

lemma filter_on_core_sum:
  "sum_list (map sj_run (map worked js)) = sum_list (map sj_run js) - int (length (filter on_core js))"
  by (induction js) (auto simp: worked_def)

lemma diagram_snoc:
  assumes "length col = n"
  shows "map2 (\<lambda>row x. row @ cell x) (diagram_of n cols) col = diagram_of n (cols @ [col])"
  using assms by (intro nth_equalityI) (auto simp: diagram_of_def)

lemma unit_phase:
  assumes con: "consistent scheme n rt s" and fresh: "fresh_jobs rt js0" and hist: "history js0 n rt cols fin s"
    and arr: "\<forall>j\<in>set (sim_jobs s). sj_arrived j = (sj_arrival j \<le> clock s)
      \<and> (\<not> sj_arrived j \<longrightarrow> sj_run j = rt (sj_id j))"
    and pos: "\<forall>j\<in>set (sim_jobs s). 0 < sj_run j"
  shows "\<exists>s' col. run_unit n s = Some (Inr s') \<and> consistent scheme n rt s' \<and> history js0 n rt (cols @ [col]) fin s'
    \<and> between rt (cols @ [col]) s' \<and> clock s' = clock s + 1 \<and> map sj_arrival (sim_jobs s') = map sj_arrival (sim_jobs s)
    \<and> sum_list (map sj_run (sim_jobs s')) = sum_list (map sj_run (sim_jobs s)) - int (length (filter on_core (sim_jobs s)))"
proof -
  let ?js = "sim_jobs s" and ?run = "run_tags (sched_abs (sched_of s))"
  let ?col = "column n ?run"
  obtain s' where s': "run_unit n s = Some (Inr s')" "consistent scheme n rt s'" "clock s' = clock s + 1"
    "sim_jobs s' = map worked ?js" "sched_of s' = sched_of s"
    "core_timing_diagram s' = map2 (\<lambda>row x. row @ cell x) (core_timing_diagram s) ?col"
    using run_unit_ok[OF con] by blast
  have A: "valid rt ?js" "run_of rt ?js = ?run" using con by (simp_all add: consistent_def agree_def)
  have bound: "\<forall>c. run_of rt ?js c \<noteq> None \<longrightarrow> c < n" using consistent_bound[OF con] A(2) by simp
  note col = column_jobs[OF A(1) bound, unfolded A(2)]
  have H: "clock s = int (length cols)" "good_schedule js0 n cols" "core_timing_diagram s = diagram_of n cols"
    "mset (map (sim_tag rt) js0) = mset fin + mset (map (sim_tag rt) ?js)"
    "\<forall>(i, a, r)\<in>set fin. int (received cols i) = r"
    "\<forall>j\<in>set ?js. sj_run j = rt (sj_id j) - int (received cols (sj_id j))" "totals_of s = account cols fin"
    using hist by (simp_all add: history_def)
  have len: "length ?col = n" by (simp add: column_def)
  have F: "distinct (map sj_id js0)" using fresh by (simp add: fresh_jobs_def)
  have out: "\<forall>(i, a, r)\<in>set fin. Some i \<notin> set ?col"
    using tag_unique(3)[OF F H(4)] col(2) by fastforce
  have good: "good_column js0 cols ?col" using unit_column_good[OF con fresh hist _ pos] arr by blast
  have tags: "map (sim_tag rt) (map worked ?js) = map (sim_tag rt) ?js" by simp
  have "history js0 n rt (cols @ [?col]) fin s'"
    unfolding history_def s'(4) tags
  proof (intro conjI)
    show "\<forall>(i, a, r)\<in>set fin. int (received (cols @ [?col]) i) = r"
      using H(5) out by (auto simp: received_snoc)
    show "\<forall>j\<in>set (map worked ?js). sj_run j = rt (sj_id j) - int (received (cols @ [?col]) (sj_id j))"
      using H(6) col(1) by (auto simp: received_snoc worked_def)
    show "totals_of s' = account (cols @ [?col]) fin" using H(7) s'(5) account_snoc[OF out] by simp
  qed (use H s'(3,6) len good in \<open>simp_all add: good_schedule_snoc diagram_snoc\<close>)
  moreover have "between rt (cols @ [?col]) s'"
    unfolding between_def
  proof (intro conjI)
    show "arrived_ok rt 0 (clock s') (sim_jobs s')"
      using arr valid_on_core[OF A(1)] unfolding arrived_ok_def s'(3,4) by (auto simp: worked_def)
    show "due_on_cores rt s'"
      unfolding due_on_cores_def s'(4,5)
    proof
      fix j
      assume "j \<in> set (map worked ?js)"
      then obtain j' where j': "j' \<in> set ?js" "j = worked j'" by auto
      have "0 < sj_run j'" using pos j'(1) by blast
      then show "0 \<le> sj_run j \<and> (sj_run j = 0 \<longrightarrow> sim_tag rt j \<in> ran ?run)"
        using on_core_ran[OF A(1) j'(1)] A(2) unfolding j'(2) by (auto simp: worked_def sim_tag_def)
    qed
    show "\<forall>j\<in>set (sim_jobs s'). sj_run j = 0 \<longrightarrow> finish_time (cols @ [?col]) (sj_id j) = int (length (cols @ [?col]))"
      unfolding s'(4) using pos col(1) by (auto simp: finish_time_snoc worked_def split: if_splits)
  qed
  moreover have "map sj_arrival (sim_jobs s') = map sj_arrival ?js" by (simp add: s'(4))
  moreover have "sum_list (map sj_run (sim_jobs s')) = sum_list (map sj_run ?js) - int (length (filter on_core ?js))"
    unfolding s'(4) by (rule filter_on_core_sum)
  ultimately show ?thesis using s'(1-3) by blast
qed

text \<open>The steps 2 and 3 keep the history.\<close>

lemma base_fields:
  assumes "map base js = map base js'"
  shows "map (sim_tag rt) js = map (sim_tag rt) js'" "map sj_run js = map sj_run js'" "map sj_arrival js = map sj_arrival js'"
    "map sj_id js = map sj_id js'"
proof -
  have "map (sim_tag rt) xs = map (sim_tag rt) (map base xs)" "map sj_run xs = map sj_run (map base xs)"
    "map sj_arrival xs = map sj_arrival (map base xs)" "map sj_id xs = map sj_id (map base xs)" for xs
    by (simp_all add: base_def sim_tag_def)
  then show "map (sim_tag rt) js = map (sim_tag rt) js'" "map sj_run js = map sj_run js'"
    "map sj_arrival js = map sj_arrival js'" "map sj_id js = map sj_id js'"
    using assms by metis+
qed

lemma history_base:
  assumes "history js0 n rt cols fin s" "map base (sim_jobs s') = map base (sim_jobs s)" "clock s' = clock s"
    "core_timing_diagram s' = core_timing_diagram s" "totals_of s' = totals_of s"
  shows "history js0 n rt cols fin s'"
proof -
  note B = base_fields[OF assms(2)]
  have "\<forall>j\<in>set (sim_jobs s'). sj_run j = rt (sj_id j) - int (received cols (sj_id j))"
  proof
    fix j
    assume "j \<in> set (sim_jobs s')"
    then obtain k where k: "k < length (sim_jobs s')" "j = sim_jobs s' ! k" by (auto simp: in_set_conv_nth)
    have len: "length (sim_jobs s') = length (sim_jobs s)" using arg_cong[OF assms(2), of length] by simp
    then have "sj_run j = sj_run (sim_jobs s ! k)" "sj_id j = sj_id (sim_jobs s ! k)"
      using k arg_cong[OF B(2), of "\<lambda>l. l ! k"] arg_cong[OF B(4), of "\<lambda>l. l ! k"] by simp_all
    then show "sj_run j = rt (sj_id j) - int (received cols (sj_id j))"
      using assms(1) k(1) len by (simp add: history_def)
  qed
  then show ?thesis using assms B(1) by (simp add: history_def)
qed

definition work :: "sim_job list \<Rightarrow> simulation \<Rightarrow> nat" where
  "work js0 s = nat (sum_list (map sj_run (sim_jobs s))) + nat (sum_list (map sj_arrival js0) + 1 - clock s)"

lemma work_decreases:
  assumes con: "consistent scheme n rt s" and fresh: "fresh_jobs rt js0" and hist: "history js0 n rt cols fin s"
    and arr: "\<forall>j\<in>set (sim_jobs s). sj_arrived j = (sj_arrival j \<le> clock s)" and ne: "sim_jobs s \<noteq> []"
    and sum: "sum_list (map sj_run (sim_jobs s')) = sum_list (map sj_run (sim_jobs s)) - int (length (filter on_core (sim_jobs s)))"
    and nonneg: "\<forall>j\<in>set (sim_jobs s'). 0 \<le> sj_run j" and clock: "clock s' = clock s + 1"
  shows "work js0 s' < work js0 s"
proof -
  have pos: "0 \<le> sum_list (map sj_run (sim_jobs s'))" by (rule sum_list_nonneg) (use nonneg in auto)
  show ?thesis
  proof (cases "filter on_core (sim_jobs s) = []")
    case False
    then have "0 < int (length (filter on_core (sim_jobs s)))" by simp
    then show ?thesis using pos sum clock unfolding work_def by linarith
  next
    case True
    then have "jobs_alive s \<le> 0" using some_core_works[OF con] by fastforce
    then have "size (filter_mset sj_arrived (mset (sim_jobs s))) = 0" using con unfolding consistent_def by linarith
    then have none: "\<forall>j\<in>set (sim_jobs s). \<not> sj_arrived j" by auto
    obtain j where j: "j \<in> set (sim_jobs s)" using ne by (cases "sim_jobs s") auto
    then have late: "clock s < sj_arrival j" using none arr by force
    have F: "distinct (map sj_id js0)" "\<forall>j\<in>set js0. 0 \<le> sj_arrival j" using fresh by (auto simp: fresh_jobs_def)
    have "mset (map (sim_tag rt) js0) = mset fin + mset (map (sim_tag rt) (sim_jobs s))" using hist by (simp add: history_def)
    from tag_unique(1)[OF F(1) this] j obtain j0 where "j0 \<in> set js0" "sim_tag rt j0 = sim_tag rt j" by blast
    then have "sj_arrival j = sj_arrival j0 \<and> j0 \<in> set js0" by (simp add: sim_tag_def)
    then have "sj_arrival j \<in> set (map sj_arrival js0)" by simp
    then have "sj_arrival j \<le> sum_list (map sj_arrival js0)" using F(2) by (intro member_le_sum_list) auto
    then show ?thesis using late sum True clock unfolding work_def by simp
  qed
qed

lemma print_keeps [simp]:
  "sim_jobs (print w s) = sim_jobs s" "clock (print w s) = clock s" "sched_of (print w s) = sched_of s"
  "core_timing_diagram (print w s) = core_timing_diagram s"
  "consistent scheme n rt (print w s) = consistent scheme n rt s"
  "history js0 n rt cols fin (print w s) = history js0 n rt cols fin s"
  "between rt cols (print w s) = between rt cols s"
  by (simp_all add: print_def consistent_def history_def between_def due_on_cores_def)

lemma time_unit_ok:
  assumes con: "consistent scheme n rt s" and fresh: "fresh_jobs rt js0" and hist: "history js0 n rt cols fin s"
    and btw: "between rt cols s"
  shows "\<exists>s'. time_unit scheme q n s = Some (Inr s') \<and> consistent scheme n rt s'
    \<and> ((sim_jobs s' = [] \<and> (\<exists>fin. history js0 n rt cols fin s'))
      \<or> (\<exists>col fin. history js0 n rt (cols @ [col]) fin s' \<and> between rt (cols @ [col]) s' \<and> work js0 s' < work js0 s))"
proof -
  let ?s = "print (''=== [TIME '' @ show_int (clock s) @ ''] ==='' @ nl) s"
  obtain s1 fin1 where s1: "finish_jobs scheme q (length (sim_jobs s)) 0 ?s = Some (Inr s1)" "consistent scheme n rt s1"
    "history js0 n rt cols fin1 s1" "arrived_ok rt 0 (clock s1) (sim_jobs s1)" "\<forall>j\<in>set (sim_jobs s1). 0 < sj_run j"
    "sum_list (map sj_run (sim_jobs s1)) = sum_list (map sj_run (sim_jobs s))"
    using finish_phase[of scheme n rt ?s js0 cols fin q] con hist btw by auto
  show ?thesis
  proof (cases "sim_jobs s1 = []")
    case True
    then have "time_unit scheme q n s = Some (Inr s1)" using s1(1) by (simp add: time_unit_def Let_def go_on_def)
    then show ?thesis using True s1(2,3) by blast
  next
    case False
    obtain s2 where s2: "(if scheme = RR then expire_cores q n 0 s1 else Some (Inr s1)) = Some (Inr s2)"
      "consistent scheme n rt s2" "clock s2 = clock s1" "core_timing_diagram s2 = core_timing_diagram s1"
      "map strip (sim_jobs s2) = map strip (sim_jobs s1)" "totals_of s2 = totals_of s1"
    proof (cases "scheme = RR")
      case True
      then show thesis using that expire_cores_ok[of n rt s1 0 n q] s1(2) by auto
    next
      case False
      then show thesis using that s1(2) by simp
    qed
    have len: "length (sim_jobs s2) = length (sim_jobs s1)" using arg_cong[OF s2(5), of length] by simp
    have a2: "arrived_ok rt 0 (clock s2) (sim_jobs s2)" using s1(4) arrived_ok_strip[OF s2(5)] s2(3) by simp
    obtain s3 where s3: "arrivals scheme q n (length (sim_jobs s2)) 0 s2 = Some (Inr s3)" "consistent scheme n rt s3"
      "clock s3 = clock s2" "core_timing_diagram s3 = core_timing_diagram s2" "map base (sim_jobs s3) = map base (sim_jobs s2)"
      "arrived_ok rt (length (sim_jobs s2)) (clock s2) (sim_jobs s3)" "totals_of s3 = totals_of s2"
      using arrivals_ok[OF s2(2) _ a2, of "length (sim_jobs s2)" q] by auto
    have base: "map base (sim_jobs s3) = map base (sim_jobs s1)" using s3(5) base_strip[OF s2(5)] by simp
    have h3: "history js0 n rt cols fin1 s3"
      by (rule history_base[OF s1(3) base]) (simp_all add: s3 s2)
    have len3: "length (sim_jobs s3) = length (sim_jobs s2)" using arg_cong[OF s3(5), of length] by simp
    have arr: "\<forall>j\<in>set (sim_jobs s3). sj_arrived j = (sj_arrival j \<le> clock s3) \<and> (\<not> sj_arrived j \<longrightarrow> sj_run j = rt (sj_id j))"
      using s3(6) len3 s3(3) unfolding arrived_ok_def by (auto simp: in_set_conv_nth)
    have runs: "map sj_run (sim_jobs s3) = map sj_run (sim_jobs s1)" by (rule base_fields(2)[OF base])
    have "set (map sj_run (sim_jobs s3)) = set (map sj_run (sim_jobs s1))" unfolding runs ..
    then have "\<forall>x\<in>sj_run ` set (sim_jobs s3). 0 < x" using s1(5) by auto
    then have pos: "\<forall>j\<in>set (sim_jobs s3). 0 < sj_run j" by simp
    obtain s4 col where s4: "run_unit n s3 = Some (Inr s4)" "consistent scheme n rt s4" "history js0 n rt (cols @ [col]) fin1 s4"
      "between rt (cols @ [col]) s4" "clock s4 = clock s3 + 1"
      "sum_list (map sj_run (sim_jobs s4)) = sum_list (map sj_run (sim_jobs s3)) - int (length (filter on_core (sim_jobs s3)))"
      using unit_phase[OF s3(2) fresh h3 arr pos] by blast
    have ne: "sim_jobs s3 \<noteq> []" using False len len3 by auto
    have ar: "\<forall>j\<in>set (sim_jobs s3). sj_arrived j = (sj_arrival j \<le> clock s3)" using arr by blast
    have nn: "\<forall>j\<in>set (sim_jobs s4). 0 \<le> sj_run j" using s4(4) by (auto simp: between_def due_on_cores_def)
    have "work js0 s4 < work js0 s3" by (rule work_decreases[OF s3(2) fresh h3 ar ne s4(6) nn s4(5)])
    moreover have "clock s3 = clock s" using h3 hist by (simp add: history_def)
    then have "work js0 s3 = work js0 s" using s1(6) unfolding work_def runs by simp
    moreover have "time_unit scheme q n s = Some (Inr s4)"
      using s1(1) s2(1) s3(1) s4(1) False by (simp add: time_unit_def Let_def go_on_def)
    ultimately show ?thesis using s4(2-4) by auto
  qed
qed

lemma simulate_ok:
  assumes "consistent scheme n rt s" "fresh_jobs rt js0" "history js0 n rt cols fin s"
    "sim_jobs s = [] \<or> between rt cols s"
  shows "\<exists>s' cols fin. simulate scheme q n s = Some (Inr s') \<and> sim_jobs s' = [] \<and> consistent scheme n rt s'
    \<and> history js0 n rt cols fin s'"
  using assms
proof (induction "work js0 s" arbitrary: s cols fin rule: less_induct)
  case less
  show ?case
  proof (cases "sim_jobs s = []")
    case True
    then show ?thesis using less.prems by (subst simulate.simps) auto
  next
    case False
    then have btw: "between rt cols s" using less.prems(4) by simp
    obtain s' where s': "time_unit scheme q n s = Some (Inr s')" "consistent scheme n rt s'"
      "(sim_jobs s' = [] \<and> (\<exists>fin. history js0 n rt cols fin s'))
       \<or> (\<exists>col fin. history js0 n rt (cols @ [col]) fin s' \<and> between rt (cols @ [col]) s' \<and> work js0 s' < work js0 s)"
      using time_unit_ok[OF less.prems(1-3) btw, of q] by blast
    have step: "simulate scheme q n s = simulate scheme q n s'"
      using s'(1) False by (subst simulate.simps) simp
    from s'(3) show ?thesis
    proof (elim disjE exE conjE)
      fix fin'
      assume a: "sim_jobs s' = []" "history js0 n rt cols fin' s'"
      then have "simulate scheme q n s' = Some (Inr s')" by (subst simulate.simps) simp
      then show ?thesis using a s'(2) step by auto
    next
      fix col fin'
      assume a: "history js0 n rt (cols @ [col]) fin' s'" "between rt (cols @ [col]) s'" "work js0 s' < work js0 s"
      have "\<exists>s'' cols fin. simulate scheme q n s' = Some (Inr s'') \<and> sim_jobs s'' = [] \<and> consistent scheme n rt s''
          \<and> history js0 n rt cols fin s''"
        by (rule less.hyps[OF a(3) s'(2) less.prems(2) a(1)]) (simp add: a(2))
      then show ?thesis unfolding step .
    qed
  qed
qed

section \<open>The program\<close>

lemma parse_jobs_fresh:
  assumes "parse_jobs jid input = Some js"
  shows "map sj_id js = map (\<lambda>k. jid + int k) [0..<length js] \<and> (\<forall>j\<in>set js. sj_core j = - 1 \<and> \<not> sj_arrived j)"
  using assms
proof (induction jid input arbitrary: js rule: parse_jobs.induct)
  case (1 jid input)
  show ?case
  proof (cases "fgets input")
    case None
    then show ?thesis using 1(2) by (simp add: parse_jobs.simps)
  next
    case (Some lr)
    obtain line rest where lr: "lr = (line, rest)" by (cases lr)
    obtain j js' where j: "parse_job jid line = Some j" "parse_jobs (jid + 1) rest = Some js'" "js = j # js'"
      using 1(2) Some lr by (subst (asm) parse_jobs.simps) (auto simp: bind_eq_Some_conv)
    have "sj_id j = jid \<and> sj_core j = - 1 \<and> \<not> sj_arrived j"
      using j(1) by (auto simp: parse_job_def bind_eq_Some_conv)
    moreover have "map sj_id js' = map (\<lambda>k. jid + 1 + int k) [0..<length js'] \<and> (\<forall>j\<in>set js'. sj_core j = - 1 \<and> \<not> sj_arrived j)"
      by (rule 1(1)[OF Some lr[symmetric] j(1,2)])
    ultimately show ?thesis unfolding j(3) by (simp add: map_upt_Suc_cons del: upt_Suc)
  qed
qed

text \<open>The jobs of a well-formed file.\<close>

definition runnable :: "sim_job list \<Rightarrow> bool" where
  "runnable js \<longleftrightarrow> (\<forall>j\<in>set js. 0 < sj_run j \<and> 0 \<le> sj_arrival j)"

lemma parse_job_file_fresh:
  assumes "parse_job_file file = Some js" "runnable js"
  shows "fresh_jobs (\<lambda>i. sj_run (js ! nat i)) js"
proof -
  have p: "map sj_id js = map (\<lambda>k. 0 + int k) [0..<length js]" "\<forall>j\<in>set js. sj_core j = - 1 \<and> \<not> sj_arrived j"
    using parse_jobs_fresh assms(1) unfolding parse_job_file_def by blast+
  have "distinct (map sj_id js)" unfolding p(1) by (simp add: distinct_map inj_on_def)
  moreover have "0 \<le> sj_id j \<and> sj_run j = sj_run (js ! nat (sj_id j))" if j: "j \<in> set js" for j
  proof -
    obtain k where k: "k < length js" "js ! k = j" using j by (auto simp: in_set_conv_nth)
    then have "sj_id j = int k" using arg_cong[OF p(1), of "\<lambda>l. l ! k"] by simp
    then show ?thesis using k by simp
  qed
  ultimately show ?thesis using p(2) assms(2) by (auto simp: fresh_jobs_def runnable_def)
qed

lemma start_ok:
  assumes "fresh_jobs rt js" "0 < n"
  shows "\<exists>s. start_simulation scheme n js w = Some s \<and> sim_jobs s = js \<and> consistent scheme n rt s
    \<and> history js n rt [] [] s \<and> between rt [] s"
proof -
  obtain sch where sch: "scheduler_start_up n scheme = Some sch" "sched_inv {} {} sch" "sched_abs sch = spec_init"
    "g_scheme sch = scheme" "g_total_cores sch = n" using start_up_ok[OF assms(2)] by blast
  obtain s where s: "start_simulation scheme n js w = Some s" "sim_jobs s = js" "sched_of s = sch" "jobs_alive s = 0" "clock s = 0"
    "quantum_clock s = replicate n (- 1)" "core_timing_diagram s = replicate n []"
    by (simp add: start_simulation_def sch(1))
  have F: "distinct (map sj_id js)" "\<forall>j\<in>set js. 0 \<le> sj_id j \<and> 0 \<le> sj_arrival j \<and> 0 < sj_run j
     \<and> sj_run j = rt (sj_id j) \<and> sj_core j = - 1 \<and> \<not> sj_arrived j" using assms(1) by (auto simp: fresh_jobs_def)
  have "distinct (map sj_id xs) \<Longrightarrow> \<forall>j\<in>set xs. sj_core j = - 1 \<and> \<not> sj_arrived j
      \<Longrightarrow> valid rt xs \<and> run_of rt xs = Map.empty \<and> wait_of rt xs = {#}" for xs
    by (induction xs) auto
  then have v: "valid rt js" "run_of rt js = Map.empty" "wait_of rt js = {#}" using F by blast+
  have e: "run_tags spec_init = Map.empty" "wait_tags spec_init = {#}"
    by (simp_all add: spec_init_def run_tags_def wait_tags_def fun_eq_iff)
  have "filter_mset sj_arrived (mset js) = {#}" using F(2) by auto
  then have "consistent scheme n rt s"
    unfolding consistent_def s(2-7) agree_def sched_ok_def sch(3) e v
    using sch(2,4,5) assms(2) spec_init_inv[of scheme n] F(2) v(1) by simp
  moreover have "history js n rt [] [] s"
    unfolding history_def s(2,3,5,7) sch(3)
    using F(2) by (simp add: good_schedule_def diagram_of_def received_def totals_def account_def spec_init_def map_replicate_const)
  moreover have "between rt [] s"
    unfolding between_def due_on_cores_def arrived_ok_def s(2,5) using F(2) by (auto simp: not_less)
  ultimately show ?thesis using s(1,2) by blast
qed

text \<open>The sums the averages are made of.\<close>

definition turnarounds :: "int option list list \<Rightarrow> sim_job list \<Rightarrow> int" where
  "turnarounds cols js = sum_list (map (\<lambda>j. finish_time cols (sj_id j) - sj_arrival j) js)"

definition waits :: "int option list list \<Rightarrow> sim_job list \<Rightarrow> int" where
  "waits cols js = sum_list (map (\<lambda>j. finish_time cols (sj_id j) - sj_arrival j - sj_run j) js)"

lemma account_all:
  assumes "mset (map (sim_tag rt) js) = mset fin" "\<forall>j\<in>set js. sj_run j = rt (sj_id j)"
  shows "account cols fin = (int (length js), turnarounds cols js, waits cols js)"
proof -
  have len: "length fin = length js" using arg_cong[OF assms(1), of size] by simp
  have sums: "sum_list (map f fin) = sum_list (map f (map (sim_tag rt) js))" for f :: "tag \<Rightarrow> int"
    using assms(1) by (metis mset_map sum_mset_sum_list)
  have "map (\<lambda>j. finish_time cols (sj_id j) - sj_arrival j - rt (sj_id j)) js
      = map (\<lambda>j. finish_time cols (sj_id j) - sj_arrival j - sj_run j) js" using assms(2) by simp
  from arg_cong[OF this, of sum_list] show ?thesis unfolding account_def sums len turnarounds_def waits_def
    by (simp add: sim_tag_def o_def)
qed

definition good_report :: "(rat option \<Rightarrow> string) \<Rightarrow> nat \<Rightarrow> sim_job list \<Rightarrow> int option list list \<Rightarrow> string \<Rightarrow> string" where
  "good_report show_2f n js cols resp = ''FINAL TIMING DIAGRAM:'' @ nl @ diagram_lines (diagram_of n cols) @ nl
     @ ''Average Waiting Time: '' @ show_2f (average (waits cols js) (int (length js))) @ nl
     @ ''Average Turnaround Time: '' @ show_2f (average (turnarounds cols js) (int (length js))) @ nl
     @ ''Average Response Time: '' @ resp @ nl"

lemma run_simulator_ok:
  assumes fresh: "fresh_jobs rt js" and n: "0 < n"
  shows "\<exists>w cols resp. run_simulator show_2f scheme q n js = Some (0, w @ [good_report show_2f n js cols resp], [])
    \<and> good_schedule js n cols \<and> (\<forall>j\<in>set js. int (received cols (sj_id j)) = sj_run j)"
proof -
  obtain s where s: "start_simulation scheme n js [loaded_line n (length js) scheme q] = Some s" "consistent scheme n rt s"
    "history js n rt [] [] s" "between rt [] s" using start_ok[OF fresh n] by blast
  obtain s' cols fin where s': "simulate scheme q n s = Some (Inr s')" "sim_jobs s' = []" "history js n rt cols fin s'"
    using simulate_ok[OF s(2) fresh s(3), of q] s(4) by blast
  have F: "\<forall>j\<in>set js. sj_run j = rt (sj_id j)" using fresh by (auto simp: fresh_jobs_def)
  have H: "good_schedule js n cols" "core_timing_diagram s' = diagram_of n cols" "mset (map (sim_tag rt) js) = mset fin"
    "\<forall>(i, a, r)\<in>set fin. int (received cols i) = r" "totals_of s' = account cols fin"
    using s'(2,3) by (simp_all add: history_def)
  have "set fin = sim_tag rt ` set js" using arg_cong[OF H(3), of set_mset] by simp
  then have rec: "\<forall>j\<in>set js. int (received cols (sj_id j)) = sj_run j" using H(4) F by (auto simp: sim_tag_def)
  have "totals_of s' = (int (length js), turnarounds cols js, waits cols js)"
    unfolding H(5) by (rule account_all[OF H(3) F])
  then have "total_jobs (sched_of s') = int (length js)" "total_turnaround_time (sched_of s') = turnarounds cols js"
    "total_waiting_time (sched_of s') = waits cols js" by (simp_all add: totals_def sched_abs_def)
  then have "final_report show_2f s'
      = good_report show_2f n js cols (show_2f (scheduler_average_response_time (sched_of s')))"
    unfolding final_report_def good_report_def H(2) scheduler_average_waiting_time_def
      scheduler_average_turnaround_time_def by simp
  then show ?thesis using s(1) s'(1) H(1) rec by (auto simp: run_simulator_def)
qed

text \<open>A job without running time is finished before it has a core.\<close>

lemma finish_jobs_zero:
  assumes "\<forall>j\<in>set (sim_jobs s). sj_core j = - 1" "length (sim_jobs s) = i + m"
    "\<exists>k<length (sim_jobs s). i \<le> k \<and> sj_run (sim_jobs s ! k) = 0"
  shows "finish_jobs scheme q m i s = None"
  using assms
proof (induction m arbitrary: i)
  case 0
  then show ?case by auto
next
  case (Suc m)
  show ?case
  proof (cases "sj_run (sim_jobs s ! i) = 0")
    case True
    have "sj_core (sim_jobs s ! i) = - 1" using Suc.prems(1,2) by simp
    then show ?thesis
      using True by (simp add: go_on_def finish_job_def scheduler_job_finished_def running_job_def Let_def)
  next
    case False
    then have "\<exists>k<length (sim_jobs s). Suc i \<le> k \<and> sj_run (sim_jobs s ! k) = 0"
      using Suc.prems(3) by (metis Suc_leI le_neq_implies_less)
    then show ?thesis using Suc.IH[of "Suc i"] Suc.prems False by simp
  qed
qed

lemma sched_simulator_main_run:
  assumes "process_options os \<lparr>cf_cores = 0, cf_scheme = None, cf_quantum = 0\<rparr> = Inr c" "0 < cf_cores c"
    "cf_scheme c = Some scheme" "read_file name = Some input" "parse_job_file input = Some js"
  shows "sched_simulator_main show_2f read_file prog os [name] = run_simulator show_2f scheme (cf_quantum c) (nat (cf_cores c)) js"
  using assms by (simp add: sched_simulator_main_def)

section \<open>Properties\<close>


definition example_file :: string where
  "example_file = ''a,r,p'' @ nl @ ''0,2,1'' @ nl @ ''1,1,0'' @ nl"

definition example_jobs :: "sim_job list" where
  "example_jobs = [\<lparr>sj_id = 0, sj_arrival = 0, sj_run = 2, sj_priority = 1, sj_core = - 1, sj_arrived = False\<rparr>,
     \<lparr>sj_id = 1, sj_arrival = 1, sj_run = 1, sj_priority = 0, sj_core = - 1, sj_arrived = False\<rparr>]"

definition example_config :: config where
  "example_config = \<lparr>cf_cores = 1, cf_scheme = Some PPRI, cf_quantum = 0\<rparr>"

lemma example_parsed: "parse_job_file example_file = Some example_jobs" "runnable example_jobs"
  "process_options [OptC ''1'', OptS ''ppri''] \<lparr>cf_cores = 0, cf_scheme = None, cf_quantum = 0\<rparr> = Inr example_config"
  by code_simp+


text \<open>
  A file with a job whose running time is zero makes the simulator tell the scheduler that this
  job has finished on core -1, before it has arrived: the scheduler reads outside its array.\<close>

theorem simulator_zero_time:
  assumes "process_options os \<lparr>cf_cores = 0, cf_scheme = None, cf_quantum = 0\<rparr> = Inr c" "0 < cf_cores c"
    "cf_scheme c = Some scheme" "read_file name = Some input" "parse_job_file input = Some js" "\<exists>j\<in>set js. sj_run j = 0"
  shows "sched_simulator_main show_2f read_file prog os [name] = None"
proof -
  have off: "\<forall>j\<in>set js. sj_core j = - 1"
    using parse_jobs_fresh assms(5) unfolding parse_job_file_def by blast
  have "simulate scheme q n s = None" if s: "start_simulation scheme n js w = Some s" for s w n q
  proof -
    have js: "sim_jobs s = js" using s by (auto simp: start_simulation_def)
    have z: "\<exists>k<length js. 0 \<le> k \<and> sj_run (js ! k) = 0" using assms(6) by (metis in_set_conv_nth le0)
    have "finish_jobs scheme q (length js) 0 (print x s) = None" for x
      using z by (intro finish_jobs_zero) (simp_all add: js off)
    moreover have "js \<noteq> []" using assms(6) by auto
    ultimately show ?thesis
      by (subst simulate.simps) (simp add: js time_unit_def Let_def go_on_def)
  qed
  then show ?thesis
    unfolding sched_simulator_main_run[where read_file = read_file and name = name, OF assms(1-5)] run_simulator_def
    by (cases "start_simulation scheme (nat (cf_cores c)) js
        [loaded_line (nat (cf_cores c)) (length js) scheme (cf_quantum c)]") simp_all
qed

theorem simulator_zero_time_witness:
  "sched_simulator_main (\<lambda>_. ''0.00'') [''f'' \<mapsto> ''h'' @ nl @ ''3,0,1''] ''simulator'' [OptC ''1'', OptS ''ppri''] [''f''] = None"
proof -
  have "parse_job_file (''h'' @ nl @ ''3,0,1'')
      = Some [\<lparr>sj_id = 0, sj_arrival = 3, sj_run = 0, sj_priority = 1, sj_core = - 1, sj_arrived = False\<rparr>]"
    by code_simp
  from simulator_zero_time[OF example_parsed(3) _ _ _ this, of PPRI "[''f'' \<mapsto> ''h'' @ nl @ ''3,0,1'']" "''f''"]
  show ?thesis by (simp add: example_config_def)
qed

end
