(* ===== verification/Pipelines.thy ===== *)
theory Pipelines
  imports Descriptors
begin

text \<open>
  The process examples of \<open>ipc/\<close>: \<open>fork.c\<close>, which runs a pipeline of commands with two pipes in turn,
  \<open>finder.c\<close>, which runs a fixed one with three pipes, and \<open>pipe.c\<close>, which copies a file. The results of
  \<open>fork\<close> and \<open>waitpid\<close> are parameters. A child is recorded with the descriptors and the
  arguments it calls \<open>exec\<close> with; pipes are assumed to be available (\<^term>\<open>None\<close> otherwise,
  since the programs go on with descriptors that have no value).
\<close>

section \<open>fork.c\<close>

text \<open>What a child becomes: a program with its arguments, or undefined behaviour before that.\<close>

datatype kid_act = Execs "string list" | Overflows

record kid =
  kid_pid :: int
  kid_fds :: fd_table
  kid_act :: kid_act

record forker =
  fk_fds :: fd_table
  fk_pipes :: nat
  slots :: "(nat \<times> nat) list"
  other_pipe :: nat
  cur :: nat
  pids :: "int cell list"
  kids :: "kid list"
  printed :: "string list"
  waits :: "int list"

definition fork_cmds :: "string list list" where
  "fork_cmds = [[''ls'', ''-l''], [''awk'', ''{print $1}''], [''sort''], [''uniq''], [''sort'', ''--reverse'']]"

text \<open>\<open>pipe(p[i])\<close>\<close>

definition pipe_slot :: "nat \<Rightarrow> forker \<Rightarrow> forker option" where
  "pipe_slot i s = map_option (\<lambda>(e, t). s\<lparr>fk_fds := t, fk_pipes := Suc (fk_pipes s), slots := (slots s)[i := e]\<rparr>)
     (open_pipe (fk_pipes s) (fk_fds s))"

definition close_slot :: "nat \<Rightarrow> forker \<Rightarrow> forker" where
  "close_slot i s = s\<lparr>fk_fds := close_fd (snd (slots s ! i)) (close_fd (fst (slots s ! i)) (fk_fds s))\<rparr>"

text \<open>The descriptors of the child when it calls \<open>execvp\<close>.\<close>

definition fork_child :: "nat \<Rightarrow> nat \<Rightarrow> forker \<Rightarrow> fd_table" where
  "fork_child num i s =
     (let (cr, cw) = slots s ! cur s; (pr, pw) = slots s ! other_pipe s;
          t = close_fd pw (close_fd cr (fk_fds s));
          t = (if i \<noteq> 0 then dup2 pr 0 t else t);
          t = close_fd pr t;
          t = (if i \<noteq> num - 1 then dup2 cw 1 t else t)
      in close_fd cw t)"

definition show_pair :: "string \<Rightarrow> nat \<times> nat \<Rightarrow> string" where
  "show_pair w rw = w @ '': ['' @ show_nat (fst rw) @ '', '' @ show_nat (snd rw) @ '']'' @ [CHR 0x0A]"

definition fork_messages :: "nat \<Rightarrow> nat \<Rightarrow> string list \<Rightarrow> forker \<Rightarrow> string list" where
  "fork_messages num i c s =
     [''creating pipe '' @ show_nat (cur s) @ [CHR 0x0A]] @ map (\<lambda>w. w @ '' '') c @ [[CHR 0x0A]]
     @ [show_pair ''cur_pipe'' (slots s ! cur s), show_pair ''other_pipe'' (slots s ! other_pipe s)]
     @ (if i \<noteq> 0 then [''in: '' @ show_nat (fst (slots s ! other_pipe s)) @ [CHR 0x0A]] else [])
     @ (if i \<noteq> num - 1 then [''out: '' @ show_nat (snd (slots s ! cur s)) @ [CHR 0x0A]] else [])"

text \<open>
  One round of the loop. Parent and child store the result of \<open>fork\<close> in \<open>pids\<close>; outside of that
  array (\<^term>\<open>Inl\<close>) the behaviour of both is undefined from there on.
\<close>

definition fork_round :: "(nat \<Rightarrow> int) \<Rightarrow> nat \<Rightarrow> nat \<Rightarrow> string list \<Rightarrow> forker \<Rightarrow> (forker + forker) option" where
  "fork_round fr num i c s = map_option (\<lambda>s.
     let s = s\<lparr>printed := printed s @ fork_messages num i c s\<rparr>; cur_pid = fr i in
     if length (pids s) \<le> i then Inl s else
     let s = s\<lparr>pids := (pids s)[i := Val cur_pid]\<rparr>;
         s = (if cur_pid > 0 then s\<lparr>kids := kids s @
                [\<lparr>kid_pid = cur_pid, kid_fds = fork_child num i s, kid_act = Execs c\<rparr>]\<rparr> else s);
         s = close_slot (other_pipe s) s
     in Inr (s\<lparr>other_pipe := cur s, cur := (cur s + 1) mod 2\<rparr>)) (pipe_slot (cur s) s)"

fun fork_loop :: "(nat \<Rightarrow> int) \<Rightarrow> nat \<Rightarrow> nat \<Rightarrow> string list list \<Rightarrow> forker \<Rightarrow> (forker + forker) option" where
  "fork_loop fr num i [] s = Some (Inr s)"
| "fork_loop fr num i (c # cs) s = (case fork_round fr num i c s of
     None \<Rightarrow> None | Some (Inl s) \<Rightarrow> Some (Inl s) | Some (Inr s) \<Rightarrow> fork_loop fr num (Suc i) cs s)"

text \<open>
  The program for any table of commands; \<open>num\<close> is \<open>NUM_CMD\<close> and \<open>room\<close> the length of the array
  \<open>pids\<close>.
\<close>

definition fork_start :: "nat \<Rightarrow> fd_table \<Rightarrow> forker" where
  "fork_start room t = \<lparr>fk_fds = t, fk_pipes = 0, slots = [(0, 0), (0, 0)], other_pipe = 1, cur = 0,
     pids = replicate room Uninit, kids = [], printed = [], waits = []\<rparr>"

definition fork_waits :: "nat \<Rightarrow> forker \<Rightarrow> forker option" where
  "fork_waits num s = (if num \<le> length (pids s) \<and> (\<forall>i<num. cell_val (pids s ! i) \<noteq> None)
     then Some (s\<lparr>waits := map (\<lambda>i. the (cell_val (pids s ! i))) [0..<num]\<rparr>) else None)"

definition fork_prog :: "(nat \<Rightarrow> int) \<Rightarrow> nat \<Rightarrow> nat \<Rightarrow> string list list \<Rightarrow> fd_table \<Rightarrow> (forker + forker) option" where
  "fork_prog fr num room cs t = Option.bind (pipe_slot 1 (fork_start room t)) (\<lambda>s.
     case fork_loop fr num 0 cs s of
       Some (Inr s) \<Rightarrow> map_option Inr (fork_waits num (close_slot (other_pipe s) s))
     | r \<Rightarrow> r)"

definition fork_main :: "(nat \<Rightarrow> int) \<Rightarrow> fd_table \<Rightarrow> (forker + forker) option" where
  "fork_main fr t = fork_prog fr 5 (5 - 1) fork_cmds t"

section \<open>finder.c\<close>

record finder =
  fd_kids :: "kid list"
  fd_fds :: fd_table
  fd_waits :: "int list"
  fd_out :: "string list"
  fd_err :: "string list"
  fd_exit :: int

text \<open>\<open>sprintf\<close> into \<open>cmdbuf\<close>, whose 256 bytes hold the end mark too.\<close>

definition in_cmdbuf :: "string \<Rightarrow> (string \<Rightarrow> kid_act) \<Rightarrow> kid_act" where
  "in_cmdbuf w k = (if length w < 256 then k w else Overflows)"

definition find_act :: "string \<Rightarrow> kid_act" where
  "find_act search_dir = in_cmdbuf (''/usr/bin/find '' @ search_dir @ '' -name '' @ [CHR 0x27, CHR ''*'', CHR 0x27] @ ''.[ch]'')
     (\<lambda>w. Execs [''/bin/bash'', ''-c'', w])"

definition grep_act :: "string \<Rightarrow> kid_act" where
  "grep_act search_str = Execs [''/usr/bin/xargs'', ''/bin/grep'', ''-c'', search_str]"

definition sort_act :: kid_act where
  "sort_act = Execs [''/usr/bin/sort'', ''-t'', '':'', ''+1.0'', ''-2.0'', ''--numeric'', ''--reverse'']"

definition head_act :: "string \<Rightarrow> kid_act" where
  "head_act num_files = in_cmdbuf (''/usr/bin/head --lines='' @ num_files)
     (\<lambda>w. Execs [''/bin/bash'', ''-c'', w])"

text \<open>The calls of \<open>close\<close> and \<open>dup2\<close> of the four children, in their order.\<close>

definition close_all :: "nat list \<Rightarrow> fd_table \<Rightarrow> fd_table" where
  "close_all xs t = fold close_fd xs t"

type_synonym three_pipes = "(nat \<times> nat) \<times> (nat \<times> nat) \<times> (nat \<times> nat)"

fun finder_child :: "nat \<Rightarrow> three_pipes \<Rightarrow> fd_table \<Rightarrow> fd_table" where
  "finder_child k ((r1, w1), (r2, w2), (r3, w3)) t = (
     if k = 0 then close_fd w1 (dup2 w1 1 (close_all [r1, r2, r3, w2, w3] t))
     else if k = 1 then close_fd w2 (dup2 w2 1 (close_fd r1 (dup2 r1 0 (close_all [r2, r3, w1, w3] t))))
     else if k = 2 then close_fd w3 (dup2 w3 1 (close_fd r2 (dup2 r2 0 (close_all [r1, r3, w1, w2] t))))
     else close_fd r3 (dup2 r3 0 (close_all [r1, r2, w1, w2, w3] t)))"

definition finder_acts :: "string \<Rightarrow> string \<Rightarrow> string \<Rightarrow> kid_act list" where
  "finder_acts dir str num = [find_act dir, grep_act str, sort_act, head_act num]"

definition finder_kids :: "(nat \<Rightarrow> int) \<Rightarrow> kid_act list \<Rightarrow> three_pipes \<Rightarrow> fd_table \<Rightarrow> kid list" where
  "finder_kids fr acts ps t = map (\<lambda>k. \<lparr>kid_pid = fr k, kid_fds = finder_child k ps t, kid_act = acts ! k\<rparr>)
     (filter (\<lambda>k. fr k > 0) [0..<length acts])"

text \<open>
  \<open>waitpid\<close> for each child; \<open>we k\<close> is the \<open>errno\<close> of the \<open>k\<close>th call when it fails, and ends the
  program.
\<close>

fun finder_wait :: "(nat \<Rightarrow> int option) \<Rightarrow> (nat \<times> int) list \<Rightarrow> finder \<Rightarrow> finder" where
  "finder_wait we [] s = s\<lparr>fd_exit := 0\<rparr>"
| "finder_wait we ((k, pid) # ks) s = (let s = s\<lparr>fd_waits := fd_waits s @ [pid]\<rparr> in
     case we k of None \<Rightarrow> finder_wait we ks s
     | Some e \<Rightarrow> s\<lparr>fd_err := fd_err s @ [''Process 1 encountered an error. ERROR'' @ show_int e], fd_exit := 1\<rparr>)"

definition finder_main :: "(nat \<Rightarrow> int) \<Rightarrow> (nat \<Rightarrow> int option) \<Rightarrow> fd_table \<Rightarrow> string list \<Rightarrow> finder option" where
  "finder_main fr we t argv =
     (let s = \<lparr>fd_kids = [], fd_fds = t, fd_waits = [], fd_out = [], fd_err = [], fd_exit = 0\<rparr> in
      case argv of
        [_, dir, str, num] \<Rightarrow>
          Option.bind (open_pipe 0 t) (\<lambda>(p1, t). Option.bind (open_pipe 1 t) (\<lambda>(p2, t).
          Option.bind (open_pipe 2 t) (\<lambda>(p3, t).
            Some (finder_wait we (map (\<lambda>k. (k, fr k)) [0..<4])
              (s\<lparr>fd_kids := finder_kids fr (finder_acts dir str num) (p1, p2, p3) t,
                 fd_fds := close_all [fst p1, snd p1, fst p2, snd p2, fst p3, snd p3] t\<rparr>)))))
      | _ \<Rightarrow> Some (s\<lparr>fd_out := [''usage: finder DIR STR NUM_FILES'' @ [CHR 0x0A]]\<rparr>))"

section \<open>pipe.c\<close>

text \<open>
  The first child of \<open>pipe.c\<close> copies a file to its output. \<open>rsize\<close> is unsigned, so a result of
  \<open>-1\<close> goes on with a length that is far larger than the buffer, which is undefined.
\<close>

datatype read_result = Bytes string | ReadError

fun pipe_copy :: "read_result list \<Rightarrow> string option" where
  "pipe_copy [] = None"
| "pipe_copy (ReadError # rs) = None"
| "pipe_copy (Bytes w # rs) = (if w = [] then Some [] else map_option ((@) w) (pipe_copy rs))"

text \<open>The results of \<open>read\<close> with a buffer of \<open>n\<close> bytes on a file.\<close>

function reads_of :: "nat \<Rightarrow> string \<Rightarrow> read_result list" where
  "reads_of n w = (if w = [] \<or> n = 0 then [Bytes []] else Bytes (take n w) # reads_of n (drop n w))"
  by pat_completeness auto
termination
  by (relation "measure (\<lambda>(n, w). length w)") auto

declare reads_of.simps [simp del]

text \<open>What a process leaves: its output, its error output and its exit code.\<close>

type_synonym outcome = "string \<times> string \<times> int"

definition pipe_child_a :: "int option \<Rightarrow> read_result list \<Rightarrow> outcome option" where
  "pipe_child_a open_err rs = (case open_err of
     Some e \<Rightarrow> Some ([], [CHR 0x0A] @ ''Error opening file: /proc/meminfo. ERROR#'' @ show_int e @ [CHR 0x0A], 1)
   | None \<Rightarrow> map_option (\<lambda>w. (w, [], 0)) (pipe_copy rs))"

definition pipe_child_b :: outcome where
  "pipe_child_b = ([], [], 0)"

text \<open>The parent, with the \<open>errno\<close> of a call of \<open>waitpid\<close> that fails.\<close>

definition pipe_parent :: "int option \<Rightarrow> int option \<Rightarrow> outcome" where
  "pipe_parent w1 w2 = (case w1 of
     Some e \<Rightarrow> ([], ''Process 1 encountered an error. ERROR'' @ show_int e, 1)
   | None \<Rightarrow> (case w2 of
       Some e \<Rightarrow> ([], ''Process 2 encountered an error. ERROR'' @ show_int e, 1)
     | None \<Rightarrow> ([], [], 0)))"

section \<open>The pipeline of fork.c\<close>

definition forking :: "nat \<Rightarrow> nat \<Rightarrow> forker \<Rightarrow> bool" where
  "forking N n s \<longleftrightarrow> length (slots s) = 2 \<and> (cur s = 0 \<and> other_pipe s = 1 \<or> cur s = 1 \<and> other_pipe s = 0)
     \<and> fk_pipes s = Suc n \<and> (\<exists>r w. slots s ! other_pipe s = (r, w) \<and> apart N [r, w]
     \<and> fk_fds s = (std N (Inherited 0) (Inherited 1))[r := Some (PipeR n), w := Some (PipeW n)])"

text \<open>The child of command \<open>i\<close>, and the children of the first \<open>m\<close> commands.\<close>

definition pipe_kid :: "nat \<Rightarrow> (nat \<Rightarrow> int) \<Rightarrow> nat \<Rightarrow> nat \<Rightarrow> string list \<Rightarrow> kid" where
  "pipe_kid N fr num i c = \<lparr>kid_pid = fr i,
     kid_fds = std N (if i = 0 then Inherited 0 else PipeR i) (if i = num - 1 then Inherited 1 else PipeW (Suc i)),
     kid_act = Execs c\<rparr>"

definition piped_kids :: "nat \<Rightarrow> (nat \<Rightarrow> int) \<Rightarrow> nat \<Rightarrow> string list list \<Rightarrow> nat \<Rightarrow> nat \<Rightarrow> kid list" where
  "piped_kids N fr num cs a m = map (\<lambda>i. pipe_kid N fr num i (cs ! i)) (filter (\<lambda>i. fr i > 0) [a..<m])"

text \<open>The table of the child as its calls change it: two pipes, the two ends it uses, one end, none.\<close>

lemma fork_child_steps:
  assumes "apart N [r, w, c, d]"
  shows "close_fd w (close_fd c (two_pipes N i u n r w c d))
      = (std N i u)[r := Some (PipeR n), d := Some (PipeW (Suc n))]"
    "dup2 r 0 ((std N i u)[r := Some x, d := v]) = (std N x u)[r := Some x, d := v]"
    "close_fd r ((std N i u)[r := z, d := v]) = (std N i u)[d := v]"
    "dup2 d 1 ((std N i u)[d := Some y]) = (std N i y)[d := Some y]"
    "close_fd d ((std N i u)[d := v]) = std N i u"
  using assms by (auto simp: apart_def close_fd_def dup2_def two_pipes_def nth_list_update intro!: nth_equalityI)

lemma fork_child_table:
  assumes "apart N [r, w, c, d]" "fk_fds s = two_pipes N (Inherited 0) (Inherited 1) n r w c d"
    "slots s ! other_pipe s = (r, w)" "slots s ! cur s = (c, d)"
  shows "fork_child num i s = std N (if i = 0 then Inherited 0 else PipeR n)
    (if i = num - 1 then Inherited 1 else PipeW (Suc n))"
  unfolding fork_child_def Let_def assms(2-4) prod.case fork_child_steps(1)[OF assms(1)]
  by (simp add: fork_child_steps(2-)[OF assms(1)] del: One_nat_def)

lemma fork_round_pipe:
  assumes "forking N n s" "7 \<le> N"
  shows "\<exists>t r w c d. pipe_slot (cur s) s = Some t \<and> apart N [r, w, c, d] \<and> length (slots t) = 2
    \<and> slots t ! other_pipe s = (r, w) \<and> slots t ! cur s = (c, d) \<and> cur t = cur s \<and> other_pipe t = other_pipe s
    \<and> fk_fds t = two_pipes N (Inherited 0) (Inherited 1) n r w c d \<and> fk_pipes t = Suc (Suc n)
    \<and> pids t = pids s \<and> kids t = kids s \<and> waits t = waits s"
proof -
  obtain r w where rw: "slots s ! other_pipe s = (r, w)" "apart N [r, w]"
    "fk_fds s = (std N (Inherited 0) (Inherited 1))[r := Some (PipeR n), w := Some (PipeW n)]"
    and s: "length (slots s) = 2" "cur s = 0 \<and> other_pipe s = 1 \<or> cur s = 1 \<and> other_pipe s = 0" "fk_pipes s = Suc n"
    using assms(1) by (auto simp: forking_def)
  obtain c d where cd: "open_pipe (fk_pipes s) (fk_fds s) = Some ((c, d), two_pipes N (Inherited 0) (Inherited 1) n r w c d)"
    "apart N [r, w, c, d]"
    using open_pipe_second[OF assms(2) rw(2), of n "Inherited 0" "Inherited 1"] rw(3) s(3) by auto
  show ?thesis
    using cd rw(1) s by (intro exI[of _ "the (pipe_slot (cur s) s)"] exI[of _ r] exI[of _ w] exI[of _ c] exI[of _ d])
      (auto simp: pipe_slot_def)
qed

lemma fork_round_ok:
  assumes "forking N i s" "7 \<le> N" "i < length (pids s)"
  shows "\<exists>t. fork_round fr num i c s = Some (Inr t) \<and> forking N (Suc i) t \<and> pids t = (pids s)[i := Val (fr i)]
    \<and> kids t = kids s @ (if fr i > 0 then [pipe_kid N fr num i c] else []) \<and> waits t = waits s"
proof -
  obtain t r w e d where t: "pipe_slot (cur s) s = Some t" "apart N [r, w, e, d]" "length (slots t) = 2"
    "slots t ! other_pipe s = (r, w)" "slots t ! cur s = (e, d)" "cur t = cur s" "other_pipe t = other_pipe s"
    "fk_fds t = two_pipes N (Inherited 0) (Inherited 1) i r w e d" "fk_pipes t = Suc (Suc i)"
    "pids t = pids s" "kids t = kids s" "waits t = waits s"
    using fork_round_pipe[OF assms(1,2)] by blast
  have sw: "cur s = 0 \<and> other_pipe s = 1 \<or> cur s = 1 \<and> other_pipe s = 0" using assms(1) by (simp add: forking_def)
  have tab: "fork_child num i (t\<lparr>printed := pr, pids := ps\<rparr>) = kid_fds (pipe_kid N fr num i c)" for pr ps
    using fork_child_table[OF t(2), of "t\<lparr>printed := pr, pids := ps\<rparr>" i num i] t
    by (simp add: pipe_kid_def)
  have ed: "apart N [e, d]" using t(2) by (simp add: apart_def)
  have cl: "close_fd w (close_fd r (two_pipes N (Inherited 0) (Inherited 1) i r w e d))
      = (std N (Inherited 0) (Inherited 1))[e := Some (PipeR (Suc i)), d := Some (PipeW (Suc i))]"
    by (rule two_pipes_close(2)[OF t(2)])
  show ?thesis
    using assms(3) t(3-) sw tab ed cl
    by (auto simp: fork_round_def t(1) Let_def forking_def close_slot_def pipe_kid_def)
qed

lemma fork_round_over:
  assumes "forking N i s" "7 \<le> N" "length (pids s) \<le> i"
  shows "\<exists>t. fork_round fr num i c s = Some (Inl t) \<and> kids t = kids s"
proof -
  obtain t where "pipe_slot (cur s) s = Some t" "pids t = pids s" "kids t = kids s"
    using fork_round_pipe[OF assms(1,2)] by blast
  then show ?thesis using assms(3) by (simp add: fork_round_def Let_def)
qed

lemma piped_kids_Suc: "a < m \<Longrightarrow> piped_kids N fr num cs a m
    = (if fr a > 0 then [pipe_kid N fr num a (cs ! a)] else []) @ piped_kids N fr num cs (Suc a) m"
  by (simp add: piped_kids_def upt_conv_Cons)

lemma fork_loop_ok:
  assumes "forking N i s" "7 \<le> N" "i + length cs \<le> length (pids s)" "drop i all = cs"
  shows "\<exists>t. fork_loop fr num i cs s = Some (Inr t) \<and> forking N (i + length cs) t \<and> waits t = waits s
    \<and> kids t = kids s @ piped_kids N fr num all i (i + length cs) \<and> length (pids t) = length (pids s)
    \<and> (\<forall>j<length (pids s). pids t ! j = (if i \<le> j \<and> j < i + length cs then Val (fr j) else pids s ! j))"
  using assms
proof (induction cs arbitrary: i s)
  case Nil
  then show ?case by (auto simp: piped_kids_def)
next
  case (Cons c cs)
  obtain t where t: "fork_round fr num i c s = Some (Inr t)" "forking N (Suc i) t" "pids t = (pids s)[i := Val (fr i)]"
    "kids t = kids s @ (if fr i > 0 then [pipe_kid N fr num i c] else [])" "waits t = waits s"
    using fork_round_ok[OF Cons.prems(1,2), of fr num c] Cons.prems(3) by auto
  have all: "drop (Suc i) all = cs" "all ! i = c"
    using Cons.prems(4) by (metis drop_Suc tl_drop list.sel(3), metis hd_drop_conv_nth list.sel(1) drop_eq_Nil leI list.distinct(1))
  obtain v where v: "fork_loop fr num (Suc i) cs t = Some (Inr v)" "forking N (Suc i + length cs) v" "waits v = waits t"
    "kids v = kids t @ piped_kids N fr num all (Suc i) (Suc i + length cs)" "length (pids v) = length (pids t)"
    "\<forall>j<length (pids t). pids v ! j = (if Suc i \<le> j \<and> j < Suc i + length cs then Val (fr j) else pids t ! j)"
    using Cons.IH[OF t(2) Cons.prems(2) _ all(1)] Cons.prems(3) t(3) by auto
  show ?case
    using t v all(2) by (intro exI[of _ v]) (auto simp: piped_kids_Suc nth_list_update not_less_eq_eq dest: le_antisym)
qed

lemma fork_loop_over:
  assumes "forking N i s" "7 \<le> N" "i \<le> length (pids s)" "length (pids s) < i + length cs" "drop i all = cs"
  shows "\<exists>t. fork_loop fr num i cs s = Some (Inl t) \<and> kids t = kids s @ piped_kids N fr num all i (length (pids s))"
  using assms
proof (induction cs arbitrary: i s)
  case (Cons c cs)
  have all: "drop (Suc i) all = cs" "all ! i = c"
    using Cons.prems(5) by (metis drop_Suc tl_drop list.sel(3), metis hd_drop_conv_nth list.sel(1) drop_eq_Nil leI list.distinct(1))
  show ?case
  proof (cases "i < length (pids s)")
    case True
    obtain t where t: "fork_round fr num i c s = Some (Inr t)" "forking N (Suc i) t" "pids t = (pids s)[i := Val (fr i)]"
      "kids t = kids s @ (if fr i > 0 then [pipe_kid N fr num i c] else [])"
      using fork_round_ok[OF Cons.prems(1,2) True, of fr num c] by auto
    obtain v where v: "fork_loop fr num (Suc i) cs t = Some (Inl v)"
      "kids v = kids t @ piped_kids N fr num all (Suc i) (length (pids t))"
      using Cons.IH[OF t(2) Cons.prems(2) _ _ all(1)] Cons.prems(4) t(3) True by auto
    show ?thesis
      using t v all(2) True by (intro exI[of _ v]) (auto simp: piped_kids_Suc)
  next
    case False
    then show ?thesis
      using fork_round_over[OF Cons.prems(1,2), of fr num c] Cons.prems(3) by (auto simp: piped_kids_def)
  qed
qed simp

lemma fork_start_ok:
  assumes "7 \<le> N"
  shows "\<exists>s. pipe_slot 1 (fork_start room (std N (Inherited 0) (Inherited 1))) = Some s \<and> forking N 0 s
    \<and> pids s = replicate room Uninit \<and> kids s = [] \<and> waits s = []"
  using open_pipe_first[of N 0 "Inherited 0" "Inherited 1"] assms
  by (auto simp: pipe_slot_def fork_start_def forking_def)

text \<open>
  C38. A run of \<open>fork.c\<close> with any table of commands. With room for every process identifier, each child
  reads the pipe of its predecessor and writes its own, holds no other descriptor than the three
  standard ones, all pipes are closed in the parent at the end, and every child is waited for. With
  less room the program runs out of its array.
\<close>

lemma fork_pipeline:
  assumes "7 \<le> N" "num = length cs"
  shows "(num \<le> room \<longrightarrow> (\<exists>s. fork_prog fr num room cs (std N (Inherited 0) (Inherited 1)) = Some (Inr s)
      \<and> kids s = piped_kids N fr num cs 0 num \<and> fk_fds s = std N (Inherited 0) (Inherited 1)
      \<and> waits s = map fr [0..<num]))
    \<and> (room < num \<longrightarrow> (\<exists>s. fork_prog fr num room cs (std N (Inherited 0) (Inherited 1)) = Some (Inl s)
      \<and> kids s = piped_kids N fr num cs 0 room))"
proof -
  obtain s where s: "pipe_slot 1 (fork_start room (std N (Inherited 0) (Inherited 1))) = Some s" "forking N 0 s"
    "pids s = replicate room Uninit" "kids s = []" "waits s = []"
    using fork_start_ok[OF assms(1)] by blast
  have "\<exists>v. fork_prog fr num room cs (std N (Inherited 0) (Inherited 1)) = Some (Inr v)
      \<and> kids v = piped_kids N fr num cs 0 num \<and> fk_fds v = std N (Inherited 0) (Inherited 1)
      \<and> waits v = map fr [0..<num]" if r: "num \<le> room"
  proof -
    obtain t where t: "fork_loop fr num 0 cs s = Some (Inr t)" "forking N num t" "kids t = piped_kids N fr num cs 0 num"
      "length (pids t) = room" "\<forall>j<num. pids t ! j = Val (fr j)"
      using fork_loop_ok[OF s(2) assms(1), of cs cs fr num] s assms(2) r by auto
    obtain r w where rw: "slots t ! other_pipe t = (r, w)" "apart N [r, w]"
      "fk_fds t = (std N (Inherited 0) (Inherited 1))[r := Some (PipeR num), w := Some (PipeW num)]"
      using t(2) by (auto simp: forking_def)
    have "fk_fds (close_slot (other_pipe t) t) = std N (Inherited 0) (Inherited 1)"
      using rw by (auto simp: close_slot_def close_fd_def apart_def nth_list_update intro!: nth_equalityI)
    moreover have "pids (close_slot (other_pipe t) t) = pids t" "kids (close_slot (other_pipe t) t) = kids t"
      by (simp_all add: close_slot_def)
    ultimately show ?thesis
      using t r by (simp add: fork_prog_def s(1) fork_waits_def del: One_nat_def)
  qed
  moreover have "\<exists>v. fork_prog fr num room cs (std N (Inherited 0) (Inherited 1)) = Some (Inl v)
      \<and> kids v = piped_kids N fr num cs 0 room" if "room < num"
    using fork_loop_over[OF s(2) assms(1), of cs cs fr num] s assms(2) that
    by (auto simp: fork_prog_def simp del: One_nat_def)
  ultimately show ?thesis by blast
qed

lemma fork_pipeline_witness:
  "\<exists>s. fork_main (\<lambda>i. 100 + int i) (std 7 (Inherited 0) (Inherited 1)) = Some (Inl s)
    \<and> map kid_fds (kids s) = [std 7 (Inherited 0) (PipeW 1), std 7 (PipeR 1) (PipeW 2),
        std 7 (PipeR 2) (PipeW 3), std 7 (PipeR 3) (PipeW 4)]"
  using fork_pipeline[of 7 5 fork_cmds 4 "\<lambda>i. 100 + int i"]
  by (auto simp: fork_main_def fork_cmds_def piped_kids_def pipe_kid_def upt_rec[of _ 4] numeral_eq_Suc)

section \<open>The pipeline of finder.c\<close>

text \<open>The table at its lowest descriptors.\<close>

lemma open_pipe_lowest:
  assumes "None \<notin> set xs"
  shows "open_pipe n (xs @ None # None # rest)
    = Some ((length xs, Suc (length xs)), xs @ Some (PipeR n) # Some (PipeW n) # rest)"
proof -
  let ?t = "xs @ None # None # rest"
  have "[0..<length ?t] = [0..<length xs] @ length xs # Suc (length xs) # [Suc (Suc (length xs))..<length ?t]"
    using upt_add_eq_append[of 0 "length xs" "2 + length rest"] by (simp add: upt_conv_Cons del: upt_Suc)
  moreover have "filter (\<lambda>i. ?t ! i = None) [0..<length xs] = []"
    using assms by (auto simp: filter_empty_conv nth_append in_set_conv_nth)
  ultimately have "\<exists>fs. free_fds ?t = length xs # Suc (length xs) # fs"
    by (auto simp: free_fds_def nth_append simp del: upt_Suc)
  then show ?thesis by (auto simp: open_pipe_def list_update_append)
qed

definition std_list :: "channel \<Rightarrow> channel \<Rightarrow> fd_table" where
  "std_list i u = [Some i, Some u, Some (Inherited 2)]"

lemma std_eq: "std (9 + m) i u = std_list i u @ [None, None, None, None, None, None] @ replicate m None"
proof -
  have "std (9 + m) i u = std_list i u @ replicate (6 + m) None"
    by (auto simp: std_list_def nth_append nth_Cons intro!: nth_equalityI split: nat.split)
  also have "replicate (6 + m) None = [None, None, None, None, None, None] @ replicate m (None :: channel option)"
    by (simp add: numeral_eq_Suc)
  finally show ?thesis .
qed

definition finder_table :: "nat \<Rightarrow> fd_table" where
  "finder_table m = std_list (Inherited 0) (Inherited 1)
     @ [Some (PipeR 0), Some (PipeW 0), Some (PipeR 1), Some (PipeW 1), Some (PipeR 2), Some (PipeW 2)] @ replicate m None"

lemma finder_opens:
  "open_pipe 0 (std (9 + m) (Inherited 0) (Inherited 1)) = Some ((3, 4), std_list (Inherited 0) (Inherited 1)
     @ [Some (PipeR 0), Some (PipeW 0), None, None, None, None] @ replicate m None)"
  "open_pipe 1 (std_list (Inherited 0) (Inherited 1)
     @ [Some (PipeR 0), Some (PipeW 0), None, None, None, None] @ replicate m None)
   = Some ((5, 6), std_list (Inherited 0) (Inherited 1)
     @ [Some (PipeR 0), Some (PipeW 0), Some (PipeR 1), Some (PipeW 1), None, None] @ replicate m None)"
  "open_pipe 2 (std_list (Inherited 0) (Inherited 1)
     @ [Some (PipeR 0), Some (PipeW 0), Some (PipeR 1), Some (PipeW 1), None, None] @ replicate m None)
   = Some ((7, 8), finder_table m)"
  using open_pipe_lowest[of "std_list (Inherited 0) (Inherited 1)" 0 "[None, None, None, None] @ replicate m None"]
    open_pipe_lowest[of "std_list (Inherited 0) (Inherited 1) @ [Some (PipeR 0), Some (PipeW 0)]" 1
      "[None, None] @ replicate m None"]
    open_pipe_lowest[of "std_list (Inherited 0) (Inherited 1) @ [Some (PipeR 0), Some (PipeW 0), Some (PipeR 1),
      Some (PipeW 1)]" 2 "replicate m None"]
  by (simp_all add: std_eq std_list_def finder_table_def)

text \<open>What the children of \<open>finder.c\<close> read and write.\<close>

definition finder_ends :: "nat \<Rightarrow> channel \<times> channel" where
  "finder_ends k = (if k = 0 then Inherited 0 else PipeR (k - 1), if k = 3 then Inherited 1 else PipeW k)"

lemma finder_child_table:
  assumes "k < 4"
  shows "finder_child k ((3, 4), (5, 6), (7, 8)) (finder_table m)
    = std (9 + m) (fst (finder_ends k)) (snd (finder_ends k))"
proof -
  have "k = 0 \<or> k = 1 \<or> k = 2 \<or> k = 3" using assms by auto
  then show ?thesis
    by (auto simp: finder_ends_def close_all_def close_fd_def dup2_def finder_table_def std_eq std_list_def nat_literals)
qed

lemma finder_parent_table:
  "close_all [3, 4, 5, 6, 7, 8] (finder_table m) = std (9 + m) (Inherited 0) (Inherited 1)"
  by (simp add: close_all_def close_fd_def finder_table_def std_eq std_list_def nat_literals)

definition finder_kid :: "nat \<Rightarrow> (nat \<Rightarrow> int) \<Rightarrow> kid_act list \<Rightarrow> nat \<Rightarrow> kid" where
  "finder_kid N fr acts k = \<lparr>kid_pid = fr k, kid_fds = std N (fst (finder_ends k)) (snd (finder_ends k)),
     kid_act = acts ! k\<rparr>"

lemma finder_kids_eq:
  assumes "length acts = 4"
  shows "finder_kids fr acts ((3, 4), (5, 6), (7, 8)) (finder_table m)
    = map (finder_kid (9 + m) fr acts) (filter (\<lambda>k. fr k > 0) [0..<4])"
  using assms by (auto simp: finder_kids_def finder_kid_def finder_child_table simp del: finder_child.simps)

lemma finder_wait_same [simp]:
  "fd_kids (finder_wait we ks s) = fd_kids s" "fd_fds (finder_wait we ks s) = fd_fds s"
  "fd_out (finder_wait we ks s) = fd_out s"
  by (induction we ks s rule: finder_wait.induct) (simp_all add: Let_def split: option.split)

lemma finder_wait_all: "\<forall>(k, pid)\<in>set ks. we k = None \<Longrightarrow>
  finder_wait we ks s = s\<lparr>fd_waits := fd_waits s @ map snd ks, fd_exit := 0\<rparr>"
  by (induction we ks s rule: finder_wait.induct) (auto simp: Let_def)

lemma finder_wait_exit: "fd_exit (finder_wait we ks s) = (if \<forall>(k, pid)\<in>set ks. we k = None then 0 else 1)"
  by (induction we ks s rule: finder_wait.induct) (auto simp: Let_def split: option.split)

lemma find_act_room: "find_act dir = (if length dir < 227 then Execs [''/bin/bash'', ''-c'',
    ''/usr/bin/find '' @ dir @ '' -name '' @ [CHR 0x27, CHR ''*'', CHR 0x27] @ ''.[ch]''] else Overflows)"
  by (simp add: find_act_def in_cmdbuf_def)

text \<open>
  C37. The processes of \<open>finder.c\<close> form a row: each reads the pipe of the one before and writes its
  own, the outer ends are those of the program. No process holds another end of a pipe, the parent
  closes all of them and waits for every child, and a child overflows its command buffer exactly
  when its argument is too long.
\<close>

lemma finder_connected:
  assumes "9 \<le> N"
  shows "\<exists>s. finder_main fr we (std N (Inherited 0) (Inherited 1)) [name, dir, str, num] = Some s
    \<and> fd_kids s = map (finder_kid N fr (finder_acts dir str num)) (filter (\<lambda>k. fr k > 0) [0..<4])
    \<and> fd_fds s = std N (Inherited 0) (Inherited 1)
    \<and> fd_exit s = (if \<forall>k<4. we k = None then 0 else 1)
    \<and> (fd_exit s = 0 \<longrightarrow> fd_waits s = map fr [0..<4])
    \<and> (find_act dir = Overflows \<longleftrightarrow> 227 \<le> length dir) \<and> (head_act num = Overflows \<longleftrightarrow> 234 \<le> length num)"
proof -
  obtain m where N: "N = 9 + m" using assms le_Suc_ex by blast
  have all: "(\<forall>(k, pid)\<in>set (map (\<lambda>k. (k, fr k)) [0..<4]). we k = None) \<longleftrightarrow> (\<forall>k<4. we k = None)" by auto
  let ?s = "\<lparr>fd_kids = finder_kids fr (finder_acts dir str num) ((3, 4), (5, 6), (7, 8)) (finder_table m),
     fd_fds = close_all [3, 4, 5, 6, 7, 8] (finder_table m), fd_waits = [], fd_out = [], fd_err = [], fd_exit = 0\<rparr>"
  have "finder_main fr we (std N (Inherited 0) (Inherited 1)) [name, dir, str, num]
      = Some (finder_wait we (map (\<lambda>k. (k, fr k)) [0..<4]) ?s)"
    unfolding finder_main_def N by (simp only: Let_def list.case finder_opens bind.bind_lunit prod.case fst_conv snd_conv) simp
  moreover have "fd_exit (finder_wait we (map (\<lambda>k. (k, fr k)) [0..<4]) ?s) = (if \<forall>k<4. we k = None then 0 else 1)"
    unfolding finder_wait_exit all ..
  moreover have "fd_waits (finder_wait we (map (\<lambda>k. (k, fr k)) [0..<4]) ?s) = map fr [0..<4]" if "\<forall>k<4. we k = None"
    using finder_wait_all[of "map (\<lambda>k. (k, fr k)) [0..<4]" we ?s] that unfolding all by (simp add: comp_def)
  moreover have "length (finder_acts dir str num) = 4" by (simp add: finder_acts_def)
  ultimately show ?thesis
    by (simp add: finder_kids_eq finder_parent_table N find_act_def head_act_def in_cmdbuf_def)
qed

lemma finder_connected_witness:
  "\<exists>s. finder_main (\<lambda>k. 40 + int k) (\<lambda>_. None) (std 9 (Inherited 0) (Inherited 1)) [''finder'', ''src'', ''x'', ''5''] = Some s
    \<and> map kid_fds (fd_kids s) = [std 9 (Inherited 0) (PipeW 0), std 9 (PipeR 0) (PipeW 1),
        std 9 (PipeR 1) (PipeW 2), std 9 (PipeR 2) (Inherited 1)]"
  using finder_connected[of 9 "\<lambda>k. 40 + int k" "\<lambda>_. None" "''finder''" "''src''" "''x''" "''5''"]
  by (auto simp: finder_kid_def finder_ends_def upt_rec[of _ 4] numeral_eq_Suc)

lemma pipe_copy_file: "0 < n \<Longrightarrow> pipe_copy (reads_of n w) = Some w"
proof (induction n w rule: reads_of.induct)
  case (1 n w)
  then show ?case
  proof (cases "w = []")
    case False
    moreover have "take n w \<noteq> []" using False 1(2) by simp
    ultimately show ?thesis using 1 by (subst reads_of.simps) simp
  qed (simp add: reads_of.simps)
qed

text \<open>The first child of \<open>pipe.c\<close> copies its file, and an error of \<open>read\<close> is never noticed.\<close>

lemma pipe_child_a_copies: "pipe_child_a None (reads_of 256 w) = Some (w, [], 0)"
  by (simp add: pipe_child_a_def pipe_copy_file)

lemma pipe_copy_error: "Bytes [] \<notin> set rs \<Longrightarrow> pipe_copy (rs @ ReadError # rs') = None"
  by (induction rs rule: pipe_copy.induct) auto

end
