(* ===== verification/FileCopy.thy ===== *)
theory FileCopy
  imports Prelude
begin

text \<open>
  The two programs of \<open>mmio/\<close> that copy a file: \<open>read_write.c\<close> with a buffer, \<open>memmap.c\<close> by mapping
  both files. A disk maps names to contents; two names are two files. A byte is a cell, since the
  programs may write memory that has no value. The errors of the system calls are parameters, writes
  are complete, and \<^term>\<open>None\<close> is undefined behaviour or a run that does not end.
\<close>

section \<open>State\<close>

type_synonym byte = "8 word"
type_synonym disk = "string \<Rightarrow> byte cell list option"

text \<open>The \<open>errno\<close> of a call that fails.\<close>

record copy_sys =
  open_in :: "string \<Rightarrow> int option"
  open_out :: "string \<Rightarrow> int option"
  stat_err :: "int option"
  seek_err :: int
  write_err :: "int option"
  map_in :: "int option"
  map_out :: "int option"

text \<open>What a run leaves: the disk, the lines it printed, the arguments of \<open>perror\<close>, the exit code.\<close>

record copy_run =
  disk_of :: disk
  said :: "string list"
  complaints :: "string list"
  code :: int

definition contents :: "disk \<Rightarrow> string \<Rightarrow> byte cell list" where
  "contents d f = (case d f of None \<Rightarrow> [] | Some xs \<Rightarrow> xs)"

definition err_quit :: "disk \<Rightarrow> string \<Rightarrow> copy_run option" where
  "err_quit d w = Some \<lparr>disk_of = d, said = [w], complaints = [], code = 1\<rparr>"

text \<open>\<open>sprintf\<close> into a buffer of 256 bytes, \<open>perror\<close>, \<open>exit(errno)\<close>.\<close>

definition fail_with :: "disk \<Rightarrow> int \<Rightarrow> string \<Rightarrow> copy_run option" where
  "fail_with d e w = guard (length w < 256) (Some \<lparr>disk_of = d, said = [], complaints = [w], code = e\<rparr>)"

definition finish :: "disk \<Rightarrow> copy_run option" where
  "finish d = Some \<lparr>disk_of = d, said = [], complaints = [], code = 0\<rparr>"

text \<open>
  Both programs start alike. \<open>open\<close> for reading fails on a file that does not exist; for writing it
  creates the file or empties it.
\<close>

definition open_both :: "copy_sys \<Rightarrow> disk \<Rightarrow> string \<Rightarrow> string \<Rightarrow> (disk \<Rightarrow> copy_run option) \<Rightarrow> copy_run option" where
  "open_both y d src dst k =
     (case open_in y src of
        Some e \<Rightarrow> fail_with d e (''can'' @ [CHR 0x27] @ ''t open '' @ src @ '' for reading'')
      | None \<Rightarrow> (case open_out y dst of
          Some e \<Rightarrow> fail_with d e (''can'' @ [CHR 0x27] @ ''t create '' @ dst @ '' for writing'')
        | None \<Rightarrow> k (d(dst := Some []))))"

section \<open>read\_write.c\<close>

text \<open>
  The loop, with the offset in the input and the buffer. \<open>read\<close> gives the bytes that are left, at
  most \<open>b\<close>; the whole buffer is written.
\<close>

partial_function (option) copy_loop :: "nat \<Rightarrow> string \<Rightarrow> string \<Rightarrow> nat \<Rightarrow> byte cell list \<Rightarrow> disk \<Rightarrow> disk option" where
  "copy_loop b src dst off buf d =
     (let w = take b (drop off (contents d src)) in
      if w = [] then Some d
      else let buf = w @ drop (length w) buf
           in copy_loop b src dst (off + length w) buf (d(dst := Some (contents d dst @ buf))))"

text \<open>
  With a size that is not positive the loop ends at once: \<open>read\<close> of 0 bytes gives 0, and \<open>malloc\<close> of a
  negative size is \<open>NULL\<close>, into which \<open>read\<close> fails.
\<close>

definition read_write :: "copy_sys \<Rightarrow> disk \<Rightarrow> string list \<Rightarrow> copy_run option" where
  "read_write y d argv = (case argv of
     [_, src, dst, bytes] \<Rightarrow> open_both y d src dst (\<lambda>d.
       let bufsz = strtol_int bytes in
       if bufsz \<le> 0 then finish d
       else Option.bind (copy_loop (nat bufsz) src dst 0 (replicate (nat bufsz) Uninit) d) finish)
   | _ \<Rightarrow> err_quit d ''usage: read_write <fromfile> <tofile> <buf_size>'')"

section \<open>memmap.c\<close>

text \<open>The first error of a row of system calls ends the program.\<close>

definition memmap :: "copy_sys \<Rightarrow> disk \<Rightarrow> string list \<Rightarrow> copy_run option" where
  "memmap y d argv = (case argv of
     [_, src, dst] \<Rightarrow> open_both y d src dst (\<lambda>d.
       case stat_err y of Some e \<Rightarrow> fail_with d e ''input file size check failed'' | None \<Rightarrow>
       let n = length (contents d src) in
       if n = 0 then fail_with d (seek_err y) ''move to last byte of output file failed'' else
       case write_err y of Some e \<Rightarrow> fail_with d e ''write of dummy byte failed'' | None \<Rightarrow>
       let d = d(dst := Some (replicate (n - 1) (Val 0) @ [Val 0x20])) in
       case map_in y of Some e \<Rightarrow> fail_with d e ''input file memory map failed'' | None \<Rightarrow>
       case map_out y of Some e \<Rightarrow> fail_with d e ''output file memory map failed'' | None \<Rightarrow>
       finish (d(dst := Some (take n (contents d src) @ drop n (contents d dst)))))
   | _ \<Rightarrow> err_quit d ''usage: memmap <fromfile> <tofile>'')"

section \<open>What the loop writes\<close>

function copy_blocks :: "nat \<Rightarrow> 'a list \<Rightarrow> 'a list \<Rightarrow> 'a list" where
  "copy_blocks b buf xs = (if xs = [] \<or> b = 0 then []
     else let buf = take b xs @ drop (length (take b xs)) buf in buf @ copy_blocks b buf (drop b xs))"
  by pat_completeness auto
termination
  by (relation "measure (\<lambda>(b, buf, xs). length xs)") auto

declare copy_blocks.simps [simp del]

lemma copy_loop_blocks:
  assumes "src \<noteq> dst" "0 < b"
  shows "copy_loop b src dst off buf d
    = Some (if drop off (contents d src) = [] then d
        else d(dst := Some (contents d dst @ copy_blocks b buf (drop off (contents d src)))))"
proof (induction "length (contents d src) - off" arbitrary: off buf d rule: less_induct)
  case less
  let ?w = "take b (drop off (contents d src))"
  show ?case
  proof (cases "drop off (contents d src) = []")
    case True
    then show ?thesis by (subst copy_loop.simps) simp
  next
    case False
    define buf' where "buf' = ?w @ drop (length ?w) buf"
    define d' where "d' = d(dst := Some (contents d dst @ buf'))"
    have w: "?w \<noteq> []" "0 < length ?w" using False assms(2) by auto
    have src: "contents d' src = contents d src" using assms(1) by (simp add: d'_def contents_def)
    have dst: "contents d' dst = contents d dst @ buf'" by (simp add: d'_def contents_def)
    have "copy_loop b src dst off buf d = copy_loop b src dst (off + length ?w) buf' d'"
      using w by (subst copy_loop.simps) (simp add: buf'_def d'_def Let_def)
    also have "\<dots> = Some (if drop (off + length ?w) (contents d src) = [] then d'
        else d'(dst := Some (contents d' dst @ copy_blocks b buf' (drop (off + length ?w) (contents d src)))))"
      unfolding src[symmetric] using False w assms(1)
      by (intro less) (simp add: src)
    finally have "copy_loop b src dst off buf d = \<dots>" .
    moreover have "drop (off + length ?w) (contents d src) = drop b (drop off (contents d src))"
      by (auto simp: min_def add.commute)
    moreover have "copy_blocks b buf (drop off (contents d src))
        = buf' @ copy_blocks b buf' (drop b (drop off (contents d src)))"
      using False assms(2) by (subst copy_blocks.simps) (simp add: buf'_def Let_def)
    moreover have "copy_blocks b buf' [] = []" by (simp add: copy_blocks.simps)
    ultimately show ?thesis using False dst by (auto simp: d'_def)
  qed
qed

text \<open>The file and what the last block adds to it.\<close>

definition padding :: "nat \<Rightarrow> 'a list \<Rightarrow> 'a list \<Rightarrow> 'a list" where
  "padding b buf xs = (let n = length xs in if n mod b = 0 then []
     else if n < b then drop n buf else take (b - n mod b) (drop (n - b) xs))"

lemma copy_blocks_eq:
  assumes "0 < b" "length buf = b"
  shows "copy_blocks b buf xs = xs @ padding b buf xs"
  using assms(2)
proof (induction "length xs" arbitrary: xs buf rule: less_induct)
  case less
  show ?case
  proof (cases "xs = [] \<or> length xs < b")
    case True
    then show ?thesis
      using assms(1) less.prems by (cases "xs = []") (auto simp: copy_blocks.simps padding_def Let_def)
  next
    case False
    then have n: "xs \<noteq> []" "b \<le> length xs" by auto
    let ?r = "drop b xs"
    have "copy_blocks b buf xs = take b xs @ copy_blocks b (take b xs) ?r"
      using n less.prems assms(1) by (subst copy_blocks.simps) (simp add: Let_def)
    also have "copy_blocks b (take b xs) ?r = ?r @ padding b (take b xs) ?r"
      using n assms(1) by (intro less) auto
    also have "padding b (take b xs) ?r = padding b buf xs"
    proof -
      have m: "length ?r mod b = length xs mod b" using n(2) by (simp add: le_mod_geq)
      show ?thesis
      proof (cases "length ?r < b")
        case True
        then have "length xs mod b = length xs - b" using m by simp
        moreover have "drop (length xs - b) (take b xs) = take (b - (length xs - b)) (drop (length xs - b) xs)"
          by (simp add: drop_take)
        ultimately show ?thesis using True n(2) m by (auto simp: padding_def Let_def)
      next
        case False
        then show ?thesis using n(2) m by (auto simp: padding_def Let_def)
      qed
    qed
    finally show ?thesis by simp
  qed
qed

lemma length_padding:
  assumes "0 < b" "length buf = b"
  shows "length (padding b buf xs) = (if length xs mod b = 0 then 0 else b - length xs mod b)"
  using assms by (auto simp: padding_def Let_def)

lemma padding_Nil:
  assumes "0 < b" "length buf = b"
  shows "padding b buf xs = [] \<longleftrightarrow> b dvd length xs"
proof -
  have "length xs mod b < b" using assms(1) by simp
  then have "length (padding b buf xs) = 0 \<longleftrightarrow> length xs mod b = 0"
    unfolding length_padding[OF assms] by simp
  then show ?thesis by (simp add: dvd_eq_mod_eq_0)
qed

section \<open>What the programs do to the disk\<close>

lemma open_both_ok: "open_in y src = None \<Longrightarrow> open_out y dst = None \<Longrightarrow>
    open_both y d src dst k = k (d(dst := Some []))"
  by (simp add: open_both_def)

lemma copy_loop_empty: "contents d src = [] \<Longrightarrow> copy_loop b src dst off buf d = Some d"
  by (subst copy_loop.simps) simp

lemma read_write_disk:
  assumes "open_in y src = None" "open_out y dst = None" "src \<noteq> dst" "d src = Some xs" "strtol_int bytes = int b" "0 < b"
  shows "read_write y d [name, src, dst, bytes]
    = finish (d(dst := Some (xs @ padding b (replicate b Uninit) xs)))"
proof -
  have "contents (d(dst := Some [])) src = xs" "contents (d(dst := Some [])) dst = []"
    using assms(3,4) by (simp_all add: contents_def)
  then show ?thesis
    using assms copy_blocks_eq[of b "replicate b Uninit" xs]
    by (auto simp: read_write_def open_both_ok copy_loop_blocks padding_def)
qed

text \<open>
  C35. \<open>read_write.c\<close> writes whole buffers: the copy is the file followed by what the buffer held behind the
  last bytes it read, the bytes of the block before or, in the first block, memory without a value.
  So the copy is exact if and only if the size of the buffer divides the size of the file. A file
  copied to itself is emptied, and a size that is not a positive number gives an empty copy.
\<close>

lemma read_write_pads:
  assumes "open_in y src = None" "open_out y dst = None" "d src = Some xs"
  shows "(src \<noteq> dst \<longrightarrow> 0 < strtol_int bytes \<longrightarrow> (let b = nat (strtol_int bytes); m = length xs mod b;
      pad = (if m = 0 then [] else if length xs < b then replicate (b - m) Uninit
             else take (b - m) (drop (length xs - b) xs)) in
      read_write y d [name, src, dst, bytes] = finish (d(dst := Some (xs @ pad)))
      \<and> b dvd length (xs @ pad) \<and> (pad = [] \<longleftrightarrow> b dvd length xs)))
    \<and> (src = dst \<or> strtol_int bytes \<le> 0 \<longrightarrow> read_write y d [name, src, dst, bytes] = finish (d(dst := Some [])))"
proof -
  have "(let b = nat (strtol_int bytes); m = length xs mod b;
      pad = (if m = 0 then [] else if length xs < b then replicate (b - m) Uninit
             else take (b - m) (drop (length xs - b) xs)) in
      read_write y d [name, src, dst, bytes] = finish (d(dst := Some (xs @ pad)))
      \<and> b dvd length (xs @ pad) \<and> (pad = [] \<longleftrightarrow> b dvd length xs))"
    if ne: "src \<noteq> dst" and pos: "0 < strtol_int bytes"
  proof -
    define b where "b = nat (strtol_int bytes)"
    define pad where "pad = padding b (replicate b Uninit) xs"
    have b: "0 < b" "strtol_int bytes = int b" using pos by (simp_all add: b_def)
    have padeq: "pad = (if length xs mod b = 0 then [] else if length xs < b then replicate (b - length xs mod b) Uninit
             else take (b - length xs mod b) (drop (length xs - b) xs))"
      by (simp add: pad_def padding_def Let_def)
    have dvd: "b dvd length (xs @ pad)"
    proof (cases "length xs mod b = 0")
      case False
      have "length xs mod b < b" using b(1) by simp
      then have "length (xs @ pad) = length xs - length xs mod b + b"
        unfolding pad_def using length_padding[of b "replicate b Uninit" xs] b(1) False by simp
      also have "\<dots> = b * (length xs div b) + b" by (simp only: minus_mod_eq_mult_div)
      finally show ?thesis by (simp del: length_append)
    qed (simp add: pad_def padding_def Let_def dvd_eq_mod_eq_0)
    have exact: "pad = [] \<longleftrightarrow> b dvd length xs" unfolding pad_def by (rule padding_Nil[OF b(1)]) simp
    have run: "read_write y d [name, src, dst, bytes] = finish (d(dst := Some (xs @ pad)))"
      unfolding pad_def using read_write_disk[of y src dst d xs bytes b name] assms ne b by blast
    show ?thesis unfolding b_def[symmetric] Let_def padeq[symmetric] by (intro conjI run dvd exact)
  qed
  moreover have "read_write y d [name, src, dst, bytes] = finish (d(dst := Some []))"
    if "src = dst \<or> strtol_int bytes \<le> 0"
    using that assms by (auto simp: read_write_def open_both_ok contents_def copy_loop_empty Let_def)
  ultimately show ?thesis by blast
qed

lemma read_write_pads_witness:
  "read_write \<lparr>open_in = \<lambda>_. None, open_out = \<lambda>_. None, stat_err = None, seek_err = 22, write_err = None,
     map_in = None, map_out = None\<rparr> [''a'' \<mapsto> map Val [1, 2, 3, 4, 5]] [''read_write'', ''a'', ''b'', ''3'']
   = finish [''a'' \<mapsto> map Val [1, 2, 3, 4, 5], ''b'' \<mapsto> map Val [1, 2, 3, 4, 5, 3]]"
proof -
  have "strtol_int ''3'' = 3" by code_simp
  then show ?thesis
    using read_write_pads[of "\<lparr>open_in = \<lambda>_. None, open_out = \<lambda>_. None, stat_err = None, seek_err = 22, write_err = None,
      map_in = None, map_out = None\<rparr>" "''a''" "''b''" "[''a'' \<mapsto> map Val [1, 2, 3, 4, 5]]" "map Val [1, 2, 3, 4, 5]"
      "''3''" "''read_write''"]
    by (simp add: Let_def)
qed

text \<open>
  C36. \<open>memmap.c\<close> makes an exact copy of a file that is not empty, which \<open>read_write.c\<close> does when the size
  of its buffer fits. It fails on an empty file, and on a copy to the file itself, which is lost.
\<close>

lemma memmap_copies:
  assumes "open_in y src = None" "open_out y dst = None" "d src = Some xs"
    "stat_err y = None" "write_err y = None" "map_in y = None" "map_out y = None"
  shows "(src \<noteq> dst \<and> xs \<noteq> [] \<longrightarrow> memmap y d [name, src, dst] = finish (d(dst := Some xs))
      \<and> (0 < strtol_int bytes \<longrightarrow>
          (memmap y d [name, src, dst] = read_write y d [name, src, dst, bytes] \<longleftrightarrow> strtol_int bytes dvd int (length xs))))
    \<and> (src = dst \<or> xs = [] \<longrightarrow> memmap y d [name, src, dst]
        = fail_with (d(dst := Some [])) (seek_err y) ''move to last byte of output file failed'')"
proof -
  have m: "memmap y d [name, src, dst] = finish (d(dst := Some xs))" if "src \<noteq> dst" "xs \<noteq> []"
  proof -
    have "contents (d(dst := Some [])) src = xs" "\<And>z. contents (d(dst := Some z)) src = xs"
      "\<And>e z. contents (e(dst := Some z)) dst = z"
      using that(1) assms(3) by (simp_all add: contents_def)
    moreover have "drop (length xs) (replicate (length xs - 1) (Val 0) @ [Val 0x20]) = []"
      using that(2) by (cases xs) auto
    ultimately show ?thesis using assms that by (simp add: memmap_def open_both_ok Let_def del: drop_append)
  qed
  have r: "memmap y d [name, src, dst] = read_write y d [name, src, dst, bytes] \<longleftrightarrow> strtol_int bytes dvd int (length xs)"
    if "src \<noteq> dst" "xs \<noteq> []" and pos: "0 < strtol_int bytes"
  proof -
    obtain b where b: "strtol_int bytes = int b" "0 < b" using pos by (metis nat_eq_iff nat_less_iff zero_less_nat_eq zero_less_imp_eq_int)
    have "finish (d(dst := Some xs)) = finish (d(dst := Some (xs @ z))) \<longleftrightarrow> z = []" for z
    proof
      assume "finish (d(dst := Some xs)) = finish (d(dst := Some (xs @ z)))"
      then have "(d(dst := Some xs)) dst = (d(dst := Some (xs @ z))) dst" unfolding finish_def by simp
      then show "z = []" by simp
    qed simp
    then show ?thesis
      using padding_Nil[OF b(2), of "replicate b Uninit" xs]
        read_write_disk[of y src dst d xs bytes b name] assms(1-3) that(1) b
      unfolding m[OF that(1,2)] by simp
  qed
  have "memmap y d [name, src, dst] = fail_with (d(dst := Some [])) (seek_err y) ''move to last byte of output file failed''"
    if "src = dst \<or> xs = []"
    using that assms by (auto simp: memmap_def open_both_ok contents_def Let_def)
  then show ?thesis using m r by blast
qed

lemma memmap_copies_witness:
  "memmap \<lparr>open_in = \<lambda>_. None, open_out = \<lambda>_. None, stat_err = None, seek_err = 22, write_err = None,
     map_in = None, map_out = None\<rparr> [''a'' \<mapsto> map Val [1, 2, 3]] [''memmap'', ''a'', ''b'']
   = finish [''a'' \<mapsto> map Val [1, 2, 3], ''b'' \<mapsto> map Val [1, 2, 3]]"
  using memmap_copies[of "\<lparr>open_in = \<lambda>_. None, open_out = \<lambda>_. None, stat_err = None, seek_err = 22, write_err = None,
      map_in = None, map_out = None\<rparr>" "''a''" "''b''" "[''a'' \<mapsto> map Val [1, 2, 3]]" "map Val [1, 2, 3]" "''memmap''" "''1''"]
  by simp

end
