(* ===== verification/Signals.thy ===== *)
theory Signals
  imports Transition
begin

text \<open>
  The signal handlers of \<open>signals/signals.c\<close>. A signal is raised by the terminal or the timer and
  delivered when it is not blocked: the masks let only \<open>SIGALRM\<close> through while \<open>catch_int\<close> runs. A
  signal raised twice before it is delivered is delivered once. The flags of the handlers, which the
  program leaves unset, are taken to be 0.
\<close>

section \<open>State and events\<close>

datatype signal = SigInt | SigTstp

text \<open>
  Where the program is: in \<open>pause\<close>, in \<open>catch_int\<close> before and after \<open>fgets\<close>, at the end, or in undefined
  behaviour, after \<open>fgets\<close> has set nothing.
\<close>

datatype spot = Pausing | Asking | Answered string | Ended | Wild

record sigstate =
  ctrl_c_count :: int
  alarm_on :: bool
  pending :: "signal \<Rightarrow> bool"
  spot :: spot
  shown :: "string list"

datatype event = Raise signal | Deliver signal | Ring | Line "string option" | Resume

definition CTRL_C_THRESHOLD :: int where
  "CTRL_C_THRESHOLD = 5"

definition display :: "string \<Rightarrow> sigstate \<Rightarrow> sigstate" where
  "display w s = s\<lparr>shown := shown s @ [w]\<rparr>"

abbreviation lf :: string where
  "lf \<equiv> [CHR 0x0A]"

section \<open>The handlers\<close>

definition catch_alrm :: "sigstate \<Rightarrow> sigstate" where
  "catch_alrm s = (display (lf @ ''User taking too long to respond. Exiting...'' @ lf) s)\<lparr>spot := Ended\<rparr>"

text \<open>\<open>catch_int\<close> up to \<open>fgets\<close>, and after it.\<close>

definition catch_int :: "sigstate \<Rightarrow> sigstate" where
  "catch_int s = (let s = s\<lparr>ctrl_c_count := ctrl_c_count s + 1\<rparr> in
     if ctrl_c_count s \<ge> CTRL_C_THRESHOLD
     then (display (lf @ ''Really exit? [Y/n]: '') s)\<lparr>alarm_on := True, spot := Asking\<rparr> else s)"

definition declined :: "string \<Rightarrow> bool" where
  "declined answer \<longleftrightarrow> answer \<noteq> [] \<and> (hd answer = CHR ''n'' \<or> hd answer = CHR ''N'')"

definition catch_int_rest :: "string \<Rightarrow> sigstate \<Rightarrow> sigstate" where
  "catch_int_rest answer s = (if declined answer
     then (display (lf @ ''Continuing'' @ lf) (s\<lparr>alarm_on := False\<rparr>))\<lparr>ctrl_c_count := 0, spot := Pausing\<rparr>
     else (display (lf @ ''Exiting...'' @ lf) s)\<lparr>spot := Ended\<rparr>)"

definition count_line :: "int \<Rightarrow> string" where
  "count_line n = lf @ lf @ ''So far, '' @ [CHR 0x27] @ show_int n @ [CHR 0x27] @ '' Ctrl-C presses were counted'' @ lf @ lf"

definition catch_tstp :: "sigstate \<Rightarrow> sigstate" where
  "catch_tstp s = display (count_line (ctrl_c_count s)) s"

definition handler :: "signal \<Rightarrow> sigstate \<Rightarrow> sigstate" where
  "handler g = (case g of SigInt \<Rightarrow> catch_int | SigTstp \<Rightarrow> catch_tstp)"

section \<open>The program\<close>

text \<open>One event; \<^term>\<open>None\<close> when it cannot happen.\<close>

definition happens :: "event \<Rightarrow> sigstate \<Rightarrow> sigstate option" where
  "happens e s = (case e of
     Raise g \<Rightarrow> guard (spot s \<noteq> Ended \<and> spot s \<noteq> Wild) (Some (s\<lparr>pending := (pending s)(g := True)\<rparr>))
   | Deliver g \<Rightarrow> guard (spot s = Pausing \<and> pending s g) (Some (handler g (s\<lparr>pending := (pending s)(g := False)\<rparr>)))
   | Ring \<Rightarrow> guard (alarm_on s \<and> spot s \<noteq> Ended \<and> spot s \<noteq> Wild) (Some (catch_alrm s))
   | Line l \<Rightarrow> guard (spot s = Asking) (Some (s\<lparr>spot := (case l of None \<Rightarrow> Wild | Some w \<Rightarrow> Answered w)\<rparr>))
   | Resume \<Rightarrow> (case spot s of Answered w \<Rightarrow> Some (catch_int_rest w s) | _ \<Rightarrow> None))"

definition sig_start :: sigstate where
  "sig_start = \<lparr>ctrl_c_count = 0, alarm_on = False, pending = \<lambda>_. False, spot = Pausing, shown = []\<rparr>"

fun history :: "event list \<Rightarrow> sigstate option" where
  "history [] = Some sig_start"
| "history (e # es) = Option.bind (history es) (happens e)"

section \<open>What the user sees\<close>

text \<open>The latest event comes first: how often Ctrl-C was handled since the last answer that declined.\<close>

fun presses :: "event list \<Rightarrow> nat" where
  "presses [] = 0"
| "presses (Deliver SigInt # es) = Suc (presses es)"
| "presses (Resume # es) = 0"
| "presses (e # es) = presses es"

text \<open>The answer read last.\<close>

fun reply :: "event list \<Rightarrow> string option" where
  "reply [] = None"
| "reply (Line l # es) = l"
| "reply (e # es) = reply es"

text \<open>
  The count is exact. While the program waits in \<open>pause\<close> the count is below the threshold and no alarm is
  set; a question is open with exactly five presses and the alarm set. The program ends only with five
  presses, by the alarm or by an answer that does not start with n or N.
\<close>

definition sig_inv :: "event list \<Rightarrow> sigstate \<Rightarrow> bool" where
  "sig_inv es s \<longleftrightarrow> (case spot s of
     Pausing \<Rightarrow> ctrl_c_count s = int (presses es) \<and> presses es < 5 \<and> \<not> alarm_on s
   | Asking \<Rightarrow> ctrl_c_count s = 5 \<and> presses es = 5 \<and> alarm_on s
   | Answered w \<Rightarrow> ctrl_c_count s = 5 \<and> presses es = 5 \<and> alarm_on s \<and> reply es = Some w
   | Ended \<Rightarrow> (\<exists>fs. presses fs = 5 \<and> (es = Ring # fs \<or> es = Resume # fs \<and> (\<exists>w. reply fs = Some w \<and> \<not> declined w)))
   | Wild \<Rightarrow> presses es = 5 \<and> reply es = None)"

lemmas sig_defs = happens_def handler_def catch_int_def catch_int_rest_def catch_tstp_def catch_alrm_def display_def
  CTRL_C_THRESHOLD_def

lemma happens_inv:
  assumes "sig_inv es s" "happens e s = Some t"
  shows "sig_inv (e # es) t"
proof (cases e)
  case (Deliver g)
  then show ?thesis
    using assms by (cases g) (auto simp: sig_inv_def sig_defs Let_def split: if_splits spot.splits)
qed (use assms in \<open>auto simp: sig_inv_def sig_defs Let_def split: if_splits spot.splits option.splits\<close>)

lemma history_inv: "history es = Some s \<Longrightarrow> sig_inv es s"
proof (induction es arbitrary: s)
  case (Cons e es)
  then show ?case by (auto simp: bind_eq_Some_conv intro: happens_inv)
qed (simp add: sig_inv_def sig_start_def)



end
