(* ===== verification/Sockets.thy ===== *)
theory Sockets
  imports Prelude
begin

text \<open>
  The socket example (\<open>sockets/server.c\<close>, \<open>sockets/client.c\<close>): the server answers every message in
  capital letters, the client sends three strings. The socket is a parameter: the results of the calls of
  \<open>read\<close>. \<^term>\<open>None\<close> is undefined behaviour: bytes outside an array, bytes without a value, and
  \<open>toupper\<close> of a negative \<open>char\<close>.
\<close>

definition BSIZE :: nat where
  "BSIZE = 256"

section \<open>The server\<close>

definition toupper :: "char \<Rightarrow> char option" where
  "toupper c = (let n = of_char c :: nat in
     if n = 255 then Some c else if 128 \<le> n then None
     else if 97 \<le> n \<and> n \<le> 122 then Some (char_of (n - 32)) else Some c)"

text \<open>A string at the start of an array, up to its end mark.\<close>

fun c_string :: "char cell list \<Rightarrow> string option" where
  "c_string [] = None"
| "c_string (Uninit # cs) = None"
| "c_string (Val c # cs) = (if c = CHR 0x00 then Some [] else map_option ((#) c) (c_string cs))"

fun convert_string :: "char cell list \<Rightarrow> char cell list option" where
  "convert_string [] = None"
| "convert_string (Uninit # cs) = None"
| "convert_string (Val c # cs) = (if c = CHR 0x00 then Some (Val c # cs)
     else Option.bind (toupper c) (\<lambda>u. map_option ((#) (Val u)) (convert_string cs)))"

text \<open>The loop over the results of \<open>read\<close> until one is empty; what is written to the socket and printed.\<close>

fun serve :: "string list \<Rightarrow> char cell list \<Rightarrow> (char cell list list \<times> string list) option" where
  "serve [] buf = Some ([], [])"
| "serve (w # ws) buf = (if w = [] then Some ([], []) else
     let buf = map Val w @ drop (length w) buf in
     Option.bind (c_string buf) (\<lambda>received. Option.bind (convert_string buf) (\<lambda>buf.
     Option.bind (c_string buf) (\<lambda>sending.
     map_option (\<lambda>(sent, said). (buf # sent, (''RECEIVED:'' @ [CHR 0x0A] @ received)
         # (''SENDING:'' @ [CHR 0x0A] @ sending @ [CHR 0x0A]) # said)) (serve ws buf)))))"

definition server_loop :: "string list \<Rightarrow> (char cell list list \<times> string list) option" where
  "server_loop ws = serve ws (replicate BSIZE Uninit)"

section \<open>The client\<close>

definition strs :: "string list" where
  "strs = [''this is the first string from the client'' @ [CHR 0x0A],
     ''this is the second string from the client'' @ [CHR 0x0A],
     ''this is the third string from the client'' @ [CHR 0x0A]]"

text \<open>\<open>write(sockfd, strs[i], BSIZE)\<close>: the bytes of the string literal, whose end mark is its last one.\<close>

definition send_string :: "string \<Rightarrow> string option" where
  "send_string w = guard (BSIZE \<le> length w + 1) (Some (take BSIZE (w @ [CHR 0x00])))"

text \<open>The loop, with the results of \<open>read\<close>.\<close>

fun client_loop :: "string list \<Rightarrow> string list \<Rightarrow> char cell list \<Rightarrow> (string list \<times> string list) option" where
  "client_loop [] rs buf = Some ([], [])"
| "client_loop (w # ws) rs buf = Option.bind (send_string w) (\<lambda>b.
     let r = (case rs of [] \<Rightarrow> [] | r # _ \<Rightarrow> r); buf = map Val r @ drop (length r) buf in
     Option.bind (c_string buf) (\<lambda>received.
     map_option (\<lambda>(sent, said). (b # sent, (''SENDING:'' @ [CHR 0x0A] @ w)
         # (''RECEIVED:'' @ [CHR 0x0A] @ received @ [CHR 0x0A]) # said)) (client_loop ws (tl rs) buf)))"

definition client_main :: "string list \<Rightarrow> (string list \<times> string list) option" where
  "client_main rs = client_loop strs rs (replicate BSIZE Uninit)"

lemma client_overruns: "client_main rs = None"
  by (simp add: client_main_def strs_def send_string_def BSIZE_def)

section \<open>What the server answers\<close>

text \<open>A message in 7-bit characters with an end mark.\<close>

definition message :: "string \<Rightarrow> bool" where
  "message w \<longleftrightarrow> length w \<le> BSIZE \<and> CHR 0x00 \<in> set w \<and> (\<forall>c\<in>set w. (of_char c :: nat) < 128)"

definition text_of :: "string \<Rightarrow> string" where
  "text_of w = takeWhile (\<lambda>c. c \<noteq> CHR 0x00) w"

definition capital :: "char \<Rightarrow> char" where
  "capital c = (if 97 \<le> (of_char c :: nat) \<and> (of_char c :: nat) \<le> 122 then char_of ((of_char c :: nat) - 32) else c)"

definition capitals :: "string \<Rightarrow> string" where
  "capitals w = map capital (text_of w) @ drop (length (text_of w)) w"

lemma toupper_capital: "(of_char c :: nat) < 128 \<Longrightarrow> toupper c = Some (capital c)"
  by (simp add: toupper_def capital_def Let_def)

lemma capital_not_mark: "c \<noteq> CHR 0x00 \<Longrightarrow> capital c \<noteq> CHR 0x00"
  by (auto simp: capital_def dest!: arg_cong[where f = "of_char :: char \<Rightarrow> nat"])

lemma c_string_text: "CHR 0x00 \<in> set w \<Longrightarrow> c_string (map Val w @ r) = Some (text_of w)"
  by (induction w) (auto simp: text_of_def)

lemma convert_string_message:
  "CHR 0x00 \<in> set w \<Longrightarrow> \<forall>c\<in>set w. (of_char c :: nat) < 128 \<Longrightarrow>
    convert_string (map Val w @ r) = Some (map Val (capitals w) @ r)"
  by (induction w) (auto simp: capitals_def text_of_def toupper_capital)

lemma length_capitals [simp]: "length (capitals w) = length w"
proof -
  have "length (text_of w) \<le> length w" by (simp add: text_of_def length_takeWhile_le)
  then show ?thesis by (simp add: capitals_def)
qed

lemma capitals_mark: "CHR 0x00 \<in> set w \<Longrightarrow> CHR 0x00 \<in> set (capitals w) \<and> text_of (capitals w) = map capital (text_of w)"
  by (induction w) (auto simp: capitals_def text_of_def dest: capital_not_mark)

text \<open>
  The server answers every message with its text in capital letters, and pads the answer to 256 bytes
  with what the buffer held before: the rest of earlier messages, or bytes without a value.
\<close>

lemma serve_messages:
  assumes "\<forall>w\<in>set ws. message w" "length buf = BSIZE"
  shows "\<exists>sent said. serve ws buf = Some (sent, said) \<and> length sent = length ws \<and> (\<forall>i<length ws.
      length (sent ! i) = BSIZE \<and> take (length (ws ! i)) (sent ! i) = map Val (capitals (ws ! i))
      \<and> drop (length (ws ! i)) (sent ! i) = drop (length (ws ! i)) (if i = 0 then buf else sent ! (i - 1)))
    \<and> said = concat (map (\<lambda>w. [''RECEIVED:'' @ [CHR 0x0A] @ text_of w,
        ''SENDING:'' @ [CHR 0x0A] @ map capital (text_of w) @ [CHR 0x0A]]) ws)"
  using assms
proof (induction ws arbitrary: buf)
  case (Cons w ws)
  let ?b = "map Val (capitals w) @ drop (length w) buf"
  have w: "w \<noteq> []" "length w \<le> BSIZE" "CHR 0x00 \<in> set w" "\<forall>c\<in>set w. (of_char c :: nat) < 128"
    using Cons.prems(1) by (auto simp: message_def)
  have ws: "\<forall>w\<in>set ws. message w" using Cons.prems(1) by simp
  have len: "length ?b = BSIZE" using w(2) Cons.prems(2) by simp
  obtain sent said where s: "serve ws ?b = Some (sent, said)" "length sent = length ws"
    "\<forall>i<length ws. length (sent ! i) = BSIZE \<and> take (length (ws ! i)) (sent ! i) = map Val (capitals (ws ! i))
      \<and> drop (length (ws ! i)) (sent ! i) = drop (length (ws ! i)) (if i = 0 then ?b else sent ! (i - 1))"
    "said = concat (map (\<lambda>w. [''RECEIVED:'' @ [CHR 0x0A] @ text_of w,
        ''SENDING:'' @ [CHR 0x0A] @ map capital (text_of w) @ [CHR 0x0A]]) ws)"
    using Cons.IH[OF ws len] by blast
  have "serve (w # ws) buf = Some (?b # sent, (''RECEIVED:'' @ [CHR 0x0A] @ text_of w)
      # (''SENDING:'' @ [CHR 0x0A] @ map capital (text_of w) @ [CHR 0x0A]) # said)"
    using w capitals_mark[OF w(3)] by (simp add: Let_def c_string_text convert_string_message s(1))
  moreover have "length ((?b # sent) ! i) = BSIZE \<and> take (length ((w # ws) ! i)) ((?b # sent) ! i) = map Val (capitals ((w # ws) ! i))
      \<and> drop (length ((w # ws) ! i)) ((?b # sent) ! i)
        = drop (length ((w # ws) ! i)) (if i = 0 then buf else (?b # sent) ! (i - 1))" if "i < length (w # ws)" for i
  proof (cases i)
    case 0
    then show ?thesis using len by simp
  next
    case (Suc j)
    then have "j < length ws" using that by simp
    then show ?thesis using s(3) Suc by (cases j) auto
  qed
  ultimately show ?case using s(2,4) by auto
qed simp

lemma server_answers:
  assumes "\<forall>w\<in>set ws. message w"
  shows "\<exists>sent said. server_loop ws = Some (sent, said) \<and> length sent = length ws \<and> (\<forall>i<length ws.
      length (sent ! i) = 256 \<and> take (length (ws ! i)) (sent ! i) = map Val (capitals (ws ! i))
      \<and> drop (length (ws ! i)) (sent ! i)
        = drop (length (ws ! i)) (if i = 0 then replicate 256 Uninit else sent ! (i - 1)))
    \<and> client_main replies = None"
  using serve_messages[OF assms, of "replicate BSIZE Uninit"] client_overruns[of replies]
  by (auto simp: server_loop_def BSIZE_def)

lemma server_answers_witness:
  "\<exists>sent said. server_loop [''hi'' @ [CHR 0x00]] = Some (sent, said)
    \<and> take 3 (sent ! 0) = map Val (''HI'' @ [CHR 0x00]) \<and> sent ! 0 ! 3 = Uninit"
proof -
  have "\<forall>w\<in>set [''hi'' @ [CHR 0x00]]. message w" "capitals (''hi'' @ [CHR 0x00]) = ''HI'' @ [CHR 0x00]"
    by code_simp+
  from server_answers[OF this(1), of "[]"] this(2) obtain sent said where
    s: "server_loop [''hi'' @ [CHR 0x00]] = Some (sent, said)" "length (sent ! 0) = 256"
    "take 3 (sent ! 0) = map Val (''HI'' @ [CHR 0x00])" "drop 3 (sent ! 0) = drop 3 (replicate 256 Uninit)"
    by (auto simp: numeral_3_eq_3)
  have "sent ! 0 ! 3 = drop 3 (sent ! 0) ! 0" using s(2) by simp
  also have "\<dots> = Uninit" unfolding s(4) by simp
  finally show ?thesis using s(1,3) by blast
qed

end
