(* ===== verification/ThreadCount.thy ===== *)
theory ThreadCount
  imports Transition
begin

text \<open>
  The threads introduction (\<open>eecs678-pthreads_intro-lab/\<close>): three threads add to one global counter,
  under a mutex in \<open>ptcount_mutex.c\<close>, by an atomic built-in in \<open>ptcount_atomic.c\<close>. The programs differ
  in that statement only, so they share the model. The assignment to \<open>count\<close> under the mutex is a
  read and a write. A signed overflow sets the flag \<open>ub\<close>; the atomic addition wraps around instead.
  The calls that create threads are assumed to succeed.
\<close>

section \<open>State\<close>

record thread_args =
  tid :: nat
  inc :: int
  loop :: int

datatype place = Head | AtLock | AtRead | AtWrite | AtUnlock | AtAdd | AtLocal | Exited

record thread =
  args :: thread_args
  place :: place
  idx :: nat
  loc :: int
  reg :: int

datatype main_place = Creating nat | Joining nat | Finished

record ptstate =
  count :: int
  count_mutex :: "nat option"
  threads :: "thread list"
  main_at :: main_place
  lines :: "string list"
  ub :: bool

datatype variant = Mutex | Atomic

definition NUM_THREADS :: nat where
  "NUM_THREADS = 3"

definition wrap :: "int \<Rightarrow> int" where
  "wrap x = sint (of_int x :: 32 word)"

section \<open>The threads\<close>

definition thread_line :: "nat \<Rightarrow> int \<Rightarrow> string" where
  "thread_line k x = ''Thread: '' @ show_nat k @ '' finished. Counted: '' @ show_int x @ [CHR 0x0A]"

definition put :: "nat \<Rightarrow> thread \<Rightarrow> ptstate \<Rightarrow> ptstate" where
  "put k h s = s\<lparr>threads := (threads s)[k := h]\<rparr>"

text \<open>One statement of \<open>inc_count\<close> in thread \<open>k\<close>; \<^term>\<open>None\<close> when it has to wait or has ended.\<close>

definition inc_count :: "variant \<Rightarrow> nat \<Rightarrow> ptstate \<Rightarrow> ptstate option" where
  "inc_count v k s = (let h = threads s ! k; a = args h in case place h of
     Head \<Rightarrow> Some (if int (idx h) < loop a
       then put k (h\<lparr>place := (case v of Mutex \<Rightarrow> AtLock | Atomic \<Rightarrow> AtAdd)\<rparr>) s
       else put k (h\<lparr>place := Exited\<rparr>) (s\<lparr>lines := lines s @ [thread_line (tid a) (loc h)]\<rparr>))
   | AtLock \<Rightarrow> (if count_mutex s = None
       then Some (put k (h\<lparr>place := AtRead\<rparr>) (s\<lparr>count_mutex := Some k\<rparr>)) else None)
   | AtRead \<Rightarrow> Some (put k (h\<lparr>place := AtWrite, reg := count s\<rparr>) s)
   | AtWrite \<Rightarrow> Some (put k (h\<lparr>place := AtUnlock\<rparr>)
       (s\<lparr>count := reg h + inc a, ub := (ub s \<or> \<not> int_range (reg h + inc a))\<rparr>))
   | AtUnlock \<Rightarrow> Some (put k (h\<lparr>place := AtLocal\<rparr>) (s\<lparr>count_mutex := None\<rparr>))
   | AtAdd \<Rightarrow> Some (put k (h\<lparr>place := AtLocal\<rparr>) (s\<lparr>count := wrap (count s + inc a)\<rparr>))
   | AtLocal \<Rightarrow> Some (put k (h\<lparr>place := Head, loc := loc h + inc a, idx := Suc (idx h)\<rparr>)
       (s\<lparr>ub := (ub s \<or> \<not> int_range (loc h + inc a))\<rparr>))
   | Exited \<Rightarrow> None)"

section \<open>The main thread\<close>

definition main_line :: "int \<Rightarrow> string" where
  "main_line c = ''Main(): Waited on '' @ show_nat NUM_THREADS @ '' threads. Final value of count = ''
     @ show_int c @ ''. Done.'' @ [CHR 0x0A]"

definition new_thread :: "nat \<Rightarrow> int \<Rightarrow> int \<Rightarrow> thread" where
  "new_thread k l d = \<lparr>args = \<lparr>tid = k, inc = d, loop = l\<rparr>, place = Head, idx = 0, loc = 0, reg = 0\<rparr>"

definition main_next :: "int \<Rightarrow> int \<Rightarrow> ptstate \<Rightarrow> ptstate option" where
  "main_next l d s = (case main_at s of
     Creating k \<Rightarrow> Some (if k < NUM_THREADS
       then s\<lparr>threads := threads s @ [new_thread k l d], main_at := Creating (Suc k)\<rparr>
       else s\<lparr>main_at := Joining 0\<rparr>)
   | Joining k \<Rightarrow> (if k < NUM_THREADS
       then (if place (threads s ! k) = Exited then Some (s\<lparr>main_at := Joining (Suc k)\<rparr>) else None)
       else Some (s\<lparr>lines := lines s @ [main_line (count s)], main_at := Finished\<rparr>))
   | Finished \<Rightarrow> None)"

definition pt_start :: ptstate where
  "pt_start = \<lparr>count = 0, count_mutex = None, threads = [], main_at = Creating 0, lines = [], ub = False\<rparr>"

inductive pt_step :: "variant \<Rightarrow> int \<Rightarrow> int \<Rightarrow> ptstate \<Rightarrow> ptstate \<Rightarrow> bool" for v l d where
  thread: "k < length (threads s) \<Longrightarrow> inc_count v k s = Some t \<Longrightarrow> pt_step v l d s t"
| main: "main_next l d s = Some t \<Longrightarrow> pt_step v l d s t"

text \<open>
  \<open>main\<close> up to the loop that creates the threads: the usage message, or the loop bound and the
  increment with which \<open>pt_step\<close> starts from \<open>pt_start\<close>.
\<close>

definition pt_args :: "string \<Rightarrow> string list \<Rightarrow> string + int \<times> int" where
  "pt_args prog argv = (case argv of
     [_, bound, step] \<Rightarrow> Inr (strtol_int bound, strtol_int step)
   | _ \<Rightarrow> Inl (''Usage: ./'' @ prog @ '' LOOP_BOUND INCREMENT'' @ [CHR 0x0A]))"

inductive_cases pt_stepE: "pt_step v l d s t"

section \<open>Arithmetic\<close>

lemma int_range_part:
  assumes "int_range (int m * d)" "n \<le> m"
  shows "int_range (int n * d)"
proof (cases "0 \<le> d")
  case True
  then have "int n * d \<le> int m * d" "0 \<le> int n * d" using assms(2) by (auto intro: mult_right_mono)
  then show ?thesis using assms(1) by (simp add: int_range_def)
next
  case False
  then have "int m * d \<le> int n * d" "int n * d \<le> 0"
    using assms(2) by (auto intro: mult_right_mono_neg mult_nonneg_nonpos)
  then show ?thesis using assms(1) by (simp add: int_range_def)
qed

lemma wrap_int_range: "int_range x \<Longrightarrow> wrap x = x"
  by (simp add: int_range_def wrap_def int_word_sint)

lemma wrap_0 [simp]: "wrap 0 = 0"
  by (simp add: wrap_def)

lemma wrap_add: "wrap (wrap x + y) = wrap (x + y)"
  by (simp add: wrap_def)

section \<open>The invariant\<close>

text \<open>How many additions of a thread have reached the counter.\<close>

definition added :: "thread \<Rightarrow> nat" where
  "added h = idx h + (if place h = AtUnlock \<or> place h = AtLocal then 1 else 0)"

definition adds :: "ptstate \<Rightarrow> nat" where
  "adds s = sum_list (map added (threads s))"

definition in_section :: "thread \<Rightarrow> bool" where
  "in_section h \<longleftrightarrow> place h = AtRead \<or> place h = AtWrite \<or> place h = AtUnlock"

definition thread_ok :: "int \<Rightarrow> int \<Rightarrow> ptstate \<Rightarrow> nat \<Rightarrow> thread \<Rightarrow> bool" where
  "thread_ok l d s k h \<longleftrightarrow> args h = \<lparr>tid = k, inc = d, loop = l\<rparr> \<and> loc h = int (idx h) * d \<and> idx h \<le> nat l
     \<and> (place h \<noteq> Head \<and> place h \<noteq> Exited \<longrightarrow> idx h < nat l) \<and> (place h = Exited \<longrightarrow> idx h = nat l)
     \<and> (in_section h \<longleftrightarrow> count_mutex s = Some k) \<and> (place h = AtWrite \<longrightarrow> reg h = count s)"

definition exit_lines :: "int \<Rightarrow> int \<Rightarrow> ptstate \<Rightarrow> string list" where
  "exit_lines l d s = map (\<lambda>k. thread_line k (int (nat l) * d))
     (filter (\<lambda>k. place (threads s ! k) = Exited) [0..<length (threads s)])"

text \<open>The places of a program: the mutex programs never add atomically, the other never locks.\<close>

definition variant_ok :: "variant \<Rightarrow> thread \<Rightarrow> bool" where
  "variant_ok v h \<longleftrightarrow> (case v of Mutex \<Rightarrow> place h \<noteq> AtAdd | Atomic \<Rightarrow> place h \<noteq> AtLock \<and> \<not> in_section h)"

definition main_ok :: "int \<Rightarrow> int \<Rightarrow> ptstate \<Rightarrow> bool" where
  "main_ok l d s \<longleftrightarrow> (case main_at s of
     Creating k \<Rightarrow> k \<le> 3 \<and> length (threads s) = k \<and> mset (lines s) = mset (exit_lines l d s)
   | Joining k \<Rightarrow> k \<le> 3 \<and> length (threads s) = 3 \<and> (\<forall>j<k. place (threads s ! j) = Exited)
       \<and> mset (lines s) = mset (exit_lines l d s)
   | Finished \<Rightarrow> length (threads s) = 3 \<and> (\<forall>j<3. place (threads s ! j) = Exited)
       \<and> (\<exists>ls. lines s = ls @ [main_line (count s)] \<and> mset ls = mset (exit_lines l d s)))"

definition pt_inv :: "variant \<Rightarrow> int \<Rightarrow> int \<Rightarrow> ptstate \<Rightarrow> bool" where
  "pt_inv v l d s \<longleftrightarrow> (\<forall>k<length (threads s). thread_ok l d s k (threads s ! k) \<and> variant_ok v (threads s ! k))
     \<and> (\<forall>k. count_mutex s = Some k \<longrightarrow> k < length (threads s))
     \<and> count s = wrap (int (adds s) * d) \<and> \<not> ub s \<and> main_ok l d s"

text \<open>What the statements rely on: no signed overflow.\<close>

definition fits :: "variant \<Rightarrow> int \<Rightarrow> int \<Rightarrow> bool" where
  "fits v l d \<longleftrightarrow> int_range (int ((case v of Mutex \<Rightarrow> 3 | Atomic \<Rightarrow> 1) * nat l) * d)"

section \<open>Steps keep the invariant\<close>

lemma put_simps [simp]:
  "count (put k h s) = count s" "count_mutex (put k h s) = count_mutex s" "ub (put k h s) = ub s"
  "lines (put k h s) = lines s" "main_at (put k h s) = main_at s" "threads (put k h s) = (threads s)[k := h]"
  by (simp_all add: put_def)

lemma adds_update:
  assumes "threads t = (threads s)[k := h]" "k < length (threads s)"
  shows "adds t = adds s + added h - added (threads s ! k)"
  using assms by (simp add: adds_def map_update sum_list_update)

lemma adds_ge: "k < length (threads s) \<Longrightarrow> added (threads s ! k) \<le> adds s"
  unfolding adds_def by (rule member_le_sum_list) auto

lemma adds_bound:
  assumes "\<forall>k<length (threads s). added (threads s ! k) \<le> m" "length (threads s) \<le> 3"
  shows "adds s \<le> 3 * m"
proof -
  have "adds s = (\<Sum>k<length (threads s). added (threads s ! k))"
    by (simp add: adds_def sum_list_sum_nth atLeast0LessThan)
  also have "\<dots> \<le> (\<Sum>k<length (threads s). m)" using assms(1) by (intro sum_mono) auto
  also have "\<dots> \<le> 3 * m" using assms(2) by simp
  finally show ?thesis .
qed

lemma filter_upt_update:
  assumes "k < n" "\<not> P k" "Q k" "\<forall>j. j \<noteq> k \<longrightarrow> Q j = P j"
  shows "mset (filter Q [0..<n]) = add_mset k (mset (filter P [0..<n]))"
proof -
  have "[0..<n] = [0..<k] @ k # [Suc k..<n]" using assms(1) by (metis upt_conv_Cons le_add_diff_inverse less_imp_le_nat upt_add_eq_append zero_le)
  moreover have "filter Q [0..<k] = filter P [0..<k]" "filter Q [Suc k..<n] = filter P [Suc k..<n]"
    using assms(4) by (auto intro!: filter_cong)
  ultimately show ?thesis using assms(2,3) by simp
qed

lemma exit_lines_update:
  assumes "threads t = (threads s)[k := h]" "k < length (threads s)" "place (threads s ! k) \<noteq> Exited"
  shows "mset (exit_lines l d t) = (if place h = Exited
      then add_mset (thread_line k (int (nat l) * d)) (mset (exit_lines l d s)) else mset (exit_lines l d s))"
proof (cases "place h = Exited")
  case True
  have "mset (filter (\<lambda>j. place ((threads s)[k := h] ! j) = Exited) [0..<length (threads s)])
      = add_mset k (mset (filter (\<lambda>j. place (threads s ! j) = Exited) [0..<length (threads s)]))"
    using assms True by (intro filter_upt_update) (auto simp: nth_list_update)
  then show ?thesis using True by (simp add: exit_lines_def assms(1))
next
  case False
  then have "filter (\<lambda>j. place ((threads s)[k := h] ! j) = Exited) [0..<length (threads s)]
      = filter (\<lambda>j. place (threads s ! j) = Exited) [0..<length (threads s)]"
    using assms by (intro filter_cong) (auto simp: nth_list_update)
  then show ?thesis using False by (simp add: exit_lines_def assms(1))
qed

text \<open>A step of one thread: what is left to show of the state after it.\<close>

lemma inv_update:
  assumes "pt_inv v l d s" "threads t = (threads s)[k := h]" "k < length (threads s)" "main_at t = main_at s"
    and "place (threads s ! k) \<noteq> Exited"
    and "mset (lines t) = (if place h = Exited then add_mset (thread_line k (int (nat l) * d)) (mset (lines s)) else mset (lines s))"
    and "thread_ok l d t k h" "variant_ok v h" "\<forall>j<length (threads s). j \<noteq> k \<longrightarrow> thread_ok l d t j (threads s ! j)"
    and "count t = wrap (int (adds t) * d)" "\<not> ub t" "count_mutex t \<in> {None, Some k, count_mutex s}"
  shows "pt_inv v l d t"
proof -
  have "main_ok l d t"
    using assms(1,3,4,5,6) exit_lines_update[OF assms(2,3,5), of l d]
    by (auto simp: pt_inv_def main_ok_def assms(2) nth_list_update split: main_place.splits if_splits)
  then show ?thesis
    using assms by (auto simp: pt_inv_def nth_list_update)
qed

lemma main_ok_length: "main_ok l d s \<Longrightarrow> length (threads s) \<le> 3"
  by (auto simp: main_ok_def split: main_place.splits)

lemma added_le: "thread_ok l d s k h \<Longrightarrow> added h \<le> nat l"
  by (auto simp: thread_ok_def added_def)

lemma inv_threadD:
  assumes "pt_inv v l d s" "k < length (threads s)"
  shows "thread_ok l d s k (threads s ! k)" "variant_ok v (threads s ! k)"
  using assms by (auto simp: pt_inv_def)

text \<open>One more addition still fits.\<close>

lemma adds_room:
  assumes "pt_inv v l d s" "k < length (threads s)" "added (threads s ! k) < nat l"
  shows "Suc (adds s) \<le> 3 * nat l"
proof -
  define h where "h = (threads s ! k)\<lparr>idx := Suc (idx (threads s ! k))\<rparr>"
  define t where "t = put k h s"
  have a: "added h = Suc (added (threads s ! k))" by (simp add: h_def added_def)
  have "adds t = Suc (adds s)"
    using adds_update[of t s k h] adds_ge[OF assms(2)] assms(2) a by (simp add: t_def)
  moreover have "adds t \<le> 3 * nat l"
  proof (rule adds_bound)
    show "\<forall>j<length (threads t). added (threads t ! j) \<le> nat l"
      using assms a by (auto simp: t_def nth_list_update intro: added_le[OF inv_threadD(1)])
    show "length (threads t) \<le> 3" using assms(1) by (auto simp: t_def pt_inv_def dest: main_ok_length)
  qed
  ultimately show ?thesis by simp
qed

lemma inv_quiet:
  assumes "pt_inv v l d s" "k < length (threads s)" "place (threads s ! k) \<noteq> Exited" "place h \<noteq> Exited"
    and "t = put k h s" "thread_ok l d s k h" "variant_ok v h" "added h = added (threads s ! k)"
  shows "pt_inv v l d t"
proof (rule inv_update[OF assms(1) _ assms(2)])
  show "count t = wrap (int (adds t) * d)"
    using adds_update[of t s k h] assms adds_ge[OF assms(2)] by (simp add: pt_inv_def)
  show "\<forall>j<length (threads s). j \<noteq> k \<longrightarrow> thread_ok l d t j (threads s ! j)"
    using inv_threadD(1)[OF assms(1)] assms(5) by (auto simp: thread_ok_def)
qed (use assms in \<open>auto simp: thread_ok_def pt_inv_def\<close>)

lemma inv_count:
  assumes "pt_inv v l d s" "k < length (threads s)" "place (threads s ! k) \<noteq> Exited" "place h \<noteq> Exited"
    and "threads t = (threads s)[k := h]" "main_at t = main_at s" "lines t = lines s" "count_mutex t = count_mutex s"
    and "thread_ok l d t k h" "variant_ok v h" "added h = Suc (added (threads s ! k))"
    and "count t = wrap (int (Suc (adds s)) * d)" "\<not> ub t"
    and "\<forall>j<length (threads s). j \<noteq> k \<longrightarrow> place (threads s ! j) \<noteq> AtWrite"
  shows "pt_inv v l d t"
proof (rule inv_update[OF assms(1,5,2,6,3)])
  have "adds t = Suc (adds s)"
    using adds_update[OF assms(5,2)] adds_ge[OF assms(2)] assms(11) by simp
  then show "count t = wrap (int (adds t) * d)" using assms(12) by simp
  show "\<forall>j<length (threads s). j \<noteq> k \<longrightarrow> thread_ok l d t j (threads s ! j)"
    using inv_threadD(1)[OF assms(1)] assms(8,14) by (auto simp: thread_ok_def)
qed (use assms in auto)

lemma others_outside:
  assumes "pt_inv v l d s" "in_section (threads s ! k)" "k < length (threads s)" "j < length (threads s)" "j \<noteq> k"
  shows "\<not> in_section (threads s ! j)"
  using inv_threadD(1)[OF assms(1,3)] inv_threadD(1)[OF assms(1,4)] assms(2,5) by (auto simp: thread_ok_def)

lemma inv_mutex:
  assumes "pt_inv v l d s" "k < length (threads s)" "place (threads s ! k) \<noteq> Exited" "place h \<noteq> Exited"
    and "t = put k h (s\<lparr>count_mutex := m\<rparr>)" "thread_ok l d t k h" "variant_ok v h" "added h = added (threads s ! k)"
    and "m = Some k \<and> count_mutex s = None \<or> m = None \<and> count_mutex s = Some k"
  shows "pt_inv v l d t"
proof (rule inv_update[OF assms(1) _ assms(2)])
  show "count t = wrap (int (adds t) * d)"
    using adds_update[of t s k h] assms adds_ge[OF assms(2)] by (simp add: pt_inv_def)
  show "\<forall>j<length (threads s). j \<noteq> k \<longrightarrow> thread_ok l d t j (threads s ! j)"
    using inv_threadD(1)[OF assms(1)] assms(5,9) by (auto simp: thread_ok_def)
qed (use assms in \<open>auto simp: pt_inv_def\<close>)

lemma inv_write:
  assumes "pt_inv v l d s" "fits v l d" "k < length (threads s)" "place (threads s ! k) = AtWrite"
    "inc_count v k s = Some t"
  shows "pt_inv v l d t"
proof -
  let ?h = "threads s ! k"
  have ok: "thread_ok l d s k ?h" and v: "v = Mutex" and sec: "in_section ?h"
    using inv_threadD[OF assms(1,3)] assms(4) by (auto simp: variant_ok_def in_section_def split: variant.splits)
  have "added ?h < nat l" using ok assms(4) by (simp add: thread_ok_def added_def)
  then have room: "Suc (adds s) \<le> 3 * nat l" by (rule adds_room[OF assms(1,3)])
  have "int_range (int (3 * nat l) * d)" using assms(2) by (simp add: fits_def v)
  then have fit: "int_range (int (adds s) * d)" "int_range (int (Suc (adds s)) * d)"
    by (rule int_range_part; use room in simp)+
  have c: "count s = int (adds s) * d" "\<not> ub s" using assms(1) fit(1) by (auto simp: pt_inv_def wrap_int_range)
  have "reg ?h = count s" "inc (args ?h) = d" using ok assms(4) by (simp_all add: thread_ok_def)
  then have t: "t = put k (?h\<lparr>place := AtUnlock\<rparr>) (s\<lparr>count := int (Suc (adds s)) * d, ub := False\<rparr>)"
    using assms(4,5) c fit(2) by (simp add: inc_count_def Let_def algebra_simps)
  show ?thesis
  proof (rule inv_count[OF assms(1,3)])
    show "\<forall>j<length (threads s). j \<noteq> k \<longrightarrow> place (threads s ! j) \<noteq> AtWrite"
      using others_outside[OF assms(1) sec assms(3)] by (auto simp: in_section_def)
    show "count t = wrap (int (Suc (adds s)) * d)" using fit(2) by (simp add: t wrap_int_range)
    show "thread_ok l d t k (?h\<lparr>place := AtUnlock\<rparr>)"
      using ok assms(4) by (auto simp: t thread_ok_def in_section_def)
    show "variant_ok v (?h\<lparr>place := AtUnlock\<rparr>)" by (simp add: v variant_ok_def)
    show "added (?h\<lparr>place := AtUnlock\<rparr>) = Suc (added ?h)" using assms(4) by (simp add: added_def)
  qed (simp_all add: t assms(4))
qed

lemma inv_atomic_add:
  assumes "pt_inv v l d s" "k < length (threads s)" "place (threads s ! k) = AtAdd" "inc_count v k s = Some t"
  shows "pt_inv v l d t"
proof -
  let ?h = "threads s ! k"
  have ok: "thread_ok l d s k ?h" and v: "v = Atomic"
    using inv_threadD[OF assms(1,2)] assms(3) by (auto simp: variant_ok_def split: variant.splits)
  have t: "t = put k (?h\<lparr>place := AtLocal\<rparr>) (s\<lparr>count := wrap (count s + d)\<rparr>)"
    using assms(3,4) ok by (simp add: inc_count_def Let_def thread_ok_def)
  have "\<forall>j<length (threads s). place (threads s ! j) \<noteq> AtWrite"
    using inv_threadD(2)[OF assms(1)] by (auto simp: v variant_ok_def in_section_def)
  moreover have "wrap (count s + d) = wrap (int (Suc (adds s)) * d)"
    using assms(1) wrap_add[of "int (adds s) * d" d] by (simp add: pt_inv_def algebra_simps)
  ultimately show ?thesis
    using assms(1-3) ok by (intro inv_count[OF assms(1,2), of "?h\<lparr>place := AtLocal\<rparr>"])
      (auto simp: t v thread_ok_def variant_ok_def in_section_def added_def pt_inv_def)
qed

lemma inv_local:
  assumes "pt_inv v l d s" "fits v l d" "k < length (threads s)" "place (threads s ! k) = AtLocal"
    "inc_count v k s = Some t"
  shows "pt_inv v l d t"
proof -
  let ?h = "threads s ! k" and ?h' = "(threads s ! k)\<lparr>place := Head, loc := int (Suc (idx (threads s ! k))) * d,
    idx := Suc (idx (threads s ! k))\<rparr>"
  have ok: "thread_ok l d s k ?h" and vok: "variant_ok v ?h" using inv_threadD[OF assms(1,3)] by auto
  have i: "Suc (idx ?h) \<le> nat l" using ok assms(4) by (simp add: thread_ok_def)
  then have "Suc (idx ?h) \<le> (case v of Mutex \<Rightarrow> 3 | Atomic \<Rightarrow> 1) * nat l" by (cases v) simp_all
  then have fit: "int_range (int (Suc (idx ?h)) * d)"
    by (rule int_range_part[OF assms(2)[unfolded fits_def]])
  have "loc ?h = int (idx ?h) * d" "inc (args ?h) = d" using ok by (simp_all add: thread_ok_def)
  then have sum: "loc ?h + inc (args ?h) = int (Suc (idx ?h)) * d" by (simp only: of_nat_Suc) (simp add: distrib_right)
  have ub: "\<not> ub s" using assms(1) by (simp add: pt_inv_def)
  then have eq: "s\<lparr>ub := False\<rparr> = s" by (cases s) simp
  have "t = put k ?h' (s\<lparr>ub := False\<rparr>)"
    using ub assms(4,5) fit unfolding inc_count_def Let_def sum by simp
  then have t: "t = put k ?h' s" by (simp only: eq)
  have "thread_ok l d s k ?h'" "variant_ok v ?h'" "added ?h' = added ?h"
    using ok vok i assms(4) by (simp_all add: thread_ok_def variant_ok_def in_section_def added_def split: variant.splits)
  then show ?thesis
    by (intro inv_quiet[OF assms(1,3) _ _ t]) (simp_all add: assms(4))
qed

lemma inv_head:
  assumes "pt_inv v l d s" "k < length (threads s)" "place (threads s ! k) = Head" "inc_count v k s = Some t"
  shows "pt_inv v l d t"
proof (cases "int (idx (threads s ! k)) < l")
  case True
  let ?h = "(threads s ! k)\<lparr>place := (case v of Mutex \<Rightarrow> AtLock | Atomic \<Rightarrow> AtAdd)\<rparr>"
  have ok: "thread_ok l d s k (threads s ! k)" using inv_threadD[OF assms(1,2)] by auto
  then have "t = put k ?h s" using True assms(3,4) by (simp add: inc_count_def Let_def thread_ok_def)
  then show ?thesis
    using ok True assms(3) by (intro inv_quiet[OF assms(1,2), of ?h])
      (auto simp: thread_ok_def variant_ok_def in_section_def added_def split: variant.splits)
next
  case False
  let ?h = "(threads s ! k)\<lparr>place := Exited\<rparr>"
  have ok: "thread_ok l d s k (threads s ! k)" using inv_threadD[OF assms(1,2)] by auto
  then have i: "idx (threads s ! k) = nat l" using False by (auto simp: thread_ok_def)
  then have t: "t = put k ?h (s\<lparr>lines := lines s @ [thread_line k (int (nat l) * d)]\<rparr>)"
    using False assms(3,4) ok by (simp add: inc_count_def Let_def thread_ok_def)
  show ?thesis
  proof (rule inv_update[OF assms(1) _ assms(2), of _ ?h])
    show "count t = wrap (int (adds t) * d)"
      using adds_update[of t s k ?h] assms(1,2,3) adds_ge[OF assms(2)] t by (simp add: pt_inv_def added_def)
    show "\<forall>j<length (threads s). j \<noteq> k \<longrightarrow> thread_ok l d t j (threads s ! j)"
      using inv_threadD(1)[OF assms(1)] t by (auto simp: thread_ok_def)
    show "thread_ok l d t k ?h" using ok i assms(3) t by (auto simp: thread_ok_def in_section_def)
  qed (use assms(1,3) t in \<open>auto simp: pt_inv_def variant_ok_def in_section_def split: variant.splits\<close>)
qed

lemma inv_lock:
  assumes "pt_inv v l d s" "k < length (threads s)" "place (threads s ! k) = AtLock" "inc_count v k s = Some t"
  shows "pt_inv v l d t"
proof -
  let ?h = "(threads s ! k)\<lparr>place := AtRead\<rparr>"
  have ok: "thread_ok l d s k (threads s ! k)" "variant_ok v (threads s ! k)" using inv_threadD[OF assms(1,2)] by auto
  have t: "t = put k ?h (s\<lparr>count_mutex := Some k\<rparr>)" "count_mutex s = None"
    using assms(3,4) by (auto simp: inc_count_def Let_def split: if_splits)
  show ?thesis
    using ok t assms(3) by (intro inv_mutex[OF assms(1,2), of ?h t "Some k"])
      (auto simp: thread_ok_def variant_ok_def in_section_def added_def split: variant.splits)
qed

lemma inv_unlock:
  assumes "pt_inv v l d s" "k < length (threads s)" "place (threads s ! k) = AtUnlock" "inc_count v k s = Some t"
  shows "pt_inv v l d t"
proof -
  let ?h = "(threads s ! k)\<lparr>place := AtLocal\<rparr>"
  have ok: "thread_ok l d s k (threads s ! k)" "variant_ok v (threads s ! k)" using inv_threadD[OF assms(1,2)] by auto
  have t: "t = put k ?h (s\<lparr>count_mutex := None\<rparr>)" "count_mutex s = Some k"
    using assms(3,4) ok by (auto simp: inc_count_def Let_def thread_ok_def in_section_def)
  show ?thesis
    using ok t assms(3) by (intro inv_mutex[OF assms(1,2), of ?h t None])
      (auto simp: thread_ok_def variant_ok_def in_section_def added_def split: variant.splits)
qed

lemma inv_read:
  assumes "pt_inv v l d s" "k < length (threads s)" "place (threads s ! k) = AtRead" "inc_count v k s = Some t"
  shows "pt_inv v l d t"
proof -
  let ?h = "(threads s ! k)\<lparr>place := AtWrite, reg := count s\<rparr>"
  have ok: "thread_ok l d s k (threads s ! k)" "variant_ok v (threads s ! k)" using inv_threadD[OF assms(1,2)] by auto
  have "t = put k ?h s" using assms(3,4) by (simp add: inc_count_def Let_def)
  then show ?thesis
    using ok assms(3) by (intro inv_quiet[OF assms(1,2), of ?h])
      (auto simp: thread_ok_def variant_ok_def in_section_def added_def split: variant.splits)
qed

lemma inv_thread:
  assumes "pt_inv v l d s" "fits v l d" "k < length (threads s)" "inc_count v k s = Some t"
  shows "pt_inv v l d t"
proof (cases "place (threads s ! k)")
  case Exited
  then show ?thesis using assms(4) by (simp add: inc_count_def Let_def)
next
  case AtWrite
  then show ?thesis by (rule inv_write[OF assms(1-3) _ assms(4)])
next
  case AtLocal
  then show ?thesis by (rule inv_local[OF assms(1-3) _ assms(4)])
qed (rule inv_head[OF assms(1,3) _ assms(4)] inv_lock[OF assms(1,3) _ assms(4)] inv_read[OF assms(1,3) _ assms(4)]
    inv_unlock[OF assms(1,3) _ assms(4)] inv_atomic_add[OF assms(1,3) _ assms(4)]; assumption)+

lemma exit_lines_append:
  assumes "threads t = threads s @ [h]" "place h \<noteq> Exited"
  shows "exit_lines l d t = exit_lines l d s"
proof -
  have "filter (\<lambda>k. place ((threads s @ [h]) ! k) = Exited) [0..<length (threads s)]
      = filter (\<lambda>k. place (threads s ! k) = Exited) [0..<length (threads s)]"
    by (rule filter_cong) (auto simp: nth_append)
  then show ?thesis using assms(2) by (simp add: exit_lines_def assms(1))
qed

lemma same_threads:
  "threads t = threads s \<Longrightarrow> exit_lines l d t = exit_lines l d s \<and> adds t = adds s"
  by (simp add: exit_lines_def adds_def)

lemma inv_main:
  assumes "pt_inv v l d s" "main_next l d s = Some t"
  shows "pt_inv v l d t"
proof (cases "main_at s")
  case (Creating k)
  have ok: "length (threads s) = k" "mset (lines s) = mset (exit_lines l d s)"
    using assms(1) Creating by (simp_all add: pt_inv_def main_ok_def)
  show ?thesis
  proof (cases "k < 3")
    case True
    then have t: "t = s\<lparr>threads := threads s @ [new_thread k l d], main_at := Creating (Suc k)\<rparr>"
      using assms(2) Creating by (simp add: main_next_def NUM_THREADS_def)
    have "thread_ok l d t j (threads t ! j) \<and> variant_ok v (threads t ! j)" if "j < length (threads t)" for j
    proof (cases "j < k")
      case True
      then show ?thesis
        using inv_threadD[OF assms(1), of j] ok t by (auto simp: thread_ok_def nth_append)
    next
      case False
      then have "j = k" using that ok t by simp
      then show ?thesis
        using assms(1) ok t by (auto simp: thread_ok_def variant_ok_def new_thread_def in_section_def pt_inv_def
          nth_append split: variant.splits)
    qed
    moreover have "adds t = adds s" by (simp add: t adds_def new_thread_def added_def)
    moreover have "exit_lines l d t = exit_lines l d s"
      by (rule exit_lines_append[of _ _ "new_thread k l d"]) (simp_all add: t new_thread_def)
    ultimately show ?thesis
      using assms(1) True ok unfolding pt_inv_def by (auto simp: main_ok_def t)
  next
    case False
    then show ?thesis using assms Creating same_threads[of t s]
      by (auto simp: main_next_def NUM_THREADS_def pt_inv_def main_ok_def thread_ok_def)
  qed
next
  case (Joining k)
  show ?thesis
  proof (cases "k < 3")
    case True
    then show ?thesis using assms Joining same_threads[of t s]
      by (auto simp: main_next_def NUM_THREADS_def pt_inv_def main_ok_def thread_ok_def less_Suc_eq split: if_splits)
  next
    case False
    then show ?thesis using assms Joining same_threads[of t s]
      by (auto simp: main_next_def NUM_THREADS_def pt_inv_def main_ok_def thread_ok_def)
  qed
qed (use assms(2) in \<open>simp add: main_next_def\<close>)

lemma inv_step: "pt_inv v l d s \<Longrightarrow> fits v l d \<Longrightarrow> pt_step v l d s t \<Longrightarrow> pt_inv v l d t"
  by (erule pt_stepE) (blast intro: inv_thread inv_main)+

lemma inv_start: "pt_inv v l d pt_start"
  by (simp add: pt_inv_def pt_start_def main_ok_def adds_def exit_lines_def)

section \<open>Every run ends\<close>

text \<open>The statements a thread has left, and those of \<open>main\<close> with the threads still to be created.\<close>

definition work :: "nat \<Rightarrow> thread \<Rightarrow> nat" where
  "work m h = (case place h of Head \<Rightarrow> 6 * (m - idx h) + 1 | AtLock \<Rightarrow> 6 * (m - idx h) | AtRead \<Rightarrow> 6 * (m - idx h) - 1
     | AtWrite \<Rightarrow> 6 * (m - idx h) - 2 | AtUnlock \<Rightarrow> 6 * (m - idx h) - 3 | AtAdd \<Rightarrow> 6 * (m - idx h)
     | AtLocal \<Rightarrow> 6 * (m - idx h) - 4 | Exited \<Rightarrow> 0)"

definition main_work :: "nat \<Rightarrow> main_place \<Rightarrow> nat" where
  "main_work m p = (case p of Creating k \<Rightarrow> (3 - k) * (6 * m + 2) + 5 | Joining k \<Rightarrow> 3 - k + 1 | Finished \<Rightarrow> 0)"

definition pt_measure :: "nat \<Rightarrow> ptstate \<Rightarrow> nat" where
  "pt_measure m s = main_work m (main_at s) + sum_list (map (work m) (threads s))"

lemma work_less:
  assumes "thread_ok l d s k h" "h = threads s ! k" "k < length (threads s)" "inc_count v k s = Some t"
  shows "\<exists>h'. threads t = (threads s)[k := h'] \<and> main_at t = main_at s \<and> work (nat l) h' < work (nat l) h"
proof -
  have "idx h < nat l \<or> place h = Head \<or> place h = Exited" "idx h \<le> nat l" "loop (args h) = l"
    using assms(1) by (auto simp: thread_ok_def)
  then show ?thesis
    using assms(2-4) by (cases "place h") (auto simp: inc_count_def Let_def work_def split: if_splits variant.splits)
qed

lemma thread_decreases:
  assumes "pt_inv v l d s" "k < length (threads s)" "inc_count v k s = Some t"
  shows "pt_measure (nat l) t < pt_measure (nat l) s"
proof -
  obtain h' where h: "threads t = (threads s)[k := h']" "main_at t = main_at s" "work (nat l) h' < work (nat l) (threads s ! k)"
    using work_less[OF inv_threadD(1)[OF assms(1,2)] refl assms(2,3)] by blast
  have "work (nat l) (threads s ! k) \<le> sum_list (map (work (nat l)) (threads s))"
    using assms(2) by (intro member_le_sum_list) auto
  then show ?thesis
    using h assms(2) by (simp add: pt_measure_def map_update sum_list_update) linarith
qed

lemma main_decreases:
  assumes "pt_inv v l d s" "main_next l d s = Some t"
  shows "pt_measure (nat l) t < pt_measure (nat l) s"
proof (cases "main_at s")
  case (Creating k)
  have "k \<le> 3" using assms(1) Creating by (simp add: pt_inv_def main_ok_def)
  then have "k = 0 \<or> k = 1 \<or> k = 2 \<or> k = 3" by auto
  then show ?thesis
    using assms(2) Creating by (auto simp: main_next_def NUM_THREADS_def pt_measure_def main_work_def work_def new_thread_def)
qed (use assms(2) in \<open>auto simp: main_next_def NUM_THREADS_def pt_measure_def main_work_def split: if_splits\<close>)

lemma run_bound:
  assumes "(pt_step v l d ^^ n) s t" "pt_inv v l d s" "fits v l d"
  shows "n + pt_measure (nat l) t \<le> pt_measure (nat l) s \<and> pt_inv v l d t"
  using assms(1)
proof (induction n arbitrary: t)
  case (Suc n)
  then obtain u where u: "(pt_step v l d ^^ n) s u" "pt_step v l d u t" by auto
  then have inv: "pt_inv v l d u" "n + pt_measure (nat l) u \<le> pt_measure (nat l) s" using Suc.IH by auto
  have "pt_measure (nat l) t < pt_measure (nat l) u"
    using u(2) inv(1) thread_decreases main_decreases by (blast elim: pt_stepE)
  then show ?case using inv inv_step[OF inv(1) assms(3) u(2)] by simp
qed (use assms(2) in simp)

section \<open>No thread waits for ever\<close>

lemma inc_count_blocked: "inc_count v k s = None \<Longrightarrow>
    place (threads s ! k) = Exited \<or> place (threads s ! k) = AtLock \<and> count_mutex s \<noteq> None"
  by (auto simp: inc_count_def Let_def split: place.splits if_splits)

lemma pt_enabled:
  assumes "pt_inv v l d s" "main_at s \<noteq> Finished"
  shows "\<exists>t. pt_step v l d s t"
proof (cases "main_next l d s")
  case (Some t)
  then show ?thesis by (blast intro: pt_step.main)
next
  case None
  then obtain k where k: "k < 3" "place (threads s ! k) \<noteq> Exited" "length (threads s) = 3"
    using assms by (auto simp: main_next_def NUM_THREADS_def pt_inv_def main_ok_def split: main_place.splits if_splits)
  show ?thesis
  proof (cases "inc_count v k s")
    case None
    then obtain j where j: "count_mutex s = Some j" using inc_count_blocked k(2) by blast
    then have jl: "j < length (threads s)" using assms(1) by (auto simp: pt_inv_def)
    then have "in_section (threads s ! j)" using inv_threadD(1)[OF assms(1) jl] j by (simp add: thread_ok_def)
    then obtain t where "inc_count v j s = Some t"
      using inc_count_blocked[of v j s] by (cases "inc_count v j s") (auto simp: in_section_def)
    then show ?thesis using jl by (blast intro: pt_step.thread)
  next
    case (Some t)
    have "k < length (threads s)" using k(1,3) by simp
    then show ?thesis using Some by (blast intro: pt_step.thread)
  qed
qed

text \<open>The invariant rule and the absence of deadlocks, as for the other programs with threads.\<close>

interpretation ptcount: never_stuck "\<lambda>s. s = pt_start \<and> fits v l d" "pt_step v l d" "\<lambda>s. pt_inv v l d s \<and> fits v l d"
  "\<lambda>s. main_at s = Finished" for v l d
  by unfold_locales (auto intro: inv_start inv_step pt_enabled)

lemma pt_run_reachable: "(pt_step v l d ^^ n) s t \<Longrightarrow> reachable (\<lambda>x. x = s \<and> fits v l d) (pt_step v l d) s \<Longrightarrow>
    reachable (\<lambda>x. x = s \<and> fits v l d) (pt_step v l d) t"
  by (induction n arbitrary: t) (auto intro: reachable.step)

section \<open>The counter\<close>

lemma finished_count:
  assumes "pt_inv v l d s" "main_at s = Finished" "fits v l d"
  shows "\<exists>ls. lines s = ls @ [main_line (case v of Mutex \<Rightarrow> int (3 * nat l) * d | Atomic \<Rightarrow> wrap (int (3 * nat l) * d))]
    \<and> mset ls = mset (map (\<lambda>k. thread_line k (int (nat l) * d)) [0, 1, 2])"
proof -
  have all: "length (threads s) = 3" "\<forall>j<3. place (threads s ! j) = Exited"
    using assms(1,2) by (auto simp: pt_inv_def main_ok_def)
  then have "\<forall>j<3. added (threads s ! j) = nat l"
    using inv_threadD(1)[OF assms(1)] by (auto simp: thread_ok_def added_def)
  then have "map added (threads s) = replicate 3 (nat l)"
    using all(1) by (auto intro!: nth_equalityI)
  then have c: "count s = wrap (int (3 * nat l) * d)"
    using assms(1) by (simp add: pt_inv_def adds_def sum_list_replicate)
  have "v = Mutex \<Longrightarrow> wrap (int (3 * nat l) * d) = int (3 * nat l) * d"
    using assms(3) by (simp only: fits_def variant.case wrap_int_range)
  moreover have "exit_lines l d s = map (\<lambda>k. thread_line k (int (nat l) * d)) [0, 1, 2]"
    using all by (simp add: exit_lines_def upt_rec numeral_eq_Suc)
  ultimately show ?thesis
    using assms(1,2) c by (auto simp: pt_inv_def main_ok_def split: variant.splits)
qed

text \<open>
  C34. Every run of both programs ends within a bound, without a deadlock and without undefined behaviour as
  long as the numbers fit, and prints the sum of all increments: no addition is lost.
\<close>

lemma ptcount_total:
  assumes "(pt_step v l d ^^ n) pt_start s" "fits v l d"
  shows "n \<le> 18 * nat l + 11 \<and> \<not> ub s \<and> ((\<nexists>t. pt_step v l d s t) \<longleftrightarrow> main_at s = Finished)
    \<and> (main_at s = Finished \<longrightarrow> (\<exists>ls. lines s = ls @ [main_line (case v of Mutex \<Rightarrow> int (3 * nat l) * d
          | Atomic \<Rightarrow> wrap (int (3 * nat l) * d))]
        \<and> mset ls = mset (map (\<lambda>k. thread_line k (int (nat l) * d)) [0, 1, 2])))"
proof -
  have run: "n + pt_measure (nat l) s \<le> pt_measure (nat l) pt_start" "pt_inv v l d s"
    using run_bound[OF assms(1) inv_start assms(2)] by auto
  have "\<nexists>t. pt_step v l d s t" if "main_at s = Finished"
  proof -
    have "main_next l d s = None" using that by (simp add: main_next_def)
    moreover have "inc_count v k s = None" if "k < length (threads s)" for k
      using that \<open>main_at s = Finished\<close> run(2) by (auto simp: pt_inv_def main_ok_def inc_count_def Let_def)
    ultimately show ?thesis by (auto elim!: pt_stepE)
  qed
  moreover have "main_at s = Finished" if "\<nexists>t. pt_step v l d s t"
    using ptcount.no_deadlock[OF pt_run_reachable[OF assms(1)]] assms(2) that by (blast intro: reachable.start)
  moreover have "pt_measure (nat l) pt_start = 18 * nat l + 11"
    by (simp add: pt_measure_def main_work_def pt_start_def)
  ultimately show ?thesis
    using run finished_count[OF run(2) _ assms(2)] by (auto simp: pt_inv_def)
qed

text \<open>A schedule that runs one thread after the other.\<close>

datatype turn = T nat | M

fun pt_run :: "variant \<Rightarrow> int \<Rightarrow> int \<Rightarrow> turn list \<Rightarrow> ptstate \<Rightarrow> ptstate option" where
  "pt_run v l d [] s = Some s"
| "pt_run v l d (M # ts) s = Option.bind (main_next l d s) (pt_run v l d ts)"
| "pt_run v l d (T k # ts) s = (if k < length (threads s) then Option.bind (inc_count v k s) (pt_run v l d ts) else None)"

lemma pt_run_steps: "pt_run v l d ts s = Some t \<Longrightarrow> (pt_step v l d ^^ length ts) s t"
  by (induction v l d ts s rule: pt_run.induct)
    (auto simp: bind_eq_Some_conv simp del: relpowp.simps(2) split: if_splits intro: pt_step.intros relpowp_Suc_I2)

lemma ptcount_total_witness:
  "\<exists>n s ls. (pt_step Mutex 1 5 ^^ n) pt_start s \<and> n \<le> 29 \<and> lines s = ls @ [main_line 15]
     \<and> mset ls = mset (map (\<lambda>k. thread_line k 5) [0, 1, 2])"
proof -
  define ts where "ts = [M, M, M, M] @ concat (map (\<lambda>k. replicate 7 (T k)) [0, 1, 2]) @ [M, M, M, M]"
  have "(case pt_run Mutex 1 5 ts pt_start of None \<Rightarrow> False | Some s \<Rightarrow> main_at s = Finished)"
    unfolding ts_def by code_simp
  then obtain s where s: "pt_run Mutex 1 5 ts pt_start = Some s" "main_at s = Finished"
    by (auto split: option.splits)
  have "fits Mutex 1 5" by code_simp
  then show ?thesis
    using ptcount_total[OF pt_run_steps[OF s(1)]] pt_run_steps[OF s(1)] s(2) by auto
qed

end
