(* ===== verification/FuncPtr.thy ===== *)
theory FuncPtr
  imports Prelude "HOL-Library.Multiset" "HOL-Library.Product_Lexorder"
begin

text \<open>
  The function pointer laboratory (\<open>eecs678-funcptr-lab/\<close>). \<open>task1\<close> reads a table of processes, sorts it
  with \<open>qsort\<close> and prints it; \<open>task2\<close> applies one of four functions to two constants. The files and
  \<open>qsort\<close> are parameters. \<^term>\<open>None\<close> is undefined behaviour: a row outside the array, and the use of
  a variable or array element that was never set.
\<close>

section \<open>Processes\<close>

record Process =
  pid :: int
  arrival_time :: int
  priority :: int

definition P_SIZE :: nat where
  "P_SIZE = 7"

definition process_ctr :: "int \<Rightarrow> int \<Rightarrow> int \<Rightarrow> Process" where
  "process_ctr p a r = \<lparr>pid = p, arrival_time = a, priority = r\<rparr>"

definition my_comparer :: "Process \<Rightarrow> Process \<Rightarrow> int" where
  "my_comparer p1 p2 = (if priority p1 < priority p2 then 1
     else if priority p1 > priority p2 then - 1
     else if arrival_time p1 > arrival_time p2 then 1 else - 1)"

section \<open>Reading the file\<close>

text \<open>
  \<open>fscanf(f, "%d,%d,%d\n", ...)\<close> when it sets all three variables, with the rest of the file. The last
  directive skips white space, so the end of the file is found exactly when nothing is left.
\<close>

definition scan_comma :: "string \<Rightarrow> string option" where
  "scan_comma s = (case s of c # r \<Rightarrow> if c = CHR '','' then Some r else None | [] \<Rightarrow> None)"

definition scan_field :: "string \<Rightarrow> (int \<times> string) option" where
  "scan_field s = Option.bind (scan_int s) (\<lambda>(n, r). guard (int_range n) (Some (n, r)))"

definition scan_row :: "string \<Rightarrow> (Process \<times> string) option" where
  "scan_row s =
     Option.bind (scan_field s) (\<lambda>(t_pid, r). Option.bind (scan_comma r) (\<lambda>r.
     Option.bind (scan_field r) (\<lambda>(t_arrival_time, r). Option.bind (scan_comma r) (\<lambda>r.
     map_option (\<lambda>(t_priority, r). (process_ctr t_pid t_arrival_time t_priority, dropWhile is_space r))
       (scan_field r)))))"

function parse_rows :: "string \<Rightarrow> nat \<Rightarrow> Process cell list \<Rightarrow> Process cell list option" where
  "parse_rows f s pptr = (case scan_row f of None \<Rightarrow> None
     | Some (x, r) \<Rightarrow> if s < P_SIZE
         then (let pptr = pptr[s := Val x] in if r = [] then Some pptr else parse_rows r (Suc s) pptr)
         else None)"
  by pat_completeness auto
termination
  by (relation "measure (\<lambda>(f, s, pptr). P_SIZE - s)") auto

declare parse_rows.simps [simp del]

text \<open>The header line is skipped; without an end of line the end of the file has been found already.\<close>

definition parse_processes :: "string \<Rightarrow> Process cell list option" where
  "parse_processes f = (let r = dropWhile (\<lambda>c. c \<noteq> CHR 0x0A) f; pptr = replicate P_SIZE Uninit in
     case r of [] \<Rightarrow> Some pptr | _ # r \<Rightarrow> parse_rows r 0 pptr)"

section \<open>The program of task1\<close>

text \<open>Output, error output and exit code.\<close>

type_synonym fp_result = "string \<times> string \<times> int"

definition process_line :: "Process \<Rightarrow> string" where
  "process_line x = show_int (pid x) @ '' ('' @ show_int (priority x) @ '', '' @ show_int (arrival_time x) @ '')'' @ [CHR 0x0A]"

definition sort_main :: "((Process \<Rightarrow> Process \<Rightarrow> int) \<Rightarrow> Process list \<Rightarrow> Process list) \<Rightarrow> (string \<Rightarrow> string option)
    \<Rightarrow> string list \<Rightarrow> fp_result option" where
  "sort_main qsort files argv = (case argv of
     _ # path # _ \<Rightarrow> (case files path of
         None \<Rightarrow> Some ([], ''Error: Invalid filepath'' @ [CHR 0x0A], 1)
       | Some f \<Rightarrow> Option.bind (parse_processes f) (\<lambda>pptr.
           if Uninit \<in> set pptr then None
           else Some (concat (map process_line (qsort my_comparer (map (\<lambda>c. the (cell_val c)) pptr))), [], 0)))
   | _ \<Rightarrow> Some ([], ''Usage: ./func-ptr <input-file-path>'' @ [CHR 0x0A], 1))"

section \<open>The program of task2\<close>

definition ticked :: "string \<Rightarrow> string" where
  "ticked w = CHR 0x27 # w @ [CHR 0x27]"

type_synonym num_func = "int \<Rightarrow> int \<Rightarrow> (string \<times> int) option"

definition add :: num_func where
  "add a b = guard (int_range (a + b)) (Some (''Adding '' @ ticked ''a'' @ '' and '' @ ticked ''b'' @ [CHR 0x0A], a + b))"

definition subtract :: num_func where
  "subtract a b = guard (int_range (a - b))
     (Some (''Subtracting '' @ ticked ''b'' @ '' from '' @ ticked ''a'' @ [CHR 0x0A], a - b))"

definition multiply :: num_func where
  "multiply a b = guard (int_range (a * b))
     (Some (''Multiplying '' @ ticked ''a'' @ '' and '' @ ticked ''b'' @ [CHR 0x0A], a * b))"

text \<open>The quotient is rounded towards zero.\<close>

definition divide_int :: num_func where
  "divide_int a b = (let q = sgn a * sgn b * (\<bar>a\<bar> div \<bar>b\<bar>) in guard (b \<noteq> 0 \<and> int_range q)
     (Some (''Dividing '' @ ticked ''a'' @ '' by '' @ ticked ''b'' @ [CHR 0x0A], q)))"

definition func_array :: "num_func list" where
  "func_array = [add, subtract, multiply, divide_int]"

definition menu_text :: string where
  "menu_text = ''Operand '' @ ticked ''a'' @ '' : 6 | Operand '' @ ticked ''b'' @ '' : 3'' @ [CHR 0x0A]
     @ ''Specify the operation to perform (0 : add | 1 : subtract | 2 : Multiply | 3 : divide): ''"

text \<open>\<open>main\<close>, with the character that \<open>read\<close> stores, if any: output and result.\<close>

definition menu_main :: "char option \<Rightarrow> (string \<times> int) option" where
  "menu_main input = (case input of None \<Rightarrow> None
     | Some c \<Rightarrow> (let choice = strtol_int (takeWhile (\<lambda>c. c \<noteq> CHR 0x00) [c]) in
         if choice < 0 \<or> choice > 3 then Some (menu_text @ ''Invalid choice, exiting'' @ [CHR 0x0A], - 1)
         else map_option (\<lambda>(w, result). (menu_text @ w @ ''x = '' @ show_int result @ [CHR 0x0A], 0))
           ((func_array ! nat choice) 6 3)))"

section \<open>The order of the comparer\<close>

text \<open>What the comparer sorts by: higher priority numbers first, then earlier arrivals.\<close>

definition sort_pair :: "Process \<Rightarrow> int \<times> int" where
  "sort_pair x = (- priority x, arrival_time x)"

lemma my_comparer_less:
  assumes "sort_pair x \<noteq> sort_pair y"
  shows "my_comparer x y < 0 \<longleftrightarrow> sort_pair x < sort_pair y" "my_comparer x y > 0 \<longleftrightarrow> sort_pair y < sort_pair x"
  using assms by (auto simp: my_comparer_def sort_pair_def)

text \<open>
  The contract of \<open>qsort\<close>: with a comparer that orders the different elements of an array without
  repetitions, the result is a permutation in increasing order.
\<close>

definition orders :: "('a \<Rightarrow> 'a \<Rightarrow> int) \<Rightarrow> 'a list \<Rightarrow> bool" where
  "orders cmp xs \<longleftrightarrow> (\<forall>x\<in>set xs. \<forall>y\<in>set xs. x \<noteq> y \<longrightarrow> cmp x y \<noteq> 0 \<and> (cmp x y < 0 \<longleftrightarrow> cmp y x > 0))
     \<and> (\<forall>x\<in>set xs. \<forall>y\<in>set xs. \<forall>z\<in>set xs. x \<noteq> y \<longrightarrow> y \<noteq> z \<longrightarrow> x \<noteq> z \<longrightarrow> cmp x y < 0 \<longrightarrow> cmp y z < 0 \<longrightarrow> cmp x z < 0)"

definition qsort_contract :: "(('a \<Rightarrow> 'a \<Rightarrow> int) \<Rightarrow> 'a list \<Rightarrow> 'a list) \<Rightarrow> bool" where
  "qsort_contract qsort \<longleftrightarrow> (\<forall>cmp xs. distinct xs \<and> orders cmp xs \<longrightarrow>
     mset (qsort cmp xs) = mset xs \<and> sorted_wrt (\<lambda>x y. cmp x y < 0) (qsort cmp xs))"

text \<open>Insertion sort fulfils it.\<close>

fun ins :: "('a \<Rightarrow> 'a \<Rightarrow> int) \<Rightarrow> 'a \<Rightarrow> 'a list \<Rightarrow> 'a list" where
  "ins cmp x [] = [x]"
| "ins cmp x (y # ys) = (if cmp x y < 0 then x # y # ys else y # ins cmp x ys)"

fun isort :: "('a \<Rightarrow> 'a \<Rightarrow> int) \<Rightarrow> 'a list \<Rightarrow> 'a list" where
  "isort cmp [] = []"
| "isort cmp (x # xs) = ins cmp x (isort cmp xs)"

lemma mset_ins [simp]: "mset (ins cmp x ys) = add_mset x (mset ys)"
  by (induction ys) auto

lemma mset_isort [simp]: "mset (isort cmp xs) = mset xs"
  by (induction xs) auto

lemma set_ins [simp]: "set (ins cmp x ys) = insert x (set ys)"
  by (induction ys) auto

lemma orders_trans:
  assumes "orders cmp xs" "x \<in> set xs" "y \<in> set xs" "z \<in> set xs" "x \<noteq> y" "y \<noteq> z" "x \<noteq> z" "cmp x y < 0" "cmp y z < 0"
  shows "cmp x z < 0"
proof -
  have "\<forall>x\<in>set xs. \<forall>y\<in>set xs. \<forall>z\<in>set xs. x \<noteq> y \<longrightarrow> y \<noteq> z \<longrightarrow> x \<noteq> z \<longrightarrow> cmp x y < 0 \<longrightarrow> cmp y z < 0 \<longrightarrow> cmp x z < 0"
    using assms(1) unfolding orders_def by (rule conjunct2)
  from this[THEN bspec, OF assms(2), THEN bspec, OF assms(3), THEN bspec, OF assms(4)] show ?thesis
    using assms(5-) by blast
qed

lemma orders_asym:
  assumes "orders cmp xs" "x \<in> set xs" "y \<in> set xs" "x \<noteq> y"
  shows "cmp x y \<noteq> 0 \<and> (cmp x y < 0 \<longleftrightarrow> cmp y x > 0)"
proof -
  have "\<forall>x\<in>set xs. \<forall>y\<in>set xs. x \<noteq> y \<longrightarrow> cmp x y \<noteq> 0 \<and> (cmp x y < 0 \<longleftrightarrow> cmp y x > 0)"
    using assms(1) unfolding orders_def by (rule conjunct1)
  from this[THEN bspec, OF assms(2), THEN bspec, OF assms(3)] show ?thesis using assms(4) by (rule mp)
qed

lemma orders_mono:
  assumes "orders cmp xs" "set ys \<subseteq> set xs"
  shows "orders cmp ys"
  unfolding orders_def
proof (intro conjI ballI impI)
  fix x y assume "x \<in> set ys" "y \<in> set ys" "x \<noteq> y"
  then have "cmp x y \<noteq> 0 \<and> (cmp x y < 0 \<longleftrightarrow> cmp y x > 0)"
    by (intro orders_asym[OF assms(1)] subsetD[OF assms(2)])
  then show "cmp x y \<noteq> 0" "cmp x y < 0 \<longleftrightarrow> cmp y x > 0" by blast+
next
  fix x y z assume "x \<in> set ys" "y \<in> set ys" "z \<in> set ys" and *: "x \<noteq> y" "y \<noteq> z" "x \<noteq> z" "cmp x y < 0" "cmp y z < 0"
  then have "x \<in> set xs" "y \<in> set xs" "z \<in> set xs" by (simp_all add: subsetD[OF assms(2)])
  then show "cmp x z < 0" using * by (rule orders_trans[OF assms(1)])
qed

lemma orders_flip:
  assumes "orders cmp xs" "x \<in> set xs" "y \<in> set xs" "x \<noteq> y" "\<not> cmp x y < 0"
  shows "cmp y x < 0"
  using orders_asym[OF assms(1-4)] orders_asym[OF assms(1,3,2) assms(4)[symmetric]] assms(5) by linarith

lemma sorted_ins:
  assumes "sorted_wrt (\<lambda>x y. cmp x y < 0) ys" "x \<notin> set ys" "orders cmp (x # ys)" "distinct ys"
  shows "sorted_wrt (\<lambda>x y. cmp x y < 0) (ins cmp x ys)"
  using assms
proof (induction ys)
  case (Cons y ys)
  have neq: "x \<noteq> y" "y \<notin> set ys" "x \<notin> set ys" using Cons.prems(2,4) by auto
  show ?case
  proof (cases "cmp x y < 0")
    case True
    have "cmp x z < 0" if "z \<in> set ys" for z
      using orders_trans[OF Cons.prems(3), of x y z] Cons.prems(1) True neq that by auto
    then show ?thesis using Cons.prems(1) True by simp
  next
    case False
    then have "cmp y x < 0" using orders_flip[OF Cons.prems(3), of x y] neq by simp
    moreover have "orders cmp (x # ys)" by (rule orders_mono[OF Cons.prems(3)]) auto
    ultimately show ?thesis using Cons False by simp
  qed
qed simp

lemma isort_contract: "qsort_contract isort"
proof -
  have "sorted_wrt (\<lambda>x y. cmp x y < 0) (isort cmp xs)" if "distinct xs" "orders cmp xs"
    for cmp :: "'a \<Rightarrow> 'a \<Rightarrow> int" and xs
    using that
  proof (induction xs)
    case (Cons x xs)
    have s: "set (isort cmp xs) = set xs" "distinct (isort cmp xs)"
      using Cons.prems(1) mset_eq_setD[OF mset_isort, of cmp xs] mset_eq_imp_distinct_iff[OF mset_isort, of cmp xs] by simp_all
    have "orders cmp xs" "orders cmp (x # isort cmp xs)" by (rule orders_mono[OF Cons.prems(2)]; use s(1) in auto)+
    then show ?case using Cons s by (simp add: sorted_ins)
  qed simp
  then show ?thesis unfolding qsort_contract_def by simp
qed

section \<open>What the program prints\<close>

text \<open>A file: a header line and one line for each process.\<close>

definition row_text :: "Process \<Rightarrow> string" where
  "row_text x = show_int (pid x) @ '','' @ show_int (arrival_time x) @ '','' @ show_int (priority x) @ [CHR 0x0A]"

definition process_ok :: "Process \<Rightarrow> bool" where
  "process_ok x \<longleftrightarrow> int_range (pid x) \<and> int_range (arrival_time x) \<and> int_range (priority x)"

lemma show_int_start: "\<exists>c cs. show_int n = c # cs \<and> \<not> is_space c"
proof (cases "n < 0")
  case False
  obtain c cs where "show_nat (nat n) = c # cs" "is_digit c"
    using show_nat_digits[of _ "nat n"] show_nat_nonempty[of "nat n"] by (cases "show_nat (nat n)") auto
  then show ?thesis using False by (auto simp: show_int_def digit_not_space)
qed (simp add: show_int_def is_space_def)

lemma scan_row_text:
  assumes "process_ok x" "r = [] \<or> \<not> is_space (hd r)"
  shows "scan_row (row_text x @ r) = Some (x, r)"
proof -
  have "dropWhile is_space (CHR 0x0A # r) = r" using assms(2) by (cases r) (auto simp: is_space_def)
  moreover have "\<not> is_digit (CHR '','')" "\<not> is_digit (CHR 0x0A)" by code_simp+
  ultimately show ?thesis
    using assms(1) by (simp add: scan_row_def row_text_def scan_field_def scan_int_show scan_comma_def process_ok_def process_ctr_def)
qed

lemma rows_start: "concat (map row_text xs) = [] \<or> \<not> is_space (hd (concat (map row_text xs)))"
proof (cases xs)
  case (Cons x ys)
  then show ?thesis using show_int_start[of "pid x"] by (auto simp: row_text_def)
qed simp

text \<open>Rows beyond the array make the behaviour undefined; fewer rows leave elements without a value.\<close>

lemma parse_rows_text:
  assumes "\<forall>x\<in>set xs. process_ok x" "xs \<noteq> []" "s \<le> P_SIZE" "length pptr = P_SIZE"
  shows "parse_rows (concat (map row_text xs)) s pptr
    = (if s + length xs \<le> P_SIZE then Some (take s pptr @ map Val xs @ drop (s + length xs) pptr) else None)"
  using assms
proof (induction xs arbitrary: s pptr)
  case (Cons x xs)
  let ?r = "concat (map row_text xs)"
  have row: "scan_row (concat (map row_text (x # xs))) = Some (x, ?r)"
    using scan_row_text[of x ?r] rows_start[of xs] Cons.prems(1) by simp
  have nil: "?r = [] \<longleftrightarrow> xs = []" by (cases xs) (simp_all add: row_text_def)
  show ?case
  proof (cases "s < P_SIZE \<and> xs \<noteq> []")
    case True
    then have "parse_rows (concat (map row_text (x # xs))) s pptr = parse_rows ?r (Suc s) (pptr[s := Val x])"
      using nil by (subst parse_rows.simps) (simp only: row option.case prod.case if_True Let_def if_False)
    moreover have "take (Suc s) (pptr[s := Val x]) = take s pptr @ [Val x]"
      using True Cons.prems(4) by (simp add: take_Suc_conv_app_nth)
    ultimately show ?thesis
      using Cons.IH[of "Suc s" "pptr[s := Val x]"] Cons.prems True by simp
  next
    case False
    then show ?thesis
      using nil Cons.prems unfolding parse_rows.simps[of "concat (map row_text (x # xs))"] row option.case prod.case Let_def
      by (auto simp: upd_conv_take_nth_drop)
  qed
qed simp

lemma parse_processes_text:
  assumes "\<forall>x\<in>set xs. process_ok x" "CHR 0x0A \<notin> set header"
  shows "parse_processes (header @ CHR 0x0A # concat (map row_text xs))
    = (if xs \<noteq> [] \<and> length xs \<le> P_SIZE then Some (map Val xs @ replicate (P_SIZE - length xs) Uninit) else None)"
proof -
  have h: "dropWhile (\<lambda>c. c \<noteq> CHR 0x0A) (header @ CHR 0x0A # r) = CHR 0x0A # r" for r
    using assms(2) by (subst dropWhile_append2) auto
  show ?thesis
  proof (cases "xs = []")
    case True
    have "scan_row [] = None" by (simp add: scan_row_def scan_field_def scan_int_def)
    then show ?thesis using True by (simp add: parse_processes_def h parse_rows.simps[of "[]"])
  next
    case False
    then show ?thesis
      using parse_rows_text[OF assms(1) False, of 0 "replicate P_SIZE Uninit"] by (simp add: parse_processes_def h)
  qed
qed

lemma my_comparer_orders:
  assumes "distinct (map arrival_time xs)"
  shows "orders my_comparer xs" "inj_on sort_pair (set xs)" "distinct xs"
proof -
  have inj: "inj_on arrival_time (set xs)" "distinct xs" using assms by (simp_all add: distinct_map)
  then show "inj_on sort_pair (set xs)" "distinct xs" by (auto simp: inj_on_def sort_pair_def)
  then have ne: "sort_pair x \<noteq> sort_pair y" if "x \<in> set xs" "y \<in> set xs" "x \<noteq> y" for x y
    using that by (auto dest: inj_onD)
  show "orders my_comparer xs"
    unfolding orders_def
  proof (intro conjI ballI impI)
    fix x y assume xy: "x \<in> set xs" "y \<in> set xs" "x \<noteq> y"
    show "my_comparer x y \<noteq> 0" by (simp add: my_comparer_def)
    show "my_comparer x y < 0 \<longleftrightarrow> my_comparer y x > 0"
      using my_comparer_less(1)[OF ne[OF xy]] my_comparer_less(2)[OF ne[OF xy(2,1) xy(3)[symmetric]]] by simp
  next
    fix x y z assume s: "x \<in> set xs" "y \<in> set xs" "z \<in> set xs" "x \<noteq> y" "y \<noteq> z" "x \<noteq> z"
      and "my_comparer x y < 0" "my_comparer y z < 0"
    then have "sort_pair x < sort_pair y" "sort_pair y < sort_pair z"
      using my_comparer_less(1)[OF ne[OF s(1,2,4)]] my_comparer_less(1)[OF ne[OF s(2,3,5)]] by simp_all
    then show "my_comparer x z < 0" using my_comparer_less(1)[OF ne[OF s(1,3,6)]] by simp
  qed
qed

text \<open>
  C39. From a file with one line for each of seven processes, with different arrival times, the program
  prints them by falling priority number and rising arrival time. With fewer or more lines its behaviour
  is undefined.
\<close>

lemma processes_sorted:
  assumes "qsort_contract qsort" "\<forall>x\<in>set xs. process_ok x" "distinct (map arrival_time xs)" "CHR 0x0A \<notin> set header"
    "files path = Some (header @ CHR 0x0A # concat (map row_text xs))"
  shows "sort_main qsort files [name, path]
    = (if length xs = P_SIZE then Some (concat (map process_line (sort_key sort_pair xs)), [], 0) else None)"
proof (cases "length xs = P_SIZE")
  case True
  then have ne: "xs \<noteq> []" by (auto simp: P_SIZE_def)
  let ?ys = "qsort my_comparer xs"
  have q: "mset ?ys = mset xs" "sorted_wrt (\<lambda>x y. my_comparer x y < 0) ?ys"
    using assms(1) my_comparer_orders[OF assms(3)] unfolding qsort_contract_def by blast+
  have set: "set ?ys = set xs" by (rule mset_eq_setD[OF q(1)])
  have "sort_pair x \<le> sort_pair y" if "x \<in> set ?ys" "y \<in> set ?ys" "my_comparer x y < 0" for x y
    using that my_comparer_less(1)[of x y] by (cases "sort_pair x = sort_pair y") auto
  then have "sorted_wrt (\<lambda>x y. sort_pair x \<le> sort_pair y) ?ys"
    using q(2) by (rule sorted_wrt_mono_rel)
  then have "sorted (map sort_pair ?ys)" by (simp add: sorted_map)
  then have "sort_key sort_pair xs = ?ys"
    using q(1) my_comparer_orders(2)[OF assms(3)] by (intro sort_key_inj_key_eq) auto
  moreover have "map (\<lambda>c. the (cell_val c)) (map Val xs) = xs" "Uninit \<notin> set (map Val xs)"
    by (auto simp: comp_def)
  ultimately show ?thesis
    using True ne by (simp add: sort_main_def assms(5) parse_processes_text[OF assms(2,4)] comp_def)
next
  case False
  then show ?thesis by (auto simp: sort_main_def assms(5) parse_processes_text[OF assms(2,4)])
qed

lemma processes_sorted_witness:
  "sort_main isort [''f'' \<mapsto> ''pid'' @ CHR 0x0A # concat (map row_text [process_ctr 5 10 3, process_ctr 2 4 0,
       process_ctr 7 14 0, process_ctr 3 6 1, process_ctr 1 2 1, process_ctr 4 8 2, process_ctr 6 12 3])] [''func-ptr'', ''f'']
   = Some (concat (map process_line [process_ctr 5 10 3, process_ctr 6 12 3, process_ctr 4 8 2, process_ctr 1 2 1,
       process_ctr 3 6 1, process_ctr 2 4 0, process_ctr 7 14 0]), [], 0)"
  using processes_sorted[OF isort_contract, of "[process_ctr 5 10 3, process_ctr 2 4 0, process_ctr 7 14 0,
       process_ctr 3 6 1, process_ctr 1 2 1, process_ctr 4 8 2, process_ctr 6 12 3]" "''pid''"
      "[''f'' \<mapsto> ''pid'' @ CHR 0x0A # concat (map row_text [process_ctr 5 10 3, process_ctr 2 4 0,
       process_ctr 7 14 0, process_ctr 3 6 1, process_ctr 1 2 1, process_ctr 4 8 2, process_ctr 6 12 3])]" "''f''" "''func-ptr''"]
  by (simp add: P_SIZE_def process_ok_def int_range_def process_ctr_def sort_pair_def del: concat.simps)

text \<open>The menu of \<open>task2\<close>: a digit above 3 is refused; every character that is not a digit means 0, an addition.\<close>

lemma is_digit_cases: "is_digit c \<Longrightarrow> c \<in> set ''0123456789''"
proof -
  assume c: "is_digit c"
  define d where "d = (of_char c :: nat) - 48"
  then have "digit_char d = c" "d < 10" using c by (auto simp: digit_char_def is_digit_def)
  then show ?thesis unfolding less_10 by auto
qed

lemma strtol_no_digit: "\<not> is_digit c \<Longrightarrow> strtol_int [c] = 0"
  by (simp add: strtol_int_def strtol_def Let_def digits_val_def)

lemma menu_choice:
  "menu_main (Some c) = (if c \<in> set ''456789'' then Some (menu_text @ ''Invalid choice, exiting'' @ [CHR 0x0A], - 1)
     else map_option (\<lambda>(w, x). (menu_text @ w @ ''x = '' @ show_int x @ [CHR 0x0A], 0))
       (if c = CHR ''1'' then subtract 6 3 else if c = CHR ''2'' then multiply 6 3
        else if c = CHR ''3'' then divide_int 6 3 else add 6 3))"
proof (cases "is_digit c")
  case True
  then have "c = CHR ''0'' \<or> c = CHR ''1'' \<or> c = CHR ''2'' \<or> c = CHR ''3'' \<or> c = CHR ''4'' \<or> c = CHR ''5''
    \<or> c = CHR ''6'' \<or> c = CHR ''7'' \<or> c = CHR ''8'' \<or> c = CHR ''9''" using is_digit_cases by auto
  then show ?thesis by (elim disjE; (simp only:, code_simp))
next
  case False
  then have "c \<notin> set ''0123456789''" by (auto simp: is_digit_def)
  moreover have "strtol_int [] = 0" by code_simp
  ultimately show ?thesis
    using strtol_no_digit[OF False] by (auto simp: menu_main_def Let_def func_array_def)
qed

end
