(* ===== verification/QueueTest.thy ===== *)
theory QueueTest
  imports PriQueue
begin

text \<open>
  The test program of the priority queue (\<open>scheduler/src/queuetest.c\<close>): a fixed sequence of calls on
  two queues, which prints its results beside the ones its author expects. A pointer into the array
  \<open>values\<close> is its index.
\<close>

text \<open>\<open>values[i] = i\<close>\<close>

definition test_values :: "nat \<Rightarrow> int" where
  "test_values i = int i"

definition tell :: "string \<Rightarrow> nat \<Rightarrow> string \<Rightarrow> string" where
  "tell w n expected = w @ show_nat n @ '' (expected '' @ expected @ '').'' @ [CHR 0x0A]"

definition offer_many :: "nat list \<Rightarrow> (nat \<Rightarrow> int, nat) priqueue_t \<Rightarrow> (nat \<Rightarrow> int, nat) priqueue_t option" where
  "offer_many xs q = offer_all (priqueue_offer test_values) xs q"

text \<open>A pointer that is \<open>NULL\<close> must not be followed.\<close>

definition deref :: "nat option \<Rightarrow> int option" where
  "deref p = map_option test_values p"

text \<open>The two loops that print a queue from its first to its last element.\<close>

definition print_queue :: "(nat \<Rightarrow> int, nat) priqueue_t \<Rightarrow> string option" where
  "print_queue q = fold (\<lambda>i r. Option.bind r (\<lambda>w. Option.bind (priqueue_at q (int i)) (\<lambda>p.
     map_option (\<lambda>v. w @ show_int v @ '' '') (deref p)))) [0..<priqueue_size q] (Some [])"

definition queue_test_main :: "string option" where
  "queue_test_main =
     Option.bind (offer_many [12, 13, 14, 12, 12] (priqueue_init compare1)) (\<lambda>q.
     let w1 = tell ''Total elements: '' (priqueue_size q) ''5'' in
     Option.bind (priqueue_poll q) (\<lambda>(p, q). Option.bind (deref p) (\<lambda>val.
     let w2 = ''Top element: '' @ show_int val @ '' (expected 12).'' @ [CHR 0x0A];
         w3 = tell ''Total elements: '' (priqueue_size q) ''4'' in
     Option.bind (priqueue_remove 12 q) (\<lambda>(vals_removed, q).
     let w4 = tell ''Elements removed: '' vals_removed ''2'';
         w5 = tell ''Total elements: '' (priqueue_size q) ''2'' in
     Option.bind (offer_many [10, 30, 20] q) (\<lambda>q.
     Option.bind (offer_many [10, 30, 20] (priqueue_init compare2)) (\<lambda>q2.
     Option.bind (print_queue q) (\<lambda>o1. Option.bind (print_queue q2) (\<lambda>o2.
       Some (w1 @ w2 @ w3 @ w4 @ w5
         @ ''Elements in order queue (expected 10 13 14 20 30): '' @ o1 @ [CHR 0x0A]
         @ ''Elements in reverse order queue (expected 30 20 10): '' @ o2 @ [CHR 0x0A])))))))))"

text \<open>The program prints what its author expects.\<close>

lemma queue_test_passes:
  "queue_test_main = Some (
     tell ''Total elements: '' 5 ''5'' @ ''Top element: 12 (expected 12).'' @ [CHR 0x0A]
     @ tell ''Total elements: '' 4 ''4'' @ tell ''Elements removed: '' 2 ''2'' @ tell ''Total elements: '' 2 ''2''
     @ ''Elements in order queue (expected 10 13 14 20 30): 10 13 14 20 30 '' @ [CHR 0x0A]
     @ ''Elements in reverse order queue (expected 30 20 10): 30 20 10 '' @ [CHR 0x0A])"
  by code_simp

end
